(* ===== verification/Prelude.thy ===== *)
theory Prelude
  imports Main "HOL-Library.Word"
begin

unbundle bit_operations_syntax

section \<open>Shared types, faults and machine-word facts\<close>

text \<open>
  The vocabulary every component of the development uses.

  The runtime is C for a 32-bit target (README, first lines), so \<open>unsigned int\<close>, \<open>size_t\<close> and
  every pointer are a \<open>32 word\<close>, \<open>unsigned char\<close> an \<open>8 word\<close> and \<open>short\<close> a \<open>16 word\<close>;
  \<open>int\<close> values are the same words read by \<open>sint\<close>.  The null pointer is \<open>0\<close>.

  A C function that can leave by an exception or by ending the process returns a value of
  type \<open>'a res\<close>: \<open>Inl (Throw e)\<close> is a \<open>longjmp\<close> through \<open>_throw_fn\<close> (runtime_exception.c),
  \<open>Inl (Errquit m)\<close> is the macro \<open>errquit\<close> (runtime_internal.h), which prints and calls
  \<open>exit(1)\<close>; a failed \<open>assert\<close> is an \<open>errquit\<close> too.
\<close>

type_synonym u8 = "8 word"
type_synonym u16 = "16 word"
type_synonym u32 = "32 word"
type_synonym u64 = "64 word"
type_synonym ptr = u32

abbreviation NULL :: ptr where
  "NULL \<equiv> 0"

subsection \<open>Faults\<close>

text \<open>
  The built-in exception values of runtime_exception.c and the exceptions of the list and dictionary
  libraries and of namespace Core.
\<close>

datatype exn =
    Null_Exception
  | Array_bounds
  | Match_Exception
  | Bad_alloc
  | Stack_overflow
  | List_mismatch
  | Nth
  | Not_found
  | Absent
  | Present
  | Empty
  | Failure string
  | Invalid_argument string

datatype fault = Throw exn | Errquit string

type_synonym 'a res = "fault + 'a"

definition bind_res :: "'a res \<Rightarrow> ('a \<Rightarrow> 'b res) \<Rightarrow> 'b res" where
  "bind_res m f = (case m of Inl e \<Rightarrow> Inl e | Inr x \<Rightarrow> f x)"

text \<open>\<open>assert(b)\<close> of runtime_internal.h: the process ends when the condition fails.\<close>

definition assert_c :: "bool \<Rightarrow> string \<Rightarrow> unit res" where
  "assert_c b msg = (if b then Inr () else Inl (Errquit msg))"

named_theorems res_simps \<open>equations of the fault monad\<close>
named_theorems wf_intros \<open>introduction rules of the well-formedness invariants\<close>

lemma bind_res_Inl [simp, res_simps]: "bind_res (Inl e) f = Inl e"
  by (simp add: bind_res_def)

lemma bind_res_Inr [simp, res_simps]: "bind_res (Inr x) f = f x"
  by (simp add: bind_res_def)

lemma bind_res_eq_Inr [res_simps]:
  "bind_res m f = Inr y \<longleftrightarrow> (\<exists>x. m = Inr x \<and> f x = Inr y)"
  by (cases m) (simp_all add: bind_res_def)

lemma bind_res_eq_Inl [res_simps]:
  "bind_res m f = Inl e \<longleftrightarrow> m = Inl e \<or> (\<exists>x. m = Inr x \<and> f x = Inl e)"
  by (cases m) (simp_all add: bind_res_def)

lemma bind_res_assoc: "bind_res (bind_res m f) g = bind_res m (\<lambda>x. bind_res (f x) g)"
  by (cases m) simp_all

text \<open>
  Code that walks pointers may also fail to end: \<open>None\<close> is a run that does not end, and the
  results in \<open>Some\<close> are faults or values.
\<close>

type_synonym 'a ores = "'a res option"

definition bind_ores :: "'a ores \<Rightarrow> ('a \<Rightarrow> 'b ores) \<Rightarrow> 'b ores" where
  "bind_ores m f = Option.bind m (\<lambda>r. case r of Inl e \<Rightarrow> Some (Inl e) | Inr x \<Rightarrow> f x)"

definition assert_o :: "bool \<Rightarrow> string \<Rightarrow> unit ores" where
  "assert_o b msg = Some (assert_c b msg)"

lemma bind_ores_simps [simp, res_simps]:
  "bind_ores None f = None" "bind_ores (Some (Inl e)) f = Some (Inl e)" "bind_ores (Some (Inr x)) f = f x"
  by (simp_all add: bind_ores_def)

lemma bind_ores_eq_Inr [res_simps]:
  "bind_ores m f = Some (Inr y) \<longleftrightarrow> (\<exists>x. m = Some (Inr x) \<and> f x = Some (Inr y))"
  by (cases m) (auto simp: bind_ores_def split: sum.splits)

lemma assert_o_simps [simp, res_simps]:
  "b \<Longrightarrow> assert_o b msg = Some (Inr ())" "\<not> b \<Longrightarrow> assert_o b msg = Some (Inl (Errquit msg))"
  by (simp_all add: assert_o_def assert_c_def)

lemma bind_ores_mono [partial_function_mono]:
  assumes "mono_option B" and "\<And>y. mono_option (\<lambda>f. C y f)"
  shows "mono_option (\<lambda>f. bind_ores (B f) (\<lambda>y. C y f))"
proof -
  have "mono_option (\<lambda>f. case r of Inl e \<Rightarrow> Some (Inl e) | Inr x \<Rightarrow> C x f)" for r
    using assms(2) by (cases r) (simp_all add: option.const_mono)
  then show ?thesis unfolding bind_ores_def by (intro bind_mono assms(1))
qed

lemma bind_res_cong [fundef_cong]:
  "m = m' \<Longrightarrow> (\<And>x. m' = Inr x \<Longrightarrow> f x = f' x) \<Longrightarrow> bind_res m f = bind_res m' f'"
  by (cases m') simp_all

lemma assert_c_eq_Inr [res_simps]: "assert_c b msg = Inr u \<longleftrightarrow> b"
  by (simp add: assert_c_def)

lemma assert_c_True [simp]: "assert_c True msg = Inr ()"
  by (simp add: assert_c_def)

lemma assert_c_False [simp]: "assert_c False msg = Inl (Errquit msg)"
  by (simp add: assert_c_def)

subsection \<open>Words and the natural numbers they stand for\<close>

lemma unat_lt_2p32 [simp]: "unat (x :: u32) < 4294967296"
  using unsigned_less [of x, where ?'a = nat] by simp

lemma unat_le_2p32 [simp]: "unat (x :: u32) \<le> 4294967295"
  using unat_lt_2p32 [of x] by linarith

lemma unat_add_u32:
  "unat (x :: u32) + unat y < 4294967296 \<Longrightarrow> unat (x + y) = unat x + unat y"
  by (simp add: unat_word_ariths)

lemma unat_add_u32_mod: "unat (x + y :: u32) = (unat x + unat y) mod 4294967296"
  by (simp add: unat_word_ariths)

lemma unat_mult_u32:
  "unat (x :: u32) * unat y < 4294967296 \<Longrightarrow> unat (x * y) = unat x * unat y"
  by (simp add: unat_word_ariths)

lemma unat_mult_u32_mod: "unat (x * y :: u32) = (unat x * unat y) mod 4294967296"
  by (simp add: unat_word_ariths)

lemma unat_sub_u32: "(y :: u32) \<le> x \<Longrightarrow> unat (x - y) = unat x - unat y"
  by (simp add: unat_sub)

lemma word_gt_0_u32: "(x :: u32) \<noteq> 0 \<longleftrightarrow> 0 < unat x"
  by (simp add: unat_gt_0)

lemma of_nat_eq_0_iff_u32: "n < 4294967296 \<Longrightarrow> (of_nat n :: u32) = 0 \<longleftrightarrow> n = 0"
  using word_gt_0_u32 [of "of_nat n"] by (auto simp: unsigned_of_nat take_bit_nat_def)

lemma sint_of_nat_u32: "n < 2147483648 \<Longrightarrow> sint (of_nat n :: u32) = int n"
  by (simp add: signed_of_nat signed_take_bit_int_eq_self)

lemma mod_less_self_iff: "0 < n \<Longrightarrow> m mod n < m \<longleftrightarrow> n \<le> (m :: nat)"
  by (cases "m < n") (auto intro: less_le_trans [OF mod_less_divisor])

lemma unat_Suc_u32: "(x :: u32) < y \<Longrightarrow> unat (x + 1) = Suc (unat x)"
proof -
  assume "x < y"
  then have "unat x < unat y" by (simp add: word_less_nat_alt)
  then have "unat x < 4294967295" by (rule less_le_trans) simp
  then show ?thesis by (simp add: unat_add_u32)
qed

lemma unat_pred_u32: "(x :: u32) \<noteq> 0 \<Longrightarrow> unat (x - 1) = unat x - 1"
  by (simp add: unat_sub_u32 word_le_nat_alt Suc_le_eq unat_gt_0)

text \<open>
  An address interval \<open>[p, p + n)\<close> that does not wrap past the top of the address space:
  what an object in C memory occupies.
\<close>

definition no_wrap :: "u32 \<Rightarrow> u32 \<Rightarrow> bool" where
  "no_wrap p n \<longleftrightarrow> unat p + unat n < 4294967296"

definition in_range :: "u32 \<Rightarrow> u32 \<Rightarrow> u32 \<Rightarrow> bool" where
  "in_range p n a \<longleftrightarrow> a - p < n"

lemma in_range_unat:
  assumes "no_wrap p n"
  shows "in_range p n a \<longleftrightarrow> unat p \<le> unat a \<and> unat a < unat p + unat n"
proof (cases "p \<le> a")
  case True
  then have "unat (a - p) = unat a - unat p" and "unat p \<le> unat a"
    by (simp_all add: unat_sub word_le_nat_alt)
  then show ?thesis
    by (auto simp: in_range_def word_less_nat_alt)
next
  case False
  then have lt: "unat a < unat p"
    by (simp add: word_le_nat_alt not_le)
  have "unat (a - p) = unat a + 4294967296 - unat p"
    using False by (simp add: unat_sub_if' word_le_nat_alt)
  with lt assms show ?thesis
    by (auto simp: in_range_def no_wrap_def word_less_nat_alt)
qed

lemma unat_plus_no_wrap: "no_wrap p n \<Longrightarrow> unat (p + n) = unat p + unat n"
  by (simp add: no_wrap_def unat_add_u32)

lemma no_wrap_le: "no_wrap p n \<Longrightarrow> unat m \<le> unat n \<Longrightarrow> no_wrap p m"
  by (simp add: no_wrap_def)

lemma le_plus_no_wrap: "no_wrap p n \<Longrightarrow> p \<le> p + n"
  by (simp add: word_le_nat_alt unat_plus_no_wrap)

subsection \<open>Rounding to the minimum alignment\<close>

lemma unat_drop_bit_u32: "unat (drop_bit k (v :: u32)) = unat v div 2 ^ k"
  by (metis drop_bit_eq_div unsigned_drop_bit_eq take_bit_nat_eq_self unsigned_less)

lemma and_not_7_bits: "(x :: u32) AND NOT 7 = push_bit 3 (drop_bit 3 x)"
proof (rule bit_word_eqI)
  fix n assume n: "n < LENGTH(32)"
  have "bit (7 :: u32) n \<longleftrightarrow> n < 3"
  proof -
    have "(7 :: u32) = mask 3" by (simp add: mask_eq_exp_minus_1)
    then show ?thesis using n by (simp only: bit_mask_iff) auto
  qed
  then show "bit (x AND NOT 7) n = bit (push_bit 3 (drop_bit 3 x)) n"
    using n by (simp only: bit_and_iff bit_not_iff bit_push_bit_iff bit_drop_bit_eq o_def) auto
qed

lemma unat_and_not_7: "unat ((x :: u32) AND NOT 7) = 8 * (unat x div 8)"
proof -
  have "unat x < 4294967296" by simp
  then have "8 * (unat x div 8) < 4294967296" by linarith
  then show ?thesis
    by (simp only: and_not_7_bits unsigned_push_bit_eq unat_drop_bit_u32)
      (simp add: push_bit_eq_mult take_bit_eq_mod mult.commute)
qed

text \<open>\<open>(s + _CYC_MIN_ALIGNMENT - 1) & ~(_CYC_MIN_ALIGNMENT - 1)\<close> with \<open>sizeof(double) = 8\<close>.\<close>

definition CYC_MIN_ALIGNMENT :: u32 where
  "CYC_MIN_ALIGNMENT = 8"

definition round_up :: "u32 \<Rightarrow> u32" where
  "round_up s = (s + CYC_MIN_ALIGNMENT - 1) AND NOT (CYC_MIN_ALIGNMENT - 1)"

lemma round_up_eq: "round_up s = (s + 7) AND NOT 7"
  by (simp add: round_up_def CYC_MIN_ALIGNMENT_def add.commute)

lemma unat_round_up:
  assumes "unat s \<le> 4294967288"
  shows "unat (round_up s) = 8 * ((unat s + 7) div 8)"
proof -
  have "unat (s + 7) = unat s + 7"
    using assms by (simp add: unat_add_u32)
  then show ?thesis by (simp only: round_up_eq unat_and_not_7)
qed

lemma round_up_bounds:
  assumes "unat s \<le> 4294967288"
  shows "unat s \<le> unat (round_up s)" and "unat (round_up s) < unat s + 8"
    and "8 dvd unat (round_up s)"
  unfolding unat_round_up [OF assms] by simp_all

subsection \<open>Transition systems and their invariants\<close>

inductive reachable :: "('s \<Rightarrow> bool) \<Rightarrow> ('s \<Rightarrow> 's \<Rightarrow> bool) \<Rightarrow> 's \<Rightarrow> bool"
  for init :: "'s \<Rightarrow> bool" and step :: "'s \<Rightarrow> 's \<Rightarrow> bool" where
  reachable_init: "init s \<Longrightarrow> reachable init step s"
| reachable_step: "reachable init step s \<Longrightarrow> step s t \<Longrightarrow> reachable init step t"

text \<open>
  The interface between a protocol and the properties read off its states: an initial predicate, a
  step relation and a predicate that the first establishes and the second keeps.
\<close>

locale inv_system =
  fixes init :: "'s \<Rightarrow> bool"
    and step :: "'s \<Rightarrow> 's \<Rightarrow> bool"
    and inv :: "'s \<Rightarrow> bool"
  assumes inv_init: "init s \<Longrightarrow> inv s"
    and inv_step: "inv s \<Longrightarrow> step s t \<Longrightarrow> inv t"
begin

lemma reachable_inv: "reachable init step s \<Longrightarrow> inv s"
  by (induction rule: reachable.induct) (auto intro: inv_init inv_step)

lemma steps_inv: "step\<^sup>*\<^sup>* s t \<Longrightarrow> inv s \<Longrightarrow> inv t"
  by (induction rule: rtranclp_induct) (auto intro: inv_step)

end

lemma reachable_steps: "reachable init step s \<Longrightarrow> step\<^sup>*\<^sup>* s t \<Longrightarrow> reachable init step t"
  by (rotate_tac, induction rule: rtranclp_induct) (auto intro: reachable_step)

end
