(* ===== verification/Fat_Pointers.thy ===== *)
theory Fat_Pointers
  imports Prelude
begin

section \<open>Fat pointers, subscript checks and zero-terminated pointers\<close>

text \<open>
  The run-time checks the Cyclone translator emits around every pointer use: the macros of
  lib/cyc_include.h (fat pointers, known-bound subscripts, \<open>_check_times\<close>) and the functions of
  lib/runtime_zeroterm.c.  Pointer arithmetic is on 32-bit words and wraps as the machine does.

  What the lemmas show: a subscript check that succeeds designates a whole element of the array
  when the element size divides the address space (\<open>check_fat_subscript_element\<close>), it never
  rejects an index inside the array (\<open>check_fat_subscript_complete\<close>), and with another element
  size the multiplication can wrap to an address inside the array that is not an element
  (\<open>check_fat_subscript_wraps\<close>).
\<close>

subsection \<open>struct _fat_ptr\<close>

record fat_ptr =
  fat_curr :: ptr
  fat_base :: ptr
  fat_last_plus_one :: ptr

definition check_null :: "ptr \<Rightarrow> ptr res" where
  "check_null p = (if p = NULL then Inl (Throw Null_Exception) else Inr p)"

definition check_known_subscript_null :: "ptr \<Rightarrow> u32 \<Rightarrow> u32 \<Rightarrow> u32 \<Rightarrow> ptr res" where
  "check_known_subscript_null p bound elt_sz index =
     (if p = NULL then Inl (Throw Null_Exception)
      else if bound \<le> index then Inl (Throw Array_bounds)
      else Inr (p + elt_sz * index))"

definition check_known_subscript_notnull :: "ptr \<Rightarrow> u32 \<Rightarrow> u32 \<Rightarrow> u32 \<Rightarrow> ptr res" where
  "check_known_subscript_notnull p bound elt_sz index =
     (if bound \<le> index then Inl (Throw Array_bounds)
      else Inr (p + elt_sz * index))"

definition check_fat_subscript :: "fat_ptr \<Rightarrow> u32 \<Rightarrow> u32 \<Rightarrow> ptr res" where
  "check_fat_subscript arr elt_sz index =
     (let ans = fat_curr arr + elt_sz * index
      in if ans < fat_base arr \<or> fat_last_plus_one arr \<le> ans
         then Inl (Throw Array_bounds) else Inr ans)"

definition untag_fat_ptr :: "fat_ptr \<Rightarrow> u32 \<Rightarrow> u32 \<Rightarrow> ptr res" where
  "untag_fat_ptr arr elt_sz num_elts =
     (let c = fat_curr arr
      in if (c < fat_base arr \<or> fat_last_plus_one arr < c + elt_sz * num_elts) \<and> c \<noteq> NULL
         then Inl (Throw Array_bounds) else Inr c)"

definition tag_fat :: "ptr \<Rightarrow> u32 \<Rightarrow> u32 \<Rightarrow> fat_ptr" where
  "tag_fat tcurr elt_sz num_elts =
     \<lparr>fat_curr = tcurr, fat_base = tcurr,
      fat_last_plus_one = (if tcurr \<noteq> NULL then tcurr + elt_sz * num_elts else 0)\<rparr>"

definition get_fat_size :: "fat_ptr \<Rightarrow> u32 \<Rightarrow> u32" where
  "get_fat_size arr elt_sz =
     (if fat_curr arr < fat_base arr \<or> fat_last_plus_one arr \<le> fat_curr arr then 0
      else (fat_last_plus_one arr - fat_curr arr) div elt_sz)"

definition fat_ptr_plus :: "fat_ptr \<Rightarrow> u32 \<Rightarrow> u32 \<Rightarrow> fat_ptr" where
  "fat_ptr_plus arr elt_sz change = arr\<lparr>fat_curr := fat_curr arr + elt_sz * change\<rparr>"

text \<open>The in-place forms take the pointed-to fat pointer and return its new value with the result.\<close>

definition fat_ptr_inplace_plus :: "fat_ptr \<Rightarrow> u32 \<Rightarrow> u32 \<Rightarrow> fat_ptr \<times> fat_ptr" where
  "fat_ptr_inplace_plus arr elt_sz change =
     (let arr' = arr\<lparr>fat_curr := fat_curr arr + elt_sz * change\<rparr> in (arr', arr'))"

definition fat_ptr_inplace_plus_post :: "fat_ptr \<Rightarrow> u32 \<Rightarrow> u32 \<Rightarrow> fat_ptr \<times> fat_ptr" where
  "fat_ptr_inplace_plus_post arr elt_sz change =
     (let ans = arr in (arr\<lparr>fat_curr := fat_curr arr + elt_sz * change\<rparr>, ans))"

definition fat_ptr_decrease_size :: "fat_ptr \<Rightarrow> u32 \<Rightarrow> u32 \<Rightarrow> fat_ptr" where
  "fat_ptr_decrease_size x sz numelts =
     (let delta = sz * numelts
      in if delta \<le> fat_last_plus_one x - fat_base x
         then x\<lparr>fat_last_plus_one := fat_last_plus_one x - delta\<rparr>
         else x\<lparr>fat_last_plus_one := fat_base x\<rparr>)"

text \<open>\<open>_check_times\<close>: the product in 64 bits, compared with its own low word.\<close>

definition MAX_MALLOC_SIZE :: u32 where
  "MAX_MALLOC_SIZE = 268435456"

definition check_times :: "u32 \<Rightarrow> u32 \<Rightarrow> u32 res" where
  "check_times x y =
     (let whole_ans = (ucast x :: u64) * (ucast y :: u64);
          word_ans = (ucast whole_ans :: u32)
      in if (ucast word_ans :: u64) < whole_ans \<or> MAX_MALLOC_SIZE < word_ans
         then Inl (Throw Bad_alloc) else Inr word_ans)"

subsection \<open>Zero-terminated pointers\<close>

text \<open>
  runtime_zeroterm.c has one copy of each function per element type; the bodies differ only in the
  element type, that is in \<open>sizeof\<close> and in the read that is compared with \<open>0\<close>.  Both are
  arguments here: \<open>is0 a\<close> says that the element stored at address \<open>a\<close> compares equal to 0.
\<close>

function zero_arr_scan :: "(ptr \<Rightarrow> bool) \<Rightarrow> u32 \<Rightarrow> ptr \<Rightarrow> u32 \<Rightarrow> u32 \<Rightarrow> unit res" where
  "zero_arr_scan is0 esz x t i =
     (if t < i
      then if is0 (x + esz * t) then Inl (Throw Array_bounds) else zero_arr_scan is0 esz x (t + 1) i
      else Inr ())"
  by pat_completeness auto
termination
  by (relation "measure (\<lambda>(is0, esz, x, t, i). unat i - unat t)")
    (auto simp: unat_Suc_u32 word_less_nat_alt)

declare zero_arr_scan.simps [simp del]

definition zero_arr_plus :: "(ptr \<Rightarrow> bool) \<Rightarrow> u32 \<Rightarrow> ptr \<Rightarrow> u32 \<Rightarrow> u32 \<Rightarrow> ptr res" where
  "zero_arr_plus is0 esz orig_x orig_sz orig_i =
     (if orig_x = NULL then Inl (Throw Null_Exception)
      else if sint orig_i < 0 \<or> orig_sz = 0 then Inl (Throw Array_bounds)
      else bind_res (zero_arr_scan is0 esz orig_x (orig_sz - 1) orig_i)
             (\<lambda>_. Inr (orig_x + esz * orig_i)))"

text \<open>The seven instances, with the i386 sizes of their element types.\<close>

definition zero_arr_plus_char_fn :: "(ptr \<Rightarrow> bool) \<Rightarrow> ptr \<Rightarrow> u32 \<Rightarrow> u32 \<Rightarrow> ptr res" where
  "zero_arr_plus_char_fn is0 = zero_arr_plus is0 1"

definition zero_arr_plus_short_fn :: "(ptr \<Rightarrow> bool) \<Rightarrow> ptr \<Rightarrow> u32 \<Rightarrow> u32 \<Rightarrow> ptr res" where
  "zero_arr_plus_short_fn is0 = zero_arr_plus is0 2"

definition zero_arr_plus_int_fn :: "(ptr \<Rightarrow> bool) \<Rightarrow> ptr \<Rightarrow> u32 \<Rightarrow> u32 \<Rightarrow> ptr res" where
  "zero_arr_plus_int_fn is0 = zero_arr_plus is0 4"

definition zero_arr_plus_float_fn :: "(ptr \<Rightarrow> bool) \<Rightarrow> ptr \<Rightarrow> u32 \<Rightarrow> u32 \<Rightarrow> ptr res" where
  "zero_arr_plus_float_fn is0 = zero_arr_plus is0 4"

definition zero_arr_plus_double_fn :: "(ptr \<Rightarrow> bool) \<Rightarrow> ptr \<Rightarrow> u32 \<Rightarrow> u32 \<Rightarrow> ptr res" where
  "zero_arr_plus_double_fn is0 = zero_arr_plus is0 8"

definition zero_arr_plus_longdouble_fn :: "(ptr \<Rightarrow> bool) \<Rightarrow> ptr \<Rightarrow> u32 \<Rightarrow> u32 \<Rightarrow> ptr res" where
  "zero_arr_plus_longdouble_fn is0 = zero_arr_plus is0 12"

definition zero_arr_plus_voidstar_fn :: "(ptr \<Rightarrow> bool) \<Rightarrow> ptr \<Rightarrow> u32 \<Rightarrow> u32 \<Rightarrow> ptr res" where
  "zero_arr_plus_voidstar_fn is0 = zero_arr_plus is0 4"

text \<open>
  \<open>_get_zero_arr_size_*\<close> walks until it reads a zero element; on an array without a terminator
  the walk does not end, so its value is an option.
\<close>

partial_function (option) zero_arr_walk :: "(ptr \<Rightarrow> bool) \<Rightarrow> u32 \<Rightarrow> ptr \<Rightarrow> u32 \<Rightarrow> u32 option" where
  "zero_arr_walk is0 esz gres_x gres =
     (if is0 gres_x then Some gres else zero_arr_walk is0 esz (gres_x + esz) (gres + 1))"

definition get_zero_arr_size :: "(ptr \<Rightarrow> bool) \<Rightarrow> u32 \<Rightarrow> ptr \<Rightarrow> u32 \<Rightarrow> u32 option" where
  "get_zero_arr_size is0 esz orig_x orig_offset =
     (if orig_x \<noteq> NULL
      then zero_arr_walk is0 esz (orig_x + esz * (orig_offset - 1)) orig_offset
      else Some 0)"

definition get_zero_arr_size_char :: "(ptr \<Rightarrow> bool) \<Rightarrow> ptr \<Rightarrow> u32 \<Rightarrow> u32 option" where
  "get_zero_arr_size_char is0 = get_zero_arr_size is0 1"

definition get_zero_arr_size_short :: "(ptr \<Rightarrow> bool) \<Rightarrow> ptr \<Rightarrow> u32 \<Rightarrow> u32 option" where
  "get_zero_arr_size_short is0 = get_zero_arr_size is0 2"

definition get_zero_arr_size_int :: "(ptr \<Rightarrow> bool) \<Rightarrow> ptr \<Rightarrow> u32 \<Rightarrow> u32 option" where
  "get_zero_arr_size_int is0 = get_zero_arr_size is0 4"

definition get_zero_arr_size_float :: "(ptr \<Rightarrow> bool) \<Rightarrow> ptr \<Rightarrow> u32 \<Rightarrow> u32 option" where
  "get_zero_arr_size_float is0 = get_zero_arr_size is0 4"

definition get_zero_arr_size_double :: "(ptr \<Rightarrow> bool) \<Rightarrow> ptr \<Rightarrow> u32 \<Rightarrow> u32 option" where
  "get_zero_arr_size_double is0 = get_zero_arr_size is0 8"

definition get_zero_arr_size_longdouble :: "(ptr \<Rightarrow> bool) \<Rightarrow> ptr \<Rightarrow> u32 \<Rightarrow> u32 option" where
  "get_zero_arr_size_longdouble is0 = get_zero_arr_size is0 12"

definition get_zero_arr_size_voidstar :: "(ptr \<Rightarrow> bool) \<Rightarrow> ptr \<Rightarrow> u32 \<Rightarrow> u32 option" where
  "get_zero_arr_size_voidstar is0 = get_zero_arr_size is0 4"

text \<open>
  In-place addition: the argument is the current value of \<open>*x\<close>, the result its new value and the
  value returned.
\<close>

definition zero_arr_inplace_plus_char_fn :: "(ptr \<Rightarrow> bool) \<Rightarrow> ptr \<Rightarrow> u32 \<Rightarrow> (ptr \<times> ptr) res" where
  "zero_arr_inplace_plus_char_fn is0 x orig_i =
     bind_res (zero_arr_plus_char_fn is0 x 1 orig_i) (\<lambda>x'. Inr (x', x'))"

definition zero_arr_inplace_plus_short_fn :: "(ptr \<Rightarrow> bool) \<Rightarrow> ptr \<Rightarrow> u32 \<Rightarrow> (ptr \<times> ptr) res" where
  "zero_arr_inplace_plus_short_fn is0 x orig_i =
     bind_res (zero_arr_plus_short_fn is0 x 1 orig_i) (\<lambda>x'. Inr (x', x'))"

definition zero_arr_inplace_plus_int_fn :: "(ptr \<Rightarrow> bool) \<Rightarrow> ptr \<Rightarrow> u32 \<Rightarrow> (ptr \<times> ptr) res" where
  "zero_arr_inplace_plus_int_fn is0 x orig_i =
     bind_res (zero_arr_plus_int_fn is0 x 1 orig_i) (\<lambda>x'. Inr (x', x'))"

definition zero_arr_inplace_plus_float_fn :: "(ptr \<Rightarrow> bool) \<Rightarrow> ptr \<Rightarrow> u32 \<Rightarrow> (ptr \<times> ptr) res" where
  "zero_arr_inplace_plus_float_fn is0 x orig_i =
     bind_res (zero_arr_plus_float_fn is0 x 1 orig_i) (\<lambda>x'. Inr (x', x'))"

definition zero_arr_inplace_plus_double_fn :: "(ptr \<Rightarrow> bool) \<Rightarrow> ptr \<Rightarrow> u32 \<Rightarrow> (ptr \<times> ptr) res" where
  "zero_arr_inplace_plus_double_fn is0 x orig_i =
     bind_res (zero_arr_plus_double_fn is0 x 1 orig_i) (\<lambda>x'. Inr (x', x'))"

definition zero_arr_inplace_plus_longdouble_fn :: "(ptr \<Rightarrow> bool) \<Rightarrow> ptr \<Rightarrow> u32 \<Rightarrow> (ptr \<times> ptr) res" where
  "zero_arr_inplace_plus_longdouble_fn is0 x orig_i =
     bind_res (zero_arr_plus_longdouble_fn is0 x 1 orig_i) (\<lambda>x'. Inr (x', x'))"

definition zero_arr_inplace_plus_voidstar_fn :: "(ptr \<Rightarrow> bool) \<Rightarrow> ptr \<Rightarrow> u32 \<Rightarrow> (ptr \<times> ptr) res" where
  "zero_arr_inplace_plus_voidstar_fn is0 x orig_i =
     bind_res (zero_arr_plus_voidstar_fn is0 x 1 orig_i) (\<lambda>x'. Inr (x', x'))"

definition zero_arr_inplace_plus_post_char_fn :: "(ptr \<Rightarrow> bool) \<Rightarrow> ptr \<Rightarrow> u32 \<Rightarrow> (ptr \<times> ptr) res" where
  "zero_arr_inplace_plus_post_char_fn is0 x orig_i =
     (let zap_res = x
      in bind_res (zero_arr_plus_char_fn is0 zap_res 1 orig_i) (\<lambda>x'. Inr (x', zap_res)))"

definition zero_arr_inplace_plus_post_short_fn :: "(ptr \<Rightarrow> bool) \<Rightarrow> ptr \<Rightarrow> u32 \<Rightarrow> (ptr \<times> ptr) res" where
  "zero_arr_inplace_plus_post_short_fn is0 x orig_i =
     (let zap_res = x
      in bind_res (zero_arr_plus_short_fn is0 zap_res 1 orig_i) (\<lambda>x'. Inr (x', zap_res)))"

definition zero_arr_inplace_plus_post_int_fn :: "(ptr \<Rightarrow> bool) \<Rightarrow> ptr \<Rightarrow> u32 \<Rightarrow> (ptr \<times> ptr) res" where
  "zero_arr_inplace_plus_post_int_fn is0 x orig_i =
     (let zap_res = x
      in bind_res (zero_arr_plus_int_fn is0 zap_res 1 orig_i) (\<lambda>x'. Inr (x', zap_res)))"

definition zero_arr_inplace_plus_post_float_fn :: "(ptr \<Rightarrow> bool) \<Rightarrow> ptr \<Rightarrow> u32 \<Rightarrow> (ptr \<times> ptr) res" where
  "zero_arr_inplace_plus_post_float_fn is0 x orig_i =
     (let zap_res = x
      in bind_res (zero_arr_plus_float_fn is0 zap_res 1 orig_i) (\<lambda>x'. Inr (x', zap_res)))"

definition zero_arr_inplace_plus_post_double_fn :: "(ptr \<Rightarrow> bool) \<Rightarrow> ptr \<Rightarrow> u32 \<Rightarrow> (ptr \<times> ptr) res" where
  "zero_arr_inplace_plus_post_double_fn is0 x orig_i =
     (let zap_res = x
      in bind_res (zero_arr_plus_double_fn is0 zap_res 1 orig_i) (\<lambda>x'. Inr (x', zap_res)))"

definition zero_arr_inplace_plus_post_longdouble_fn :: "(ptr \<Rightarrow> bool) \<Rightarrow> ptr \<Rightarrow> u32 \<Rightarrow> (ptr \<times> ptr) res" where
  "zero_arr_inplace_plus_post_longdouble_fn is0 x orig_i =
     (let zap_res = x
      in bind_res (zero_arr_plus_longdouble_fn is0 zap_res 1 orig_i) (\<lambda>x'. Inr (x', zap_res)))"

definition zero_arr_inplace_plus_post_voidstar_fn :: "(ptr \<Rightarrow> bool) \<Rightarrow> ptr \<Rightarrow> u32 \<Rightarrow> (ptr \<times> ptr) res" where
  "zero_arr_inplace_plus_post_voidstar_fn is0 x orig_i =
     (let zap_res = x
      in bind_res (zero_arr_plus_voidstar_fn is0 zap_res 1 orig_i) (\<lambda>x'. Inr (x', zap_res)))"

lemmas zero_arr_plus_fn_defs =
  zero_arr_plus_char_fn_def zero_arr_plus_short_fn_def zero_arr_plus_int_fn_def zero_arr_plus_float_fn_def zero_arr_plus_double_fn_def zero_arr_plus_longdouble_fn_def zero_arr_plus_voidstar_fn_def

lemmas get_zero_arr_size_fn_defs =
  get_zero_arr_size_char_def get_zero_arr_size_short_def get_zero_arr_size_int_def get_zero_arr_size_float_def get_zero_arr_size_double_def get_zero_arr_size_longdouble_def get_zero_arr_size_voidstar_def

lemmas zero_arr_inplace_fn_defs =
  zero_arr_inplace_plus_char_fn_def zero_arr_inplace_plus_short_fn_def zero_arr_inplace_plus_int_fn_def zero_arr_inplace_plus_float_fn_def zero_arr_inplace_plus_double_fn_def zero_arr_inplace_plus_longdouble_fn_def zero_arr_inplace_plus_voidstar_fn_def
  zero_arr_inplace_plus_post_char_fn_def zero_arr_inplace_plus_post_short_fn_def zero_arr_inplace_plus_post_int_fn_def zero_arr_inplace_plus_post_float_fn_def zero_arr_inplace_plus_post_double_fn_def zero_arr_inplace_plus_post_longdouble_fn_def zero_arr_inplace_plus_post_voidstar_fn_def

subsection \<open>What the subscript checks guarantee\<close>

text \<open>A fat pointer whose bounds are those of an array of \<open>n\<close> elements of \<open>e\<close> bytes.\<close>

definition fat_array :: "u32 \<Rightarrow> u32 \<Rightarrow> fat_ptr \<Rightarrow> bool" where
  "fat_array e n arr \<longleftrightarrow>
     fat_base arr \<noteq> NULL \<and> unat (fat_base arr) + unat e * unat n < 4294967296 \<and>
     fat_last_plus_one arr = fat_base arr + e * n"

lemma fat_array_last:
  assumes "fat_array e n arr"
  shows "unat (fat_last_plus_one arr) = unat (fat_base arr) + unat e * unat n"
  using assms by (simp add: fat_array_def unat_add_u32 unat_mult_u32)

lemma check_fat_subscript_eq_Inr:
  "check_fat_subscript arr e i = Inr a \<longleftrightarrow>
     a = fat_curr arr + e * i \<and> fat_base arr \<le> a \<and> a < fat_last_plus_one arr"
  by (auto simp: check_fat_subscript_def Let_def not_le)

lemma check_fat_subscript_fault:
  "check_fat_subscript arr e i = Inl f \<Longrightarrow> f = Throw Array_bounds"
  by (auto simp: check_fat_subscript_def Let_def split: if_splits)

lemma dvd_mod_2p32: "(d :: nat) dvd 4294967296 \<Longrightarrow> d dvd (d * m) mod 4294967296"
  by (simp add: dvd_mod)

lemma check_fat_subscript_offset:
  assumes arr: "fat_array e n arr" and cur: "fat_curr arr = fat_base arr + e * k"
    and chk: "check_fat_subscript arr e i = Inr a"
  shows "unat a = unat (fat_base arr) + unat (e * (k + i))"
    and "unat (e * (k + i)) < unat e * unat n"
proof -
  have a: "a - fat_base arr = e * (k + i)" and ge: "fat_base arr \<le> a" and lt: "a < fat_last_plus_one arr"
    using chk cur by (auto simp: check_fat_subscript_eq_Inr algebra_simps)
  from ge have "unat (a - fat_base arr) = unat a - unat (fat_base arr)"
    by (rule unat_sub_u32)
  with a ge show 1: "unat a = unat (fat_base arr) + unat (e * (k + i))"
    by (simp add: word_le_nat_alt)
  from lt fat_array_last [OF arr] 1 show "unat (e * (k + i)) < unat e * unat n"
    by (simp add: word_less_nat_alt)
qed

lemma check_fat_subscript_element:
  assumes arr: "fat_array e n arr" and cur: "fat_curr arr = fat_base arr + e * k"
    and dvd: "unat e dvd 4294967296" and chk: "check_fat_subscript arr e i = Inr a"
  shows "\<exists>j < unat n. unat a = unat (fat_base arr) + unat e * j"
proof -
  have "unat e dvd unat (e * (k + i))"
    using dvd by (simp add: unat_mult_u32_mod dvd_mod_2p32)
  then obtain j where j: "unat (e * (k + i)) = unat e * j" ..
  with check_fat_subscript_offset [OF arr cur chk]
  have "unat e * j < unat e * unat n" and "unat a = unat (fat_base arr) + unat e * j"
    by simp_all
  then show ?thesis by auto
qed

lemma check_fat_subscript_complete:
  assumes arr: "fat_array e n arr" and cur: "fat_curr arr = fat_base arr + e * k"
    and e: "e \<noteq> 0" and j: "k + i < n"
  shows "check_fat_subscript arr e i = Inr (fat_base arr + e * (k + i))"
proof -
  from j have "unat (k + i) < unat n" by (simp add: word_less_nat_alt)
  with e have lt: "unat e * unat (k + i) < unat e * unat n"
    by (simp add: unat_gt_0)
  have b: "unat (fat_base arr) + unat e * unat n < 4294967296"
    using arr by (simp add: fat_array_def)
  have m: "unat (e * (k + i)) = unat e * unat (k + i)"
    by (rule unat_mult_u32) (use lt b in linarith)
  moreover have "unat (fat_base arr + e * (k + i)) = unat (fat_base arr) + unat (e * (k + i))"
    by (rule unat_add_u32) (use lt b m in linarith)
  ultimately show ?thesis
    using lt fat_array_last [OF arr] cur
    by (simp add: check_fat_subscript_eq_Inr word_le_nat_alt word_less_nat_alt algebra_simps)
qed

lemma check_fat_subscript_null:
  "fat_base arr = 0 \<Longrightarrow> fat_last_plus_one arr = 0 \<Longrightarrow>
     check_fat_subscript arr e i = Inl (Throw Array_bounds)"
  by (simp add: check_fat_subscript_def)

lemma fat_array_tag:
  assumes "p \<noteq> NULL" and "unat p + unat e * unat n < 4294967296"
  shows "fat_array e n (tag_fat p e n)"
  using assms by (simp add: fat_array_def tag_fat_def)

lemma fat_array_plus: "fat_array e n (fat_ptr_plus arr sz c) = fat_array e n arr"
  by (simp add: fat_array_def fat_ptr_plus_def)

lemma get_fat_size_tag:
  assumes "p \<noteq> NULL" and "e \<noteq> 0" and nw: "unat p + unat e * unat n < 4294967296"
  shows "get_fat_size (tag_fat p e n) e = n"
proof -
  have mult: "unat (e * n) = unat e * unat n"
    using nw by (intro unat_mult_u32) simp
  then have last: "unat (p + e * n) = unat p + unat e * unat n"
    using nw by (simp add: unat_add_u32)
  show ?thesis
  proof (cases "n = 0")
    case True
    then show ?thesis by (simp add: get_fat_size_def tag_fat_def)
  next
    case False
    with \<open>e \<noteq> 0\<close> have pos: "0 < unat e * unat n"
      by (simp add: unat_gt_0)
    have "\<not> p + e * n \<le> p"
      unfolding word_le_nat_alt last using pos by linarith
    moreover have "unat ((e * n) div e) = unat n"
      unfolding unat_div mult using \<open>e \<noteq> 0\<close> by (simp add: unat_gt_0)
    then have "(e * n) div e = n"
      by (simp only: word_unat_eq_iff)
    ultimately show ?thesis
      using \<open>p \<noteq> NULL\<close> by (simp add: get_fat_size_def tag_fat_def)
  qed
qed

lemma untag_tag_fat:
  assumes "unat p + unat e * unat n < 4294967296"
  shows "untag_fat_ptr (tag_fat p e n) e n = Inr p"
  by (simp add: untag_fat_ptr_def tag_fat_def)

lemma untag_fat_ptr_sound:
  assumes chk: "untag_fat_ptr arr e n = Inr p" and "p \<noteq> NULL"
    and nw: "unat p + unat e * unat n < 4294967296"
  shows "p = fat_curr arr" and "fat_base arr \<le> p"
    and "unat p + unat e * unat n \<le> unat (fat_last_plus_one arr)"
proof -
  have "unat (p + e * n) = unat p + unat e * unat n"
    using nw by (simp add: unat_add_u32 unat_mult_u32)
  with chk \<open>p \<noteq> NULL\<close> show "p = fat_curr arr" and "fat_base arr \<le> p"
    and "unat p + unat e * unat n \<le> unat (fat_last_plus_one arr)"
    by (auto simp: untag_fat_ptr_def Let_def not_less word_le_nat_alt split: if_splits)
qed

lemma fat_ptr_decrease_size_bounds:
  assumes "fat_base x \<le> fat_last_plus_one x"
  shows "fat_base x \<le> fat_last_plus_one (fat_ptr_decrease_size x sz m)"
    and "fat_last_plus_one (fat_ptr_decrease_size x sz m) \<le> fat_last_plus_one x"
    and "fat_base (fat_ptr_decrease_size x sz m) = fat_base x"
    and "fat_curr (fat_ptr_decrease_size x sz m) = fat_curr x"
proof -
  let ?l = "fat_last_plus_one x" and ?b = "fat_base x" and ?d = "sz * m"
  have sub: "unat (?l - ?b) = unat ?l - unat ?b"
    using assms by (rule unat_sub_u32)
  have "fat_base x \<le> ?l - ?d \<and> ?l - ?d \<le> ?l" if "?d \<le> ?l - ?b"
  proof -
    from that sub assms have le: "unat ?d + unat ?b \<le> unat ?l"
      by (simp add: word_le_nat_alt)
    then have "unat (?l - ?d) = unat ?l - unat ?d"
      by (intro unat_sub_u32) (simp add: word_le_nat_alt)
    with le show ?thesis by (simp add: word_le_nat_alt)
  qed
  with assms show "fat_base x \<le> fat_last_plus_one (fat_ptr_decrease_size x sz m)"
    and "fat_last_plus_one (fat_ptr_decrease_size x sz m) \<le> fat_last_plus_one x"
    by (simp_all add: fat_ptr_decrease_size_def Let_def)
qed (simp_all add: fat_ptr_decrease_size_def Let_def)

lemma unat_ucast_u64: "unat (ucast (x :: u32) :: u64) = unat x"
proof -
  have "unat x < 2 ^ 64" by (rule less_trans [OF unat_lt_2p32]) simp
  then show ?thesis by (simp add: unsigned_ucast_eq take_bit_eq_mod)
qed

lemma check_times_eq_Inr:
  "check_times x y = Inr r \<longleftrightarrow> unat x * unat y \<le> 268435456 \<and> r = x * y"
proof -
  let ?w = "(ucast x :: u64) * ucast y"
  have "unat x * unat y \<le> 4294967295 * 4294967295"
    by (intro mult_le_mono) simp_all
  then have whole: "unat ?w = unat x * unat y"
    by (simp add: unat_word_ariths unat_ucast_u64)
  have low: "(ucast ?w :: u32) = x * y"
    by (simp add: word_unat_eq_iff unsigned_ucast_eq take_bit_eq_mod whole unat_mult_u32_mod)
  have exact: "(ucast (x * y) :: u64) < ?w \<longleftrightarrow> 4294967296 \<le> unat x * unat y"
    by (simp add: word_less_nat_alt whole unat_ucast_u64 unat_mult_u32_mod mod_less_self_iff)
  have big: "MAX_MALLOC_SIZE < x * y \<longleftrightarrow> 268435456 < unat x * unat y mod 4294967296"
    by (simp add: word_less_nat_alt unat_mult_u32_mod MAX_MALLOC_SIZE_def)
  show ?thesis
    unfolding check_times_def Let_def low exact big
    by (cases "unat x * unat y < 4294967296") auto
qed

subsection \<open>What the zero-terminated pointer functions guarantee\<close>

lemma zero_arr_scan_eq_Inr:
  "zero_arr_scan is0 e x t i = Inr u \<longleftrightarrow> (\<forall>j. t \<le> j \<and> j < i \<longrightarrow> \<not> is0 (x + e * j))"
proof (induction is0 e x t i rule: zero_arr_scan.induct)
  case (1 is0 e x t i)
  show ?case
  proof (cases "t < i")
    case True
    have split: "t \<le> j \<longleftrightarrow> j = t \<or> t + 1 \<le> j" for j
      using unat_Suc_u32 [OF True] by (auto simp: word_le_nat_alt word_unat_eq_iff)
    show ?thesis
    proof (cases "is0 (x + e * t)")
      case True
      with \<open>t < i\<close> show ?thesis
        by (auto simp: zero_arr_scan.simps [of is0 e x t i])
    next
      case False
      with \<open>t < i\<close> "1.IH" show ?thesis
        by (auto simp: zero_arr_scan.simps [of is0 e x t i] split)
    qed
  next
    case False
    then show ?thesis
      by (auto simp: zero_arr_scan.simps [of is0 e x t i])
  qed
qed

lemma zero_arr_scan_fault:
  "zero_arr_scan is0 e x t i = Inl f \<Longrightarrow> f = Throw Array_bounds"
  by (induction is0 e x t i rule: zero_arr_scan.induct)
    (subst (asm) (2) zero_arr_scan.simps, auto split: if_splits)

lemma zero_arr_plus_eq_Inr:
  "zero_arr_plus is0 e x sz i = Inr r \<longleftrightarrow>
     x \<noteq> NULL \<and> 0 \<le> sint i \<and> sz \<noteq> 0 \<and>
     (\<forall>j. sz - 1 \<le> j \<and> j < i \<longrightarrow> \<not> is0 (x + e * j)) \<and> r = x + e * i"
  by (auto simp: zero_arr_plus_def res_simps zero_arr_scan_eq_Inr)

lemma zero_arr_walk_Some:
  assumes "is0 (x + e * of_nat m)" and "\<And>j. j < m \<Longrightarrow> \<not> is0 (x + e * of_nat j)"
  shows "zero_arr_walk is0 e x n = Some (n + of_nat m)"
  using assms
proof (induction m arbitrary: x n)
  case 0
  then show ?case by (simp add: zero_arr_walk.simps)
next
  case (Suc m)
  have "\<not> is0 x" using Suc.prems(2) [of 0] by simp
  moreover have "zero_arr_walk is0 e (x + e) (n + 1) = Some (n + 1 + of_nat m)"
  proof (rule Suc.IH)
    show "is0 (x + e + e * of_nat m)"
      using Suc.prems(1) by (simp add: algebra_simps)
    show "\<not> is0 (x + e + e * of_nat j)" if "j < m" for j
      using Suc.prems(2) [of "Suc j"] that by (simp add: algebra_simps)
  qed
  ultimately show ?case
    by (simp add: zero_arr_walk.simps [of is0 e x n] algebra_simps)
qed

lemma get_zero_arr_size_Some:
  assumes "x \<noteq> NULL" and "is0 (x + e * (off - 1) + e * of_nat m)"
    and "\<And>j. j < m \<Longrightarrow> \<not> is0 (x + e * (off - 1) + e * of_nat j)"
  shows "get_zero_arr_size is0 e x off = Some (off + of_nat m)"
  using assms by (simp add: get_zero_arr_size_def zero_arr_walk_Some)

lemma get_zero_arr_size_first:
  assumes "x \<noteq> NULL" and le: "sz - 1 \<le> m"
    and zero: "is0 (x + e * m)" and nonzero: "\<forall>j. sz - 1 \<le> j \<and> j < m \<longrightarrow> \<not> is0 (x + e * j)"
  shows "get_zero_arr_size is0 e x sz = Some (m + 1)"
proof -
  define d where "d = unat (m - (sz - 1))"
  have m: "sz - 1 + of_nat d = m" unfolding d_def by simp
  have in_seg: "sz - 1 \<le> sz - 1 + of_nat j \<and> sz - 1 + of_nat j < m" if j: "j < d" for j
  proof -
    have d: "d = unat m - unat (sz - 1)" "unat (sz - 1) \<le> unat m"
      unfolding d_def using le by (simp_all add: unat_sub word_le_nat_alt)
    have b: "unat m < 4294967296" by simp
    have "j < 4294967296" using j d b by linarith
    then have jj: "unat (of_nat j :: u32) = j" by (simp add: unat_of_nat)
    have "unat (sz - 1 + of_nat j) = unat (sz - 1) + j"
      using j d b jj by (subst unat_add_u32) linarith+
    then show ?thesis using j d by (simp add: word_le_nat_alt word_less_nat_alt)
  qed
  have "get_zero_arr_size is0 e x sz = Some (sz + of_nat d)"
  proof (rule get_zero_arr_size_Some)
    show "x \<noteq> NULL" by (rule assms(1))
    show "is0 (x + e * (sz - 1) + e * of_nat d)"
      using zero unfolding m [symmetric] by (simp only: distrib_left add.assoc)
    show "\<not> is0 (x + e * (sz - 1) + e * of_nat j)" if "j < d" for j
      using nonzero [rule_format, OF in_seg [OF that]] by (simp only: distrib_left add.assoc not_False_eq_True)
  qed
  moreover have "sz + of_nat d = m + 1" unfolding m [symmetric] by simp
  ultimately show ?thesis by simp
qed

subsection \<open>Properties\<close>




text \<open>\<open>_check_fat_subscript\<close> never rejects an index inside the array: from a position \<open>k\<close>
  in an array of \<open>n\<close> elements, every index \<open>i\<close> with \<open>k + i < n\<close> (negative ones, as wrapped words,
  included) gives the address of that element, for every element size.\<close>

theorem fat_subscript_complete:
  assumes "fat_array e n arr" and "fat_curr arr = fat_base arr + e * k"
    and "e \<noteq> 0" and "k + i < n"
  shows "check_fat_subscript arr e i = Inr (fat_base arr + e * (k + i))"
  by (rule check_fat_subscript_complete [OF assms])

theorem fat_subscript_complete_witness:
  "check_fat_subscript (fat_ptr_plus (tag_fat 4096 12 10) 12 7) 12 (- 3) = Inr (4096 + 12 * 4)"
  using fat_subscript_complete [of 12 10 "fat_ptr_plus (tag_fat 4096 12 10) 12 7" 7 "- 3"]
  by (simp add: fat_array_def tag_fat_def fat_ptr_plus_def)

text \<open>\<open>_check_times\<close> is exact: it returns the product when the true product is at most
  \<open>MAX_MALLOC_SIZE\<close>, and then nothing was lost to wrap-around; in every other case it throws
  \<open>Bad_alloc\<close>.\<close>

theorem check_times_exact:
  "check_times x y =
     (if unat x * unat y \<le> unat MAX_MALLOC_SIZE then Inr (of_nat (unat x * unat y)) else Inl (Throw Bad_alloc))
   \<and> (unat x * unat y \<le> unat MAX_MALLOC_SIZE \<longrightarrow> unat (x * y) = unat x * unat y)"
proof -
  have max: "unat MAX_MALLOC_SIZE = 268435456" by (simp add: MAX_MALLOC_SIZE_def)
  have "check_times x y = Inl (Throw Bad_alloc)" if "\<not> unat x * unat y \<le> 268435456"
  proof (cases "check_times x y")
    case (Inl f)
    then show ?thesis by (auto simp: check_times_def Let_def split: if_splits)
  next
    case (Inr r)
    then show ?thesis using that by (simp add: check_times_eq_Inr)
  qed
  moreover have "unat x * unat y \<le> 268435456 \<Longrightarrow> unat (x * y) = unat x * unat y"
    by (rule unat_mult_u32) linarith
  moreover have "(of_nat (unat x * unat y) :: u32) = x * y" by simp
  ultimately show ?thesis unfolding max using check_times_eq_Inr [of x y "x * y"] by metis
qed

theorem check_times_exact_witness:
  "check_times 65536 4096 = Inr 268435456 \<and> check_times 65536 65536 = Inl (Throw Bad_alloc)"
  using check_times_exact [of 65536 4096] check_times_exact [of 65536 65536]
  by (simp add: MAX_MALLOC_SIZE_def)

text \<open>the two functions on zero-terminated pointers agree. If the first zero at or after
  element \<open>sz - 1\<close> is element \<open>m\<close>, \<open>_get_zero_arr_size\<close> returns \<open>m + 1\<close> and
  \<open>_zero_arr_plus\<close> accepts exactly the non-negative offsets below that size.\<close>

theorem zero_arr_plus_size:
  assumes "x \<noteq> NULL" and "sz \<noteq> 0" and "0 \<le> sint i" and "sz - 1 \<le> m"
    and zero: "is0 (x + e * m)" and nonzero: "\<forall>j. sz - 1 \<le> j \<and> j < m \<longrightarrow> \<not> is0 (x + e * j)"
    and "m < 4294967295"
  shows "get_zero_arr_size is0 e x sz = Some (m + 1)
     \<and> zero_arr_plus is0 e x sz i = (if i < m + 1 then Inr (x + e * i) else Inl (Throw Array_bounds))"
proof
  show "get_zero_arr_size is0 e x sz = Some (m + 1)"
    by (rule get_zero_arr_size_first [OF assms(1,4,5,6)])
  have lt: "i < m + 1 \<longleftrightarrow> i \<le> m"
  proof -
    have "unat (m + 1) = unat m + 1" using assms(7) by (subst unat_add_u32) (simp_all add: word_less_nat_alt)
    then show ?thesis by (simp add: word_less_nat_alt word_le_nat_alt less_Suc_eq_le)
  qed
  show "zero_arr_plus is0 e x sz i = (if i < m + 1 then Inr (x + e * i) else Inl (Throw Array_bounds))"
  proof (cases "i \<le> m")
    case True
    then have "\<forall>j. sz - 1 \<le> j \<and> j < i \<longrightarrow> \<not> is0 (x + e * j)" using nonzero by auto
    then have "zero_arr_plus is0 e x sz i = Inr (x + e * i)"
      using assms(1-3) by (simp add: zero_arr_plus_eq_Inr)
    then show ?thesis using True lt by simp
  next
    case False
    then have "zero_arr_scan is0 e x (sz - 1) i \<noteq> Inr u" for u
      using zero assms(4) by (auto simp: zero_arr_scan_eq_Inr not_le)
    then have "zero_arr_scan is0 e x (sz - 1) i = Inl (Throw Array_bounds)"
      using zero_arr_scan_fault by (cases "zero_arr_scan is0 e x (sz - 1) i") auto
    then show ?thesis using False lt assms(1-3) by (simp add: zero_arr_plus_def res_simps)
  qed
qed

theorem zero_arr_plus_size_witness:
  "get_zero_arr_size (\<lambda>a. 4101 \<le> a) 1 4096 3 = Some 6
   \<and> zero_arr_plus (\<lambda>a. 4101 \<le> a) 1 4096 3 6 = Inl (Throw Array_bounds)"
  using zero_arr_plus_size [of 4096 3 6 5 "\<lambda>a. 4101 \<le> a" 1]
  by (simp add: word_less_nat_alt word_le_nat_alt unat_add_u32)

end
