(* ===== verification/Heap_Alloc.thy ===== *)
theory Heap_Alloc
  imports Prelude
begin

section \<open>The heap below the runtime\<close>

text \<open>
  The C heap the runtime allocates from: lib/nogc.c (\<open>GC_malloc\<close>, \<open>GC_malloc_atomic\<close>,
  \<open>GC_free\<close>, the build without Doug Lea's allocator, so each is one call of the C library) and
  the bounded allocation wrappers at the head of lib/runtime_memory.c.

  The C library's choice of an address is not code of the repository: it is the argument
  \<open>alloc\<close> of every definition, a function from the heap and a size to an address, \<open>NULL\<close> when
  there is no memory.  What the C standard promises of it is the named hypothesis \<open>libc_ok\<close>:
  a block that is not null does not wrap, is aligned for every type and overlaps no live block.
\<close>

subsection \<open>Memory\<close>

record heap =
  live :: "(ptr \<times> u32) list"
  bytes :: "ptr \<Rightarrow> u8"

type_synonym libc = "heap \<Rightarrow> u32 \<Rightarrow> ptr"

definition disjoint_blocks :: "ptr \<Rightarrow> u32 \<Rightarrow> ptr \<Rightarrow> u32 \<Rightarrow> bool" where
  "disjoint_blocks p n q m \<longleftrightarrow> unat p + unat n \<le> unat q \<or> unat q + unat m \<le> unat p"

definition libc_ok :: "libc \<Rightarrow> bool" where
  "libc_ok alloc \<longleftrightarrow>
     (\<forall>h n. alloc h n \<noteq> NULL \<longrightarrow>
        no_wrap (alloc h n) n \<and> 8 dvd unat (alloc h n) \<and> alloc h n \<notin> fst ` set (live h) \<and>
        (\<forall>(q, m) \<in> set (live h). disjoint_blocks (alloc h n) n q m))"

text \<open>A 32-bit little-endian cell of memory: an \<open>int\<close>, or a pointer, at an address.\<close>

definition load32 :: "heap \<Rightarrow> ptr \<Rightarrow> u32" where
  "load32 h a = of_nat (unat (bytes h a) + 256 * unat (bytes h (a + 1)) +
     65536 * unat (bytes h (a + 2)) + 16777216 * unat (bytes h (a + 3)))"

definition store32 :: "ptr \<Rightarrow> u32 \<Rightarrow> heap \<Rightarrow> heap" where
  "store32 a v h = h\<lparr>bytes := (bytes h)(a := ucast v, a + 1 := ucast (drop_bit 8 v),
     a + 2 := ucast (drop_bit 16 v), a + 3 := ucast (drop_bit 24 v))\<rparr>"

definition memset0 :: "ptr \<Rightarrow> u32 \<Rightarrow> heap \<Rightarrow> heap" where
  "memset0 p n h = h\<lparr>bytes := (\<lambda>a. if in_range p n a then 0 else bytes h a)\<rparr>"

subsection \<open>The C library calls\<close>

definition libc_malloc :: "libc \<Rightarrow> u32 \<Rightarrow> heap \<Rightarrow> ptr \<times> heap" where
  "libc_malloc alloc n h =
     (let p = alloc h n in if p = NULL then (NULL, h) else (p, h\<lparr>live := (p, n) # live h\<rparr>))"

definition libc_calloc :: "libc \<Rightarrow> u32 \<Rightarrow> heap \<Rightarrow> ptr \<times> heap" where
  "libc_calloc alloc n h =
     (let (p, h') = libc_malloc alloc n h in if p = NULL then (NULL, h') else (p, memset0 p n h'))"

definition libc_free :: "ptr \<Rightarrow> heap \<Rightarrow> heap" where
  "libc_free p h = (if p = NULL then h else h\<lparr>live := filter (\<lambda>b. fst b \<noteq> p) (live h)\<rparr>)"

subsection \<open>lib/nogc.c\<close>

definition GC_malloc :: "libc \<Rightarrow> u32 \<Rightarrow> heap \<Rightarrow> ptr \<times> heap" where
  "GC_malloc alloc x h = libc_calloc alloc x h"

definition GC_malloc_atomic :: "libc \<Rightarrow> u32 \<Rightarrow> heap \<Rightarrow> ptr \<times> heap" where
  "GC_malloc_atomic alloc x h = libc_malloc alloc x h"

definition GC_free :: "ptr \<Rightarrow> heap \<Rightarrow> heap" where
  "GC_free x h = libc_free x h"

subsection \<open>Bounded allocation (runtime_memory.c)\<close>

definition MAX_ALLOC_SIZE :: u32 where
  "MAX_ALLOC_SIZE = 2147483647"

definition GC_calloc :: "libc \<Rightarrow> u32 \<Rightarrow> u32 \<Rightarrow> heap \<Rightarrow> ptr \<times> heap" where
  "GC_calloc alloc n t h = GC_malloc alloc (n * t) h"

definition GC_calloc_atomic :: "libc \<Rightarrow> u32 \<Rightarrow> u32 \<Rightarrow> heap \<Rightarrow> (ptr \<times> heap) res" where
  "GC_calloc_atomic alloc n t h =
     (let p = n * t; (r, h') = GC_malloc_atomic alloc p h
      in if r = NULL then Inl (Throw Bad_alloc) else Inr (r, memset0 r p h'))"

definition bounded_GC_malloc :: "libc \<Rightarrow> u32 \<Rightarrow> heap \<Rightarrow> (ptr \<times> heap) res" where
  "bounded_GC_malloc alloc n h =
     (if MAX_ALLOC_SIZE \<le> n then Inl (Throw Bad_alloc)
      else let (r, h') = GC_malloc alloc n h
           in if r = NULL then Inl (Throw Bad_alloc) else Inr (r, h'))"

definition bounded_GC_malloc_atomic :: "libc \<Rightarrow> u32 \<Rightarrow> heap \<Rightarrow> (ptr \<times> heap) res" where
  "bounded_GC_malloc_atomic alloc n h =
     (if MAX_ALLOC_SIZE \<le> n then Inl (Throw Bad_alloc)
      else let (r, h') = GC_malloc_atomic alloc n h
           in if r = NULL then Inl (Throw Bad_alloc) else Inr (r, h'))"

definition bounded_GC_calloc :: "libc \<Rightarrow> u32 \<Rightarrow> u32 \<Rightarrow> heap \<Rightarrow> (ptr \<times> heap) res" where
  "bounded_GC_calloc alloc n s h =
     (let p = n * s
      in if MAX_ALLOC_SIZE \<le> p then Inl (Throw Bad_alloc)
         else let (r, h') = GC_calloc alloc n s h
              in if r = NULL then Inl (Throw Bad_alloc) else Inr (r, h'))"

text \<open>The atomic form calls \<open>GC_calloc\<close>, not \<open>GC_calloc_atomic\<close>, as the source does.\<close>

definition bounded_GC_calloc_atomic :: "libc \<Rightarrow> u32 \<Rightarrow> u32 \<Rightarrow> heap \<Rightarrow> (ptr \<times> heap) res" where
  "bounded_GC_calloc_atomic alloc n s h =
     (let p = n * s
      in if MAX_ALLOC_SIZE \<le> p then Inl (Throw Bad_alloc)
         else let (r, h') = GC_calloc alloc n s h
              in if r = NULL then Inl (Throw Bad_alloc) else Inr (r, h'))"

subsection \<open>Facts about memory\<close>

lemma load32_unat:
  "unat (load32 h a) = unat (bytes h a) + 256 * unat (bytes h (a + 1)) +
     65536 * unat (bytes h (a + 2)) + 16777216 * unat (bytes h (a + 3))"
proof -
  have b: "unat (w :: u8) < 256" for w
    using unsigned_less [of w, where ?'a = nat] by simp
  have "unat (bytes h a) + 256 * unat (bytes h (a + 1)) + 65536 * unat (bytes h (a + 2)) +
      16777216 * unat (bytes h (a + 3)) < 4294967296"
    using b [of "bytes h a"] b [of "bytes h (a + 1)"] b [of "bytes h (a + 2)"] b [of "bytes h (a + 3)"]
    by linarith
  then show ?thesis
    by (simp only: load32_def unat_of_nat) simp
qed

lemma unat_byte0: "unat (ucast (v :: u32) :: u8) = unat v mod 256"
  by (simp add: unsigned_ucast_eq take_bit_eq_mod)

lemma unat_byte: "unat (ucast (drop_bit k (v :: u32)) :: u8) = unat v div 2 ^ k mod 256"
  by (simp only: unat_byte0 unat_drop_bit_u32)

lemma bytes_decompose:
  assumes "(n :: nat) < 4294967296"
  shows "n mod 256 + 256 * (n div 256 mod 256) + 65536 * (n div 65536 mod 256) +
       16777216 * (n div 16777216 mod 256) = n"
proof -
  have "n div 65536 = n div 256 div 256" and "n div 16777216 = n div 256 div 256 div 256"
    by (simp_all only: div_mult2_eq [symmetric]) simp_all
  moreover have "n div 256 div 256 div 256 < 256"
    using assms by (simp only: div_mult2_eq [symmetric]) (simp add: less_mult_imp_div_less)
  ultimately show ?thesis
    using div_mult_mod_eq [of n 256] div_mult_mod_eq [of "n div 256" 256]
      div_mult_mod_eq [of "n div 256 div 256" 256]
    by (simp only: mod_less)
qed

lemma power_numeral_bytes: "(2 :: nat) ^ 8 = 256" "(2 :: nat) ^ 16 = 65536" "(2 :: nat) ^ 24 = 16777216"
  by simp_all

lemma bytes_store32_cell:
  "bytes (store32 a v h) a = ucast v" "bytes (store32 a v h) (a + 1) = ucast (drop_bit 8 v)"
  "bytes (store32 a v h) (a + 2) = ucast (drop_bit 16 v)"
  "bytes (store32 a v h) (a + 3) = ucast (drop_bit 24 v)"
  by (simp_all add: store32_def)

lemma load32_store32 [simp]: "load32 (store32 a v h) a = v"
proof -
  have "unat (load32 (store32 a v h) a) = unat v"
    unfolding load32_unat bytes_store32_cell unat_byte0 unat_drop_bit_u32
    using bytes_decompose [OF unat_lt_2p32, of v] by (simp only: power_numeral_bytes)
  then show ?thesis by (simp only: word_unat_eq_iff)
qed

text \<open>Two 32-bit cells that share no byte.\<close>

definition cells_disjoint :: "ptr \<Rightarrow> ptr \<Rightarrow> bool" where
  "cells_disjoint a b \<longleftrightarrow> (\<forall>i \<in> {0, 1, 2, 3}. \<forall>j \<in> {0, 1, 2, 3}. a + i \<noteq> b + j)"

lemma bytes_store32: "(\<forall>i \<in> {0, 1, 2, 3}. c \<noteq> a + i) \<Longrightarrow> bytes (store32 a v h) c = bytes h c"
  by (simp add: store32_def)

lemma load32_store32_other: "cells_disjoint a b \<Longrightarrow> load32 (store32 a v h) b = load32 h b"
proof -
  assume dis: "cells_disjoint a b"
  have "bytes (store32 a v h) (b + j) = bytes h (b + j)" if "j \<in> {0, 1, 2, 3}" for j
  proof (rule bytes_store32, rule ballI)
    fix i :: u32 assume "i \<in> {0, 1, 2, 3}"
    with dis that show "b + j \<noteq> a + i" unfolding cells_disjoint_def by metis
  qed
  from this [of 0] this [of 1] this [of 2] this [of 3] show ?thesis
    by (simp add: load32_def)
qed

lemma live_store32 [simp]: "live (store32 a v h) = live h"
  by (simp add: store32_def)

lemma live_memset0 [simp]: "live (memset0 p n h) = live h"
  by (simp add: memset0_def)

lemma bytes_memset0: "bytes (memset0 p n h) a = (if in_range p n a then 0 else bytes h a)"
  by (simp add: memset0_def)

subsection \<open>Facts about allocation\<close>

text \<open>The heap holds live blocks that do not wrap, do not overlap and have distinct addresses.\<close>

definition heap_wf :: "heap \<Rightarrow> bool" where
  "heap_wf h \<longleftrightarrow>
     distinct (map fst (live h)) \<and> (\<forall>(p, n) \<in> set (live h). p \<noteq> NULL \<and> no_wrap p n) \<and>
     pairwise (\<lambda>(p, n) (q, m). disjoint_blocks p n q m) (set (live h))"

lemma disjoint_blocks_sym: "disjoint_blocks p n q m \<longleftrightarrow> disjoint_blocks q m p n"
  by (auto simp: disjoint_blocks_def)

lemma libc_malloc_cases:
  obtains "libc_malloc alloc n h = (NULL, h)" "alloc h n = NULL"
  | "alloc h n \<noteq> NULL"
    "libc_malloc alloc n h = (alloc h n, h\<lparr>live := (alloc h n, n) # live h\<rparr>)"
  by (cases "alloc h n = NULL") (simp_all add: libc_malloc_def Let_def)

lemma libc_okD:
  assumes "libc_ok alloc" and "alloc h n \<noteq> NULL"
  shows "no_wrap (alloc h n) n" and "8 dvd unat (alloc h n)" and "alloc h n \<notin> fst ` set (live h)"
    and "(q, m) \<in> set (live h) \<Longrightarrow> disjoint_blocks (alloc h n) n q m"
proof -
  have all: "no_wrap (alloc h n) n \<and> 8 dvd unat (alloc h n) \<and> alloc h n \<notin> fst ` set (live h) \<and>
      (\<forall>(q, m) \<in> set (live h). disjoint_blocks (alloc h n) n q m)"
    using assms unfolding libc_ok_def by blast
  then show "no_wrap (alloc h n) n" and "8 dvd unat (alloc h n)" and "alloc h n \<notin> fst ` set (live h)"
    by blast+
  from all show "disjoint_blocks (alloc h n) n q m" if "(q, m) \<in> set (live h)"
    using that by blast
qed

lemma heap_wf_cons:
  assumes "heap_wf h" and "libc_ok alloc" and "alloc h n \<noteq> NULL"
  shows "heap_wf (h\<lparr>live := (alloc h n, n) # live h\<rparr>)"
  using assms libc_okD [OF assms(2,3)]
  by (auto simp: heap_wf_def pairwise_insert disjoint_blocks_sym)

lemma heap_wf_cong: "live h = live h' \<Longrightarrow> heap_wf h = heap_wf h'"
  by (simp add: heap_wf_def)

lemma heap_wf_store32 [simp]: "heap_wf (store32 a v h) = heap_wf h"
  by (rule heap_wf_cong) simp

lemma heap_wf_memset0 [simp]: "heap_wf (memset0 p n h) = heap_wf h"
  by (rule heap_wf_cong) simp

lemma heap_wf_free: "heap_wf h \<Longrightarrow> heap_wf (libc_free p h)"
  by (auto simp: heap_wf_def libc_free_def distinct_map_filter pairwise_def)

text \<open>What a successful bounded allocation gives: a fresh, zero-filled, aligned block.\<close>

lemma bounded_GC_calloc_Inr:
  assumes "bounded_GC_calloc alloc n s h = Inr (p, h')"
  shows "n * s < MAX_ALLOC_SIZE" and "p = alloc h (n * s)" and "p \<noteq> NULL"
    and "h' = memset0 p (n * s) (h\<lparr>live := (p, n * s) # live h\<rparr>)"
  using assms
  by (auto simp: bounded_GC_calloc_def GC_calloc_def GC_malloc_def libc_calloc_def libc_malloc_def
      Let_def not_le split: if_splits)

lemma bounded_GC_malloc_Inr:
  assumes "bounded_GC_malloc alloc n h = Inr (p, h')"
  shows "n < MAX_ALLOC_SIZE" and "p = alloc h n" and "p \<noteq> NULL"
    and "h' = memset0 p n (h\<lparr>live := (p, n) # live h\<rparr>)"
  using assms
  by (auto simp: bounded_GC_malloc_def GC_malloc_def libc_calloc_def libc_malloc_def
      Let_def not_le split: if_splits)

lemma bounded_GC_calloc_fault: "bounded_GC_calloc alloc n s h = Inl f \<Longrightarrow> f = Throw Bad_alloc"
  by (auto simp: bounded_GC_calloc_def Let_def split: if_splits prod.splits)

lemma bounded_GC_malloc_fault: "bounded_GC_malloc alloc n h = Inl f \<Longrightarrow> f = Throw Bad_alloc"
  by (auto simp: bounded_GC_malloc_def Let_def split: if_splits prod.splits)

lemma bounded_GC_calloc_wf:
  assumes "bounded_GC_calloc alloc n s h = Inr (p, h')" and "libc_ok alloc" and "heap_wf h"
  shows "heap_wf h'" and "no_wrap p (n * s)" and "8 dvd unat p" and "p \<notin> fst ` set (live h)"
  using bounded_GC_calloc_Inr [OF assms(1)] assms(2,3) libc_okD [OF assms(2), of h "n * s"]
  by (auto simp: heap_wf_cons)

lemma MAX_ALLOC_SIZE_unat: "n < MAX_ALLOC_SIZE \<longleftrightarrow> unat n < 2147483647"
  by (simp add: MAX_ALLOC_SIZE_def word_less_nat_alt)

text \<open>
  A concrete allocator that meets \<open>libc_ok\<close>: it serves one block of at most a mebibyte, at a
  fixed address, and fails while any block is live.
\<close>

definition single_block_libc :: libc where
  "single_block_libc h n = (if live h = [] \<and> n \<le> 1048576 then 4096 else NULL)"

lemma libc_ok_single_block: "libc_ok single_block_libc"
proof -
  have "no_wrap 4096 n" if "n \<le> 1048576" for n :: u32
    using that by (simp add: no_wrap_def word_le_nat_alt)
  then show ?thesis unfolding libc_ok_def single_block_libc_def by simp
qed

end
