(* ===== verification/Region_Pages.thy ===== *)
theory Region_Pages
  imports Heap_Alloc
begin

section \<open>Region pages\<close>

text \<open>
  The page level of a lexical or dynamic region: lib/runtime_memory.c from
  \<open>Cyc_set_default_region_page_size\<close> to \<open>_free_region\<close>, in the build without
  \<open>CYC_REGION_PROFILE\<close> and with alignment.  A region handle (struct \<open>_RegionHandle\<close> of
  cyc_include.h) points at its current page; each page starts with the pointer to the page before
  it, which is a cell of the heap here as in the code, so the list of pages is a chain in memory.

  What the lemmas show: the well-formedness invariant \<open>region_wf\<close> is kept by every operation; an
  allocation returns an aligned block inside the current page, after every block handed out before
  (\<open>region_bump_spec\<close>); the memory it returns is zero (\<open>region_bump_zero\<close>); freeing a region
  ends and releases exactly its pages (\<open>free_pages_Some\<close>).
\<close>

subsection \<open>struct _RegionHandle and struct _RegionPage\<close>

record region_handle =
  is_xrgn :: u32
  curr :: ptr
  offset :: ptr
  last_plus_one :: ptr
  used_bytes :: u32
  wasted_bytes :: u32

text \<open>\<open>struct _RegionPage { next; char data[1]; }\<close> is 8 bytes with padding; \<open>next\<close> is at offset 0.\<close>

definition sizeof_RegionPage :: u32 where
  "sizeof_RegionPage = 8"

definition page_next :: "heap \<Rightarrow> ptr \<Rightarrow> ptr" where
  "page_next h p = load32 h p"

definition set_page_next :: "ptr \<Rightarrow> ptr \<Rightarrow> heap \<Rightarrow> heap" where
  "set_page_next p n h = store32 p n h"

subsection \<open>The default page size\<close>

definition CYC_MIN_REGION_PAGE_SIZE :: u32 where
  "CYC_MIN_REGION_PAGE_SIZE = 480"

definition Cyc_set_default_region_page_size :: "u32 \<Rightarrow> u32 \<Rightarrow> bool \<times> u32" where
  "Cyc_set_default_region_page_size s default_region_page_size =
     (if s < CYC_MIN_REGION_PAGE_SIZE then (False, default_region_page_size) else (True, s))"

subsection \<open>Operations on one region\<close>

definition grow_region :: "libc \<Rightarrow> u32 \<Rightarrow> region_handle \<Rightarrow> u32 \<Rightarrow> heap \<Rightarrow> (region_handle \<times> heap) res" where
  "grow_region alloc default_region_page_size r s h =
     (let prev_size = last_plus_one r - (curr r + sizeof_RegionPage);
          next_size = prev_size * 2;
          next_size = (if next_size < s then s + default_region_page_size else next_size)
      in bind_res (bounded_GC_calloc alloc (sizeof_RegionPage + next_size) 1 h)
           (\<lambda>(p, h).
              if p = NULL then Inl (Throw Bad_alloc)
              else let h = set_page_next p (curr r) h;
                       r = r\<lparr>used_bytes := used_bytes r + next_size,
                             wasted_bytes := wasted_bytes r + (last_plus_one r - offset r)\<rparr>;
                       r = r\<lparr>curr := p\<rparr>;
                       r = r\<lparr>offset := p + sizeof_RegionPage\<rparr>;
                       r = r\<lparr>last_plus_one := offset r + next_size\<rparr>
                   in Inr (r, h)))"

definition get_first_region_page ::
    "libc \<Rightarrow> u32 \<Rightarrow> region_handle \<Rightarrow> u32 \<Rightarrow> heap \<Rightarrow> (region_handle \<times> heap) res" where
  "get_first_region_page alloc default_region_page_size r s h =
     (let page_size = (if default_region_page_size < s then s else default_region_page_size)
      in bind_res (bounded_GC_calloc alloc (sizeof_RegionPage + page_size) 1 h)
           (\<lambda>(p, h).
              if p = NULL then Inl (Throw Bad_alloc)
              else let h = set_page_next p NULL h;
                       r = r\<lparr>curr := p\<rparr>;
                       r = r\<lparr>offset := p + sizeof_RegionPage\<rparr>;
                       r = r\<lparr>last_plus_one := offset r + page_size\<rparr>;
                       r = r\<lparr>used_bytes := page_size, wasted_bytes := 0\<rparr>
                   in Inr (r, h)))"

text \<open>
  The part of \<open>_region_malloc\<close> and \<open>_region_calloc\<close> that serves a lexical region: round the
  size up, fetch or grow a page when there is no room, bump the offset.
\<close>

definition region_bump ::
    "libc \<Rightarrow> u32 \<Rightarrow> region_handle \<Rightarrow> u32 \<Rightarrow> heap \<Rightarrow> (ptr \<times> region_handle \<times> heap) res" where
  "region_bump alloc default_region_page_size r s h =
     (let s = round_up s
      in bind_res
           (if curr r = NULL then get_first_region_page alloc default_region_page_size r s h
            else if last_plus_one r - offset r < s then grow_region alloc default_region_page_size r s h
            else Inr (r, h))
           (\<lambda>(r, h). let result = offset r in Inr (result, r\<lparr>offset := result + s\<rparr>, h)))"

definition new_region :: region_handle where
  "new_region = \<lparr>is_xrgn = 0, curr = NULL, offset = 0, last_plus_one = 0,
     used_bytes = 0, wasted_bytes = 0\<rparr>"

partial_function (option) free_pages :: "ptr \<Rightarrow> heap \<Rightarrow> heap option" where
  "free_pages p h =
     (if p = NULL then Some h
      else let n = page_next h p in free_pages n (GC_free p h))"

definition free_region :: "region_handle \<Rightarrow> heap \<Rightarrow> (region_handle \<times> heap) res option" where
  "free_region r h =
     (if is_xrgn r \<noteq> 0
      then Some (Inl (Errquit ''internal error: _free_region: attempting to free a xrgn''))
      else map_option (\<lambda>h. Inr (r\<lparr>curr := NULL, offset := 0, last_plus_one := 0\<rparr>, h))
             (free_pages (curr r) h))"

text \<open>The byte counts of a lexical region (\<open>region_get_*\<close>, the branch for a real handle).\<close>

definition rgn_heap_size :: "region_handle \<Rightarrow> u32" where
  "rgn_heap_size r = (if is_xrgn r \<noteq> 0 then 0 else used_bytes r)"

definition rgn_free_bytes :: "region_handle \<Rightarrow> u32" where
  "rgn_free_bytes r = (if is_xrgn r \<noteq> 0 then 0 else last_plus_one r - offset r)"

definition rgn_total_bytes :: "region_handle \<Rightarrow> u32" where
  "rgn_total_bytes r =
     (if is_xrgn r \<noteq> 0 then 0
      else let free_bytes = last_plus_one r - offset r
           in used_bytes r - wasted_bytes r - free_bytes)"

subsection \<open>The chain of pages in memory\<close>

fun page_chain :: "heap \<Rightarrow> ptr \<Rightarrow> ptr list \<Rightarrow> bool" where
  "page_chain h p [] \<longleftrightarrow> p = NULL"
| "page_chain h p (q # qs) \<longleftrightarrow> p = q \<and> q \<noteq> NULL \<and> page_chain h (page_next h q) qs"

definition same_bytes :: "heap \<Rightarrow> heap \<Rightarrow> ptr \<Rightarrow> u32 \<Rightarrow> bool" where
  "same_bytes h h' b m \<longleftrightarrow> (\<forall>a. in_range b m a \<longrightarrow> bytes h' a = bytes h a)"

definition owns_page :: "heap \<Rightarrow> ptr \<Rightarrow> bool" where
  "owns_page h p \<longleftrightarrow> (\<exists>n. (p, n) \<in> set (live h) \<and> 8 \<le> unat n)"

lemma page_chain_NULL [simp]: "page_chain h NULL ps \<longleftrightarrow> ps = []"
  by (cases ps) auto

lemma in_range_header:
  assumes "no_wrap p n" and "8 \<le> unat n" and "i \<in> {0, 1, 2, 3}"
  shows "in_range p n (p + i)"
proof -
  have "unat i \<le> 3" using assms(3) by auto
  with assms(1,2) show ?thesis
    by (simp add: in_range_def word_less_nat_alt)
qed

lemma load32_cong:
  "(\<And>i. i \<in> {0, 1, 2, 3} \<Longrightarrow> bytes h' (a + i) = bytes h (a + i)) \<Longrightarrow> load32 h' a = load32 h a"
  by (simp add: load32_def) (metis add.right_neutral)

lemma page_next_same_bytes:
  assumes "same_bytes h h' p n" and "no_wrap p n" and "8 \<le> unat n"
  shows "page_next h' p = page_next h p"
  unfolding page_next_def
proof (rule load32_cong)
  fix i :: u32 assume "i \<in> {0, 1, 2, 3}"
  with assms(2,3) have "in_range p n (p + i)" by (rule in_range_header)
  with assms(1) show "bytes h' (p + i) = bytes h (p + i)" by (simp add: same_bytes_def)
qed

lemma page_chain_same_bytes:
  assumes "heap_wf h" and "\<And>q m. (q, m) \<in> set (live h) \<Longrightarrow> same_bytes h h' q m"
    and "\<forall>q \<in> set ps. owns_page h q"
  shows "page_chain h' p ps = page_chain h p ps"
  using assms(3)
proof (induction ps arbitrary: p)
  case Nil
  then show ?case by simp
next
  case (Cons q qs)
  then obtain n where n: "(q, n) \<in> set (live h)" and "8 \<le> unat n"
    by (auto simp: owns_page_def)
  from n assms(1) have "no_wrap q n" by (auto simp: heap_wf_def)
  with n \<open>8 \<le> unat n\<close> assms(2) have "page_next h' q = page_next h q"
    by (intro page_next_same_bytes)
  with Cons show ?case by simp
qed

lemma disjoint_not_in_range:
  assumes "disjoint_blocks p n q m" and "no_wrap p n" and "no_wrap q m" and "in_range q m a"
  shows "\<not> in_range p n a"
  using assms by (auto simp: disjoint_blocks_def in_range_unat)

subsection \<open>Fetching a page\<close>

text \<open>The facts shared by \<open>grow_region\<close> and \<open>get_first_region_page\<close>: one new page, linked to \<open>q\<close>.\<close>

lemma new_page:
  assumes alloc: "bounded_GC_calloc alloc (sizeof_RegionPage + n) 1 h = Inr (p, h1)"
    and n: "unat n \<le> 4294967287" and "libc_ok alloc" and wf: "heap_wf h"
  shows "heap_wf (set_page_next p q h1)"
    and "live (set_page_next p q h1) = (p, sizeof_RegionPage + n) # live h"
    and "p \<noteq> NULL" and "unat p + 8 + unat n < 4294967296" and "8 dvd unat p"
    and "unat n < 2147483639" and "p \<notin> fst ` set (live h)"
    and "page_next (set_page_next p q h1) p = q"
    and "(b, m) \<in> set (live h) \<Longrightarrow> same_bytes h (set_page_next p q h1) b m"
    and "unat p + 8 \<le> unat a \<Longrightarrow> unat a < unat p + 8 + unat n \<Longrightarrow> bytes (set_page_next p q h1) a = 0"
proof -
  let ?sz = "sizeof_RegionPage + n"
  note A = bounded_GC_calloc_Inr [OF alloc, simplified]
  note W = bounded_GC_calloc_wf [OF alloc \<open>libc_ok alloc\<close> wf, simplified]
  have sz: "unat ?sz = 8 + unat n"
    using n by (simp add: sizeof_RegionPage_def unat_add_u32)
  show "heap_wf (set_page_next p q h1)" "p \<noteq> NULL" "8 dvd unat p" "p \<notin> fst ` set (live h)"
    using A W by (simp_all add: set_page_next_def)
  show live: "live (set_page_next p q h1) = (p, ?sz) # live h"
    using A by (simp add: set_page_next_def)
  show nw: "unat p + 8 + unat n < 4294967296"
    using W sz by (simp add: no_wrap_def)
  show "unat n < 2147483639"
    using A(1) sz by (simp add: MAX_ALLOC_SIZE_unat)
  show "page_next (set_page_next p q h1) p = q"
    by (simp add: page_next_def set_page_next_def)
  have hdr: "in_range p ?sz (p + i)" if "i \<in> {0, 1, 2, 3}" for i
    using that W sz by (intro in_range_header) simp_all
  have out: "bytes (set_page_next p q h1) c = bytes h c" if "\<not> in_range p ?sz c" for c
  proof -
    have "c \<noteq> p + i" if "i \<in> {0, 1, 2, 3}" for i
      using hdr [OF that] \<open>\<not> in_range p ?sz c\<close> by auto
    then have "bytes (set_page_next p q h1) c = bytes h1 c"
      unfolding set_page_next_def by (intro bytes_store32) blast
    with that A show ?thesis by (simp add: bytes_memset0)
  qed
  show "same_bytes h (set_page_next p q h1) b m" if "(b, m) \<in> set (live h)"
    unfolding same_bytes_def
  proof (intro allI impI out)
    fix c assume "in_range b m c"
    moreover have "no_wrap b m" using wf that by (auto simp: heap_wf_def)
    moreover have "disjoint_blocks p ?sz b m"
      using libc_okD(4) [OF \<open>libc_ok alloc\<close>, of h ?sz b m] A that by simp
    ultimately show "\<not> in_range p ?sz c"
      using W by (auto dest: disjoint_not_in_range)
  qed
  show "bytes (set_page_next p q h1) a = 0"
    if lo: "unat p + 8 \<le> unat a" and hi: "unat a < unat p + 8 + unat n"
  proof -
    have "unat (p + i) \<le> unat p + 3" if "i \<in> {0, 1, 2, 3}" for i
      using that nw by (auto simp: unat_add_u32)
    with lo have "a \<noteq> p + i" if "i \<in> {0, 1, 2, 3}" for i
      using that by fastforce
    then have "bytes (set_page_next p q h1) a = bytes h1 a"
      unfolding set_page_next_def by (intro bytes_store32) blast
    moreover have "in_range p ?sz a"
      using lo hi W sz by (simp add: in_range_unat)
    ultimately show ?thesis using A by (simp add: bytes_memset0)
  qed
qed

subsection \<open>The region invariant\<close>

text \<open>
  \<open>region_wf h r ps\<close>: the pages of \<open>r\<close>, newest first, are \<open>ps\<close>, each a live block of the heap,
  and the bump interval \<open>[offset, last_plus_one)\<close> lies in the newest one.
\<close>

definition bump_in_page :: "heap \<Rightarrow> region_handle \<Rightarrow> bool" where
  "bump_in_page h r \<longleftrightarrow>
     (\<exists>n. (curr r, n) \<in> set (live h) \<and> 8 \<le> unat n \<and> unat n < 2147483647 \<and>
        unat (last_plus_one r) = unat (curr r) + unat n \<and> unat (curr r) + 8 \<le> unat (offset r) \<and>
        offset r \<le> last_plus_one r \<and> 8 dvd unat (offset r))"

definition region_wf :: "heap \<Rightarrow> region_handle \<Rightarrow> ptr list \<Rightarrow> bool" where
  "region_wf h r ps \<longleftrightarrow>
     is_xrgn r = 0 \<and> page_chain h (curr r) ps \<and> distinct ps \<and> (\<forall>p \<in> set ps. owns_page h p) \<and>
     (if curr r = NULL then offset r = 0 \<and> last_plus_one r = 0 else bump_in_page h r)"

lemma region_wf_new [wf_intros]: "region_wf h new_region []"
  by (simp add: region_wf_def new_region_def)

lemma region_wf_fetch:
  assumes wf: "region_wf h r ps" and "heap_wf h" and "libc_ok alloc"
    and alloc: "bounded_GC_calloc alloc (sizeof_RegionPage + n) 1 h = Inr (p, h1)"
    and n: "unat n \<le> 4294967287"
    and r1: "is_xrgn r1 = is_xrgn r" "curr r1 = p" "offset r1 = p + sizeof_RegionPage"
      "last_plus_one r1 = p + sizeof_RegionPage + n"
  shows "region_wf (set_page_next p (curr r) h1) r1 (p # ps)"
proof -
  let ?h = "set_page_next p (curr r) h1"
  note P = new_page [OF alloc n \<open>libc_ok alloc\<close> \<open>heap_wf h\<close>]
  have off: "unat (p + sizeof_RegionPage) = unat p + 8"
    using P(4) by (simp add: sizeof_RegionPage_def unat_add_u32)
  then have last: "unat (p + sizeof_RegionPage + n) = unat p + 8 + unat n"
    using P(4) by (simp add: unat_add_u32)
  have sz: "unat (sizeof_RegionPage + n) = 8 + unat n"
    using n by (simp add: sizeof_RegionPage_def unat_add_u32)
  have own: "\<forall>q \<in> set ps. owns_page h q" and "page_chain h (curr r) ps" and "distinct ps"
    and "is_xrgn r = 0"
    using wf by (simp_all add: region_wf_def)
  moreover from this have "page_chain ?h (curr r) ps"
    by (subst page_chain_same_bytes [OF \<open>heap_wf h\<close> P(9)])
  moreover have "p \<notin> set ps"
    using own P(7) by (force simp: owns_page_def)
  moreover have "owns_page ?h p" and "\<forall>q \<in> set ps. owns_page ?h q"
    using own sz by (auto simp: owns_page_def P(2))
  moreover have "bump_in_page ?h r1"
    unfolding bump_in_page_def using P(3-6) off last sz
    by (intro exI [of _ "sizeof_RegionPage + n"]) (simp add: r1 P(2) word_le_nat_alt)
  ultimately show ?thesis
    using P(3,8) by (simp add: region_wf_def r1)
qed

text \<open>The sizes for which no size computation of the page code wraps.\<close>

definition sane_sizes :: "u32 \<Rightarrow> u32 \<Rightarrow> bool" where
  "sane_sizes default_page_size s \<longleftrightarrow> unat default_page_size \<le> 1073741824 \<and> unat s \<le> 2147483648"

lemma sane_sizes_round_up:
  assumes "sane_sizes d s"
  shows "unat (round_up s) \<le> 2147483648" and "unat s \<le> unat (round_up s)"
    and "8 dvd unat (round_up s)"
proof -
  have s: "unat s \<le> 2147483648" using assms by (simp add: sane_sizes_def)
  then have r: "unat (round_up s) = 8 * ((unat s + 7) div 8)"
    by (intro unat_round_up) simp
  from s have "(unat s + 7) div 8 \<le> 268435456" by simp
  with r show "unat (round_up s) \<le> 2147483648" by simp
  show "unat s \<le> unat (round_up s)" and "8 dvd unat (round_up s)"
    using s by (auto intro: round_up_bounds)
qed

text \<open>A page was fetched, or there was room: in both cases \<open>r1\<close> has room for \<open>s\<close> more bytes.\<close>

definition page_step :: "heap \<Rightarrow> region_handle \<Rightarrow> ptr list \<Rightarrow> u32 \<Rightarrow> region_handle \<Rightarrow> heap \<Rightarrow> ptr list \<Rightarrow> bool" where
  "page_step h r ps s r1 h1 ps1 \<longleftrightarrow>
     heap_wf h1 \<and> region_wf h1 r1 ps1 \<and> curr r1 \<noteq> NULL \<and>
     s \<le> last_plus_one r1 - offset r1 \<and> set (live h) \<subseteq> set (live h1) \<and>
     (\<forall>(b, m) \<in> set (live h). same_bytes h h1 b m) \<and>
     (r1 = r \<and> h1 = h \<and> ps1 = ps \<or>
      ps1 = curr r1 # ps \<and> curr r1 \<notin> fst ` set (live h) \<and> offset r1 = curr r1 + 8 \<and>
      (\<forall>a. unat (offset r1) \<le> unat a \<and> unat a < unat (last_plus_one r1) \<longrightarrow> bytes h1 a = 0))"

lemma page_step_fetch:
  assumes wf: "region_wf h r ps" and "heap_wf h" and "libc_ok alloc"
    and alloc: "bounded_GC_calloc alloc (sizeof_RegionPage + n) 1 h = Inr (p, h1)"
    and n: "unat n \<le> 4294967287" and s: "s \<le> n"
    and r1: "is_xrgn r1 = is_xrgn r" "curr r1 = p" "offset r1 = p + sizeof_RegionPage"
      "last_plus_one r1 = p + sizeof_RegionPage + n"
  shows "page_step h r ps s r1 (set_page_next p (curr r) h1) (p # ps)"
proof -
  note P = new_page [OF alloc n \<open>libc_ok alloc\<close> \<open>heap_wf h\<close>]
  have off: "unat (p + sizeof_RegionPage) = unat p + 8"
    using P(4) by (simp add: sizeof_RegionPage_def unat_add_u32)
  then have last: "unat (p + sizeof_RegionPage + n) = unat p + 8 + unat n"
    using P(4) by (simp add: unat_add_u32)
  have "region_wf (set_page_next p (curr r) h1) r1 (p # ps)"
    by (rule region_wf_fetch [OF wf \<open>heap_wf h\<close> \<open>libc_ok alloc\<close> alloc n r1])
  moreover have "\<forall>(b, m) \<in> set (live h). same_bytes h (set_page_next p (curr r) h1) b m"
    using P(9) by blast
  ultimately show ?thesis
    unfolding page_step_def using P(1,3,7,10) s off last
    by (simp add: r1 P(2) sizeof_RegionPage_def) (auto simp: P(2))
qed

lemma first_page_step:
  assumes wf: "region_wf h r ps" and "heap_wf h" and "libc_ok alloc" and "curr r = NULL"
    and "unat d \<le> 1073741824" and "unat s \<le> 2147483648"
    and get: "get_first_region_page alloc d r s h = Inr (r1, h1)"
  shows "page_step h r ps s r1 h1 (curr r1 # ps)"
proof -
  let ?n = "if d < s then s else d"
  obtain p h0 where alloc: "bounded_GC_calloc alloc (sizeof_RegionPage + ?n) 1 h = Inr (p, h0)"
    and h1: "h1 = set_page_next p NULL h0"
    and r1: "r1 = r\<lparr>curr := p, offset := p + sizeof_RegionPage,
      last_plus_one := p + sizeof_RegionPage + ?n, used_bytes := ?n, wasted_bytes := 0\<rparr>"
    using get by (auto simp: get_first_region_page_def Let_def res_simps split: if_splits)
  have n: "unat ?n \<le> 2147483648" using assms(5,6) by simp
  have "page_step h r ps s r1 (set_page_next p (curr r) h0) (p # ps)"
    by (rule page_step_fetch [OF wf \<open>heap_wf h\<close> \<open>libc_ok alloc\<close> alloc])
      (use n in \<open>auto simp: r1\<close>)
  then show ?thesis using \<open>curr r = NULL\<close> by (simp add: h1 r1)
qed

lemma grow_size:
  assumes "bump_in_page h r" and "heap_wf h" and "unat d \<le> 1073741824" and "unat s \<le> 2147483648"
    and n: "n = (let next_size = (last_plus_one r - (curr r + sizeof_RegionPage)) * 2
                 in if next_size < s then s + d else next_size)"
  shows "unat n \<le> 4294967287" and "s \<le> n"
proof -
  from assms(1) obtain m :: u32 where m: "unat m < 2147483647" "8 \<le> unat m"
    and last: "unat (last_plus_one r) = unat (curr r) + unat m"
    by (auto simp: bump_in_page_def)
  have c8: "unat (curr r + sizeof_RegionPage) = unat (curr r) + 8"
    using last m unat_lt_2p32 [of "last_plus_one r"]
    by (simp add: sizeof_RegionPage_def unat_add_u32)
  then have "unat (last_plus_one r - (curr r + sizeof_RegionPage)) = unat m - 8"
    using last m by (simp add: unat_sub_u32 word_le_nat_alt)
  then have "unat ((last_plus_one r - (curr r + sizeof_RegionPage)) * 2) = (unat m - 8) * 2"
    using m by (subst unat_mult_u32) simp_all
  moreover have "unat (s + d) = unat s + unat d"
    using assms(3,4) by (simp add: unat_add_u32)
  ultimately show "unat n \<le> 4294967287" and "s \<le> n"
    using assms(3,4) m by (auto simp: n Let_def word_le_nat_alt not_less)
qed

lemma grow_page_step:
  assumes wf: "region_wf h r ps" and "heap_wf h" and "libc_ok alloc" and "curr r \<noteq> NULL"
    and "unat d \<le> 1073741824" and "unat s \<le> 2147483648"
    and get: "grow_region alloc d r s h = Inr (r1, h1)"
  shows "page_step h r ps s r1 h1 (curr r1 # ps)"
proof -
  let ?n = "let next_size = (last_plus_one r - (curr r + sizeof_RegionPage)) * 2
            in if next_size < s then s + d else next_size"
  obtain p h0 where alloc: "bounded_GC_calloc alloc (sizeof_RegionPage + ?n) 1 h = Inr (p, h0)"
    and h1: "h1 = set_page_next p (curr r) h0"
    and r1: "r1 = r\<lparr>used_bytes := used_bytes r + ?n,
      wasted_bytes := wasted_bytes r + (last_plus_one r - offset r), curr := p,
      offset := p + sizeof_RegionPage, last_plus_one := p + sizeof_RegionPage + ?n\<rparr>"
    using get unfolding grow_region_def Let_def by (auto simp: res_simps split: if_splits)
  have "bump_in_page h r" using wf \<open>curr r \<noteq> NULL\<close> by (simp add: region_wf_def)
  note size = grow_size [OF this \<open>heap_wf h\<close> assms(5,6) refl]
  have "page_step h r ps s r1 (set_page_next p (curr r) h0) (p # ps)"
    by (rule page_step_fetch [OF wf \<open>heap_wf h\<close> \<open>libc_ok alloc\<close> alloc size]) (simp_all add: r1)
  then show ?thesis by (simp add: h1 r1)
qed

lemma region_bump_step:
  assumes wf: "region_wf h r ps" and hwf: "heap_wf h" and ok: "libc_ok alloc" and sane: "sane_sizes d s"
    and bump: "region_bump alloc d r s h = Inr (res, r', h')"
  shows "\<exists>r1 ps1. page_step h r ps (round_up s) r1 h' ps1 \<and> res = offset r1 \<and>
           r' = r1\<lparr>offset := offset r1 + round_up s\<rparr>"
proof -
  have d: "unat d \<le> 1073741824" using sane by (simp add: sane_sizes_def)
  note rs = sane_sizes_round_up(1) [OF sane]
  obtain r1 h1 where get: "(if curr r = NULL then get_first_region_page alloc d r (round_up s) h
      else if last_plus_one r - offset r < round_up s then grow_region alloc d r (round_up s) h
      else Inr (r, h)) = Inr (r1, h1)"
    and out: "res = offset r1" "r' = r1\<lparr>offset := offset r1 + round_up s\<rparr>" "h' = h1"
    using bump unfolding region_bump_def Let_def bind_res_eq_Inr by auto
  consider (first) "curr r = NULL" | (grow) "curr r \<noteq> NULL" "last_plus_one r - offset r < round_up s"
    | (room) "curr r \<noteq> NULL" "round_up s \<le> last_plus_one r - offset r"
    using not_le by blast
  then have "\<exists>ps1. page_step h r ps (round_up s) r1 h1 ps1"
  proof cases
    case first
    with get show ?thesis using first_page_step [OF wf hwf ok _ d rs] by auto
  next
    case grow
    with get show ?thesis using grow_page_step [OF wf hwf ok _ d rs] by auto
  next
    case room
    then have "page_step h r ps (round_up s) r h ps"
      using wf hwf by (auto simp: page_step_def same_bytes_def)
    moreover have "r1 = r" and "h1 = h"
      using get room by (simp_all add: not_less [symmetric])
    ultimately show ?thesis by auto
  qed
  with out show ?thesis by blast
qed

subsection \<open>Allocation\<close>

text \<open>
  A bump of \<open>s\<close> bytes: the invariant is kept, the block \<open>[res, res + round_up s)\<close> is aligned, lies in
  the payload of the newest page, starts where the bump interval started and ends where the new one
  starts; every block that was live keeps its bytes, and a page is added at most.
\<close>

lemma region_bump_spec:
  assumes wf: "region_wf h r ps" and hwf: "heap_wf h" and ok: "libc_ok alloc" and sane: "sane_sizes d s"
    and bump: "region_bump alloc d r s h = Inr (res, r', h')"
  shows "\<exists>ps'. region_wf h' r' ps' \<and> (ps' = ps \<and> res = offset r \<or> ps' = curr r' # ps \<and> curr r' \<notin> fst ` set (live h))"
    and "heap_wf h'" and "8 dvd unat res" and "unat (curr r') + 8 \<le> unat res"
    and "unat (offset r') = unat res + unat (round_up s)"
    and "unat res + unat (round_up s) \<le> unat (last_plus_one r')"
    and "set (live h) \<subseteq> set (live h')"
    and "(b, m) \<in> set (live h) \<Longrightarrow> same_bytes h h' b m"
proof -
  obtain r1 ps1 where step: "page_step h r ps (round_up s) r1 h' ps1" and res: "res = offset r1"
    and r': "r' = r1\<lparr>offset := offset r1 + round_up s\<rparr>"
    using region_bump_step [OF wf hwf ok sane bump] by blast
  from step have wf1: "region_wf h' r1 ps1" and c1: "curr r1 \<noteq> NULL"
    and room: "round_up s \<le> last_plus_one r1 - offset r1"
    by (simp_all add: page_step_def)
  from wf1 c1 have bip: "bump_in_page h' r1" by (simp add: region_wf_def)
  then have le: "offset r1 \<le> last_plus_one r1" by (auto simp: bump_in_page_def)
  then have fits: "unat (offset r1) + unat (round_up s) \<le> unat (last_plus_one r1)"
    using room by (simp add: word_le_nat_alt unat_sub_u32)
  then have off: "unat (offset r1 + round_up s) = unat (offset r1) + unat (round_up s)"
    using unat_lt_2p32 [of "last_plus_one r1"] by (intro unat_add_u32) linarith
  have "bump_in_page h' r'"
    using bip fits off sane_sizes_round_up(3) [OF sane]
    by (auto simp: bump_in_page_def r' word_le_nat_alt)
  with wf1 c1 have "region_wf h' r' ps1"
    by (simp add: region_wf_def r')
  with step show "\<exists>ps'. region_wf h' r' ps' \<and> (ps' = ps \<and> res = offset r \<or> ps' = curr r' # ps \<and> curr r' \<notin> fst ` set (live h))"
    by (auto simp: page_step_def res r')
  show "unat (offset r') = unat res + unat (round_up s)" and
    "unat res + unat (round_up s) \<le> unat (last_plus_one r')"
    using off fits by (simp_all add: r' res)
  show "8 dvd unat res" and "unat (curr r') + 8 \<le> unat res"
    using bip by (auto simp: bump_in_page_def r' res)
  show "same_bytes h h' b m" if "(b, m) \<in> set (live h)"
    using step that by (auto simp: page_step_def)
  from step show "heap_wf h'" and "set (live h) \<subseteq> set (live h')" by (simp_all add: page_step_def)
qed

text \<open>The memory between \<open>offset\<close> and \<open>last_plus_one\<close> has never been handed out and is zero.\<close>

definition fresh_zero :: "heap \<Rightarrow> region_handle \<Rightarrow> bool" where
  "fresh_zero h r \<longleftrightarrow>
     (\<forall>a. unat (offset r) \<le> unat a \<and> unat a < unat (last_plus_one r) \<longrightarrow> bytes h a = 0)"

lemma region_bump_zero:
  assumes wf: "region_wf h r ps" and hwf: "heap_wf h" and ok: "libc_ok alloc" and sane: "sane_sizes d s"
    and bump: "region_bump alloc d r s h = Inr (res, r', h')" and z: "fresh_zero h r"
  shows "fresh_zero h' r'"
    and "unat res \<le> unat a \<Longrightarrow> unat a < unat res + unat (round_up s) \<Longrightarrow> bytes h' a = 0"
proof -
  obtain r1 ps1 where step: "page_step h r ps (round_up s) r1 h' ps1" and res: "res = offset r1"
    and r': "r' = r1\<lparr>offset := offset r1 + round_up s\<rparr>"
    using region_bump_step [OF wf hwf ok sane bump] by blast
  from step z have z1: "fresh_zero h' r1" by (auto simp: page_step_def fresh_zero_def)
  note spec = region_bump_spec [OF wf hwf ok sane bump]
  show "fresh_zero h' r'"
    using z1 spec(5) by (auto simp: fresh_zero_def r' res)
  show "bytes h' a = 0" if "unat res \<le> unat a" "unat a < unat res + unat (round_up s)"
    using z1 spec(6) that by (auto simp: fresh_zero_def r' res)
qed

text \<open>The statistics: \<open>region_get_total_bytes\<close> counts exactly the rounded sizes handed out.\<close>

lemma region_bump_total:
  assumes "region_bump alloc d r s h = Inr (res, r', h')" and "is_xrgn r = 0"
  shows "rgn_total_bytes r' = (if curr r = NULL then 0 else rgn_total_bytes r) + round_up s"
  using assms
  by (auto simp: region_bump_def get_first_region_page_def grow_region_def Let_def res_simps
      rgn_total_bytes_def split: if_splits)

lemma region_bump_fault: "region_bump alloc d r s h = Inl f \<Longrightarrow> f = Throw Bad_alloc"
  by (auto simp: region_bump_def get_first_region_page_def grow_region_def Let_def res_simps
      dest: bounded_GC_calloc_fault split: if_splits)

subsection \<open>Freeing a region\<close>

lemma free_pages_NULL [simp]: "free_pages NULL h = Some h"
  by (simp add: free_pages.simps)

lemma bytes_GC_free [simp]: "bytes (GC_free p h) = bytes h"
  by (simp add: GC_free_def libc_free_def)

lemma live_GC_free: "p \<noteq> NULL \<Longrightarrow> live (GC_free p h) = filter (\<lambda>b. fst b \<noteq> p) (live h)"
  by (simp add: GC_free_def libc_free_def)

lemma page_next_GC_free [simp]: "page_next (GC_free p h) q = page_next h q"
  by (simp add: page_next_def load32_def)

lemma page_chain_GC_free [simp]: "page_chain (GC_free p h) q qs = page_chain h q qs"
  by (induction qs arbitrary: q) auto

text \<open>The loop ends on a finite chain and frees exactly the pages of the chain.\<close>

lemma free_pages_Some:
  assumes "page_chain h p ps"
  shows "\<exists>h'. free_pages p h = Some h' \<and> bytes h' = bytes h \<and>
           live h' = filter (\<lambda>b. fst b \<notin> set ps) (live h)"
  using assms
proof (induction ps arbitrary: p h)
  case Nil
  then show ?case by simp
next
  case (Cons q qs)
  then have "page_chain (GC_free q h) (page_next h q) qs" and q: "p = q" "q \<noteq> NULL"
    by simp_all
  from Cons.IH [OF this(1)] obtain h' where "free_pages (page_next h q) (GC_free q h) = Some h'"
    "bytes h' = bytes h" "live h' = filter (\<lambda>b. fst b \<notin> set qs) (live (GC_free q h))"
    by auto
  then show ?case
    using q by (subst free_pages.simps) (auto simp: live_GC_free intro: filter_cong)
qed

lemma free_region_spec:
  assumes wf: "region_wf h r ps" and "heap_wf h"
  shows "\<exists>r' h'. free_region r h = Some (Inr (r', h')) \<and> region_wf h' r' [] \<and> heap_wf h' \<and>
           set (live h') = {b \<in> set (live h). fst b \<notin> set ps} \<and> bytes h' = bytes h"
proof -
  from wf have chain: "page_chain h (curr r) ps" and x: "is_xrgn r = 0"
    by (simp_all add: region_wf_def)
  from free_pages_Some [OF chain] obtain h' where h': "free_pages (curr r) h = Some h'"
    "bytes h' = bytes h" "live h' = filter (\<lambda>b. fst b \<notin> set ps) (live h)" by blast
  have "heap_wf h'"
    using \<open>heap_wf h\<close> h'(3) by (auto simp: heap_wf_def distinct_map_filter pairwise_def)
  then show ?thesis
    using h' x by (auto simp: free_region_def region_wf_def)
qed

lemma free_region_twice:
  assumes "region_wf h r ps" and "free_region r h = Some (Inr (r', h'))"
  shows "free_region r' h' = Some (Inr (r', h'))"
  using assms by (auto simp: free_region_def region_wf_def)

subsection \<open>Properties\<close>

text \<open>The address range handed out by an allocation lies inside the current page, a live block.\<close>

lemma region_bump_block:
  assumes "region_wf h r ps" and "heap_wf h" and "libc_ok alloc" and "sane_sizes d s"
    and "region_bump alloc d r s h = Inr (res, r', h')"
  shows "\<exists>n. (curr r', n) \<in> set (live h') \<and> unat (curr r') + 8 \<le> unat res \<and>
     unat res + unat (round_up s) \<le> unat (curr r') + unat n"
proof -
  note spec = region_bump_spec [OF assms]
  obtain ps' where wf: "region_wf h' r' ps'" using spec(1) by blast
  have "curr r' \<noteq> NULL"
  proof
    assume "curr r' = NULL"
    then have "last_plus_one r' = 0" using wf unfolding region_wf_def by simp
    then show False using spec(4,6) by simp
  qed
  then obtain n where "(curr r', n) \<in> set (live h')" "unat (last_plus_one r') = unat (curr r') + unat n"
    using wf unfolding region_wf_def bump_in_page_def by auto
  then show ?thesis using spec(4,6) by auto
qed

text \<open>two allocations from a region, one after the other, never overlap, whether or not the
  second one fetched a new page.\<close>

theorem region_allocations_disjoint:
  assumes "region_wf h r ps" and "heap_wf h" and "libc_ok alloc"
    and "sane_sizes d s" and "region_bump alloc d r s h = Inr (res, r', h')"
    and "sane_sizes d s2" and "region_bump alloc d r' s2 h' = Inr (res2, r2, h2)"
  shows "disjoint_blocks res (round_up s) res2 (round_up s2)"
proof -
  note spec = region_bump_spec [OF assms(1-5)]
  obtain ps' where wf': "region_wf h' r' ps'" using spec(1) by blast
  note second = wf' spec(2) assms(3,6,7)
  note spec2 = region_bump_spec [OF second]
  obtain n where n: "(curr r', n) \<in> set (live h')" "unat (curr r') + 8 \<le> unat res"
    "unat res + unat (round_up s) \<le> unat (curr r') + unat n"
    using region_bump_block [OF assms(1-5)] by blast
  obtain n2 where n2: "(curr r2, n2) \<in> set (live h2)" "unat (curr r2) + 8 \<le> unat res2"
    "unat res2 + unat (round_up s2) \<le> unat (curr r2) + unat n2"
    using region_bump_block [OF second] by blast
  from spec2(1) consider "res2 = offset r'" | "curr r2 \<notin> fst ` set (live h')" by blast
  then show ?thesis
  proof cases
    case 1
    then show ?thesis using spec(5) unfolding disjoint_blocks_def by simp
  next
    case 2
    then have "(curr r', n) \<noteq> (curr r2, n2)" using n(1) by force
    moreover have "(curr r', n) \<in> set (live h2)" using n(1) spec2(7) by blast
    ultimately have "disjoint_blocks (curr r') n (curr r2) n2"
      using n2(1) spec2(2) unfolding heap_wf_def pairwise_def by blast
    then show ?thesis using n(2,3) n2(2,3) unfolding disjoint_blocks_def by linarith
  qed
qed

definition empty_heap :: heap where
  "empty_heap = \<lparr>live = [], bytes = (\<lambda>_. 255)\<rparr>"

lemma heap_wf_empty [simp]: "heap_wf empty_heap"
  by (simp add: heap_wf_def empty_heap_def)

lemma round_up_10 [simp]: "round_up 10 = 16"
  by (simp add: round_up_def CYC_MIN_ALIGNMENT_def)

lemma round_up_24 [simp]: "round_up 24 = 24"
  by (simp add: round_up_def CYC_MIN_ALIGNMENT_def)

lemmas region_eval = region_bump_def get_first_region_page_def grow_region_def new_region_def
  empty_heap_def bounded_GC_calloc_def GC_calloc_def libc_calloc_def GC_malloc_def libc_malloc_def single_block_libc_def
  MAX_ALLOC_SIZE_def sizeof_RegionPage_def Let_def

text \<open>A first allocation of ten bytes from a new region, on the concrete allocator.\<close>

lemma first_bump:
  "\<exists>r h. region_bump single_block_libc 1024 new_region 10 empty_heap = Inr (4104, r, h) \<and>
     offset r = 4120 \<and> last_plus_one r = 5128 \<and> curr r = 4096"
  by (simp add: region_eval res_simps)

lemma region_wf_new_region: "region_wf empty_heap new_region []"
  by (rule region_wf_new)

lemma sane_sizes_10 [simp]: "sane_sizes 1024 10" "sane_sizes 1024 24"
  by (simp_all add: sane_sizes_def)

theorem region_allocations_disjoint_witness:
  "\<exists>r h r2 h2. region_bump single_block_libc 1024 new_region 10 empty_heap = Inr (4104, r, h) \<and>
     region_bump single_block_libc 1024 r 24 h = Inr (4120, r2, h2) \<and> disjoint_blocks 4104 16 4120 24"
proof -
  obtain r h where 1: "region_bump single_block_libc 1024 new_region 10 empty_heap = Inr (4104, r, h)"
    and r: "offset r = 4120" "last_plus_one r = 5128" "curr r = 4096" using first_bump by blast
  have 2: "region_bump single_block_libc 1024 r 24 h = Inr (4120, r\<lparr>offset := 4144\<rparr>, h)"
    by (simp add: region_bump_def r res_simps Let_def)
  show ?thesis
    using 1 2 region_allocations_disjoint [OF region_wf_new_region heap_wf_empty libc_ok_single_block _ 1 _ 2]
    by simp
qed

text \<open>C13: an allocation keeps the region and the heap well formed, leaves every byte of the blocks
  that were live, and returns an 8-byte aligned address past the page header with the rounded size
  inside the current page; the offset advances by exactly that size.\<close>

theorem region_malloc_invariant:
  assumes "region_wf h r ps" and "heap_wf h" and "libc_ok alloc" and "sane_sizes d s"
    and "region_bump alloc d r s h = Inr (res, r', h')"
  shows "(\<exists>ps'. region_wf h' r' ps') \<and> heap_wf h' \<and> 8 dvd unat res
     \<and> (\<exists>n. (curr r', n) \<in> set (live h') \<and> unat (curr r') + 8 \<le> unat res \<and>
          unat res + unat (round_up s) \<le> unat (curr r') + unat n)
     \<and> unat (offset r') = unat res + unat (round_up s)
     \<and> (\<forall>(b, m) \<in> set (live h). (b, m) \<in> set (live h') \<and> same_bytes h h' b m)"
proof -
  note spec = region_bump_spec [OF assms]
  show ?thesis using spec(1-3,5,7,8) region_bump_block [OF assms] by blast
qed

theorem region_malloc_invariant_witness:
  "\<exists>r h ps. region_bump single_block_libc 1024 new_region 10 empty_heap = Inr (4104, r, h)
     \<and> region_wf h r ps \<and> heap_wf h"
proof -
  obtain r h where 1: "region_bump single_block_libc 1024 new_region 10 empty_heap = Inr (4104, r, h)"
    using first_bump by blast
  show ?thesis
    using 1 region_malloc_invariant [OF region_wf_new_region heap_wf_empty libc_ok_single_block _ 1] by auto
qed

text \<open>Memory handed out by a region whose unused space is zero is zero, and the space still
  unused stays zero; a new region satisfies the condition.\<close>

theorem region_malloc_zeroed:
  assumes "region_wf h r ps" and "heap_wf h" and "libc_ok alloc" and "sane_sizes d s"
    and "region_bump alloc d r s h = Inr (res, r', h')" and "fresh_zero h r"
  shows "fresh_zero h' r' \<and>
     (\<forall>a. unat res \<le> unat a \<and> unat a < unat res + unat (round_up s) \<longrightarrow> bytes h' a = 0)"
  using region_bump_zero [OF assms] by blast

theorem region_malloc_zeroed_witness:
  "\<exists>r h. region_bump single_block_libc 1024 new_region 10 empty_heap = Inr (4104, r, h)
     \<and> bytes empty_heap 4110 = 255 \<and> bytes h 4110 = 0"
proof -
  obtain r h where 1: "region_bump single_block_libc 1024 new_region 10 empty_heap = Inr (4104, r, h)"
    using first_bump by blast
  have "fresh_zero empty_heap new_region" by (simp add: fresh_zero_def new_region_def)
  then have "\<forall>a. unat (4104 :: u32) \<le> unat a \<and> unat a < unat (4104 :: u32) + unat (round_up 10) \<longrightarrow> bytes h a = 0"
    using region_malloc_zeroed [OF region_wf_new_region heap_wf_empty libc_ok_single_block _ 1] by simp
  then have "bytes h 4110 = 0" by simp
  then show ?thesis using 1 by (auto simp: empty_heap_def)
qed

text \<open>C14: \<open>_free_region\<close> returns, gives back exactly the pages of the region and nothing else, and
  leaves an empty, well-formed region; freeing it again changes nothing.\<close>

theorem free_region_exact:
  assumes "region_wf h r ps" and "heap_wf h"
  shows "\<exists>r' h'. free_region r h = Some (Inr (r', h')) \<and> region_wf h' r' [] \<and> heap_wf h'
     \<and> set (live h') = {b \<in> set (live h). fst b \<notin> set ps}
     \<and> free_region r' h' = Some (Inr (r', h'))"
  using free_region_spec [OF assms] free_region_twice [OF assms(1)] by blast

theorem free_region_exact_witness:
  "\<exists>r h r' h'. region_bump single_block_libc 1024 new_region 10 empty_heap = Inr (4104, r, h)
     \<and> free_region r h = Some (Inr (r', h')) \<and> heap_wf h'"
proof -
  obtain r h where 1: "region_bump single_block_libc 1024 new_region 10 empty_heap = Inr (4104, r, h)"
    using first_bump by blast
  note s = region_bump_spec [OF region_wf_new_region heap_wf_empty libc_ok_single_block sane_sizes_10(1) 1]
  obtain ps where "region_wf h r ps" using s(1) by blast
  from free_region_exact [OF this s(2)] show ?thesis using 1 by blast
qed

end
