(* ===== verification/Futex_Lock.thy ===== *)
theory Futex_Lock
  imports Prelude
begin

section \<open>Futexes and the region latch\<close>

text \<open>
  lib/runtime_lowlevel.c: the wrappers of the futex system call and the latch \<open>wait_lock\<close> /
  \<open>unlock\<close> that guards the capability record of a region, and \<open>_next_tid\<close> of
  lib/runtime_stack.c, which hands out the thread identifiers the latch stores.

  The kernel is a parameter: its result code is an argument of the wrappers, and in the protocol the
  futex call is a step that compares the word and sleeps atomically (the documented meaning of
  FUTEX_WAIT), FUTEX_WAKE wakes one sleeper if there is one, and a sleeper may also wake spuriously.

  What the lemmas show: in every interleaving at most one thread is between \<open>wait_lock\<close> and
  \<open>unlock\<close>, the assertion of \<open>unlock\<close> never fails, and no wake-up is lost: while a thread sleeps
  on a free latch some thread is awake that will take it or wake another.
\<close>

subsection \<open>The system call wrappers\<close>

definition ENOSYS :: int where "ENOSYS = 38"
definition EWOULDBLOCK :: int where "EWOULDBLOCK = 11"
definition ETIMEDOUT :: int where "ETIMEDOUT = 110"
definition EFAULT :: int where "EFAULT = 14"

text \<open>\<open>err(msg)\<close> prints and calls \<open>exit(-1)\<close>.\<close>

definition futex_wait_result :: "int \<Rightarrow> unit res" where
  "futex_wait_result res =
     (if res = - ENOSYS then Inl (Errquit ''ENOSYS'')
      else if res < 0
      then if res = - EWOULDBLOCK then Inr ()
           else if res = - ETIMEDOUT then Inr ()
           else if res = - EFAULT then Inl (Errquit ''EFAULT'')
           else Inl (Errquit ''OTHER'')
      else Inr ())"

definition FUTEX_SPIN_COUNT :: nat where
  "FUTEX_SPIN_COUNT = 50"

text \<open>
  The spin phase reads the word \<open>FUTEX_SPIN_COUNT\<close> times; \<open>rd i\<close> is what the \<open>i\<close>-th read sees.
  It reports whether some read differed from \<open>val\<close>, in which case the function returns at once.
\<close>

fun futex_spin :: "(nat \<Rightarrow> u32) \<Rightarrow> u32 \<Rightarrow> nat \<Rightarrow> nat \<Rightarrow> bool" where
  "futex_spin rd val i 0 = False"
| "futex_spin rd val i (Suc k) = (if rd i \<noteq> val then True else futex_spin rd val (Suc i) k)"

definition futex_wait :: "bool \<Rightarrow> (nat \<Rightarrow> u32) \<Rightarrow> u32 \<Rightarrow> int \<Rightarrow> unit res" where
  "futex_wait do_spin rd val res =
     (if do_spin \<and> futex_spin rd val 0 FUTEX_SPIN_COUNT then Inr () else futex_wait_result res)"

definition simple_futex_wait :: "int \<Rightarrow> unit res" where
  "simple_futex_wait res = futex_wait_result res"

text \<open>\<open>futex_wake\<close> retries without the private flag; \<open>res'\<close> is the result of the second call.\<close>

definition futex_wake :: "int \<Rightarrow> int \<Rightarrow> unit res" where
  "futex_wake res res' =
     (let res = (if res = - ENOSYS then res' else res)
      in if res < 0 then Inl (Errquit ''FUTEX_WAKE impl'') else Inr ())"

subsection \<open>Thread identifiers\<close>

definition next_tid_init :: u32 where
  "next_tid_init = 1"

definition next_tid :: "u32 \<Rightarrow> u32 \<times> u32" where
  "next_tid nt = (nt, nt + 2)"

fun tids :: "nat \<Rightarrow> u32 \<Rightarrow> u32 list" where
  "tids 0 nt = []"
| "tids (Suc n) nt = (let (t, nt') = next_tid nt in t # tids n nt')"

subsection \<open>The latch\<close>

text \<open>
  Where a thread stands: outside; at the compare-and-swap of \<open>wait_lock\<close>; at the read of \<open>*lock\<close>
  after a failed one; about to call \<open>futex_wait\<close> with the value read; asleep in the kernel; inside
  the critical section; in \<open>unlock\<close> after its assertion; after \<open>*lock = 0\<close>, before \<open>futex_wake\<close>;
  or ended by the failed assertion.
\<close>

datatype latch_pc =
    Out | Cas | Reread | Wait u32 | Asleep u32 | Crit | Unlocking | Waking | Aborted

record latch =
  word :: u32
  pc :: "u32 \<Rightarrow> latch_pc"

definition set_pc :: "u32 \<Rightarrow> latch_pc \<Rightarrow> latch \<Rightarrow> latch" where
  "set_pc t p s = s\<lparr>pc := (pc s)(t := p)\<rparr>"

definition latch_init :: "latch \<Rightarrow> bool" where
  "latch_init s \<longleftrightarrow> word s = 0 \<and> (\<forall>t. pc s t = Out)"

inductive wait_lock_step :: "u32 \<Rightarrow> latch \<Rightarrow> latch \<Rightarrow> bool" for self :: u32 where
  wl_enter: "pc s self = Out \<Longrightarrow> wait_lock_step self s (set_pc self Cas s)"
| wl_cas_ok: "pc s self = Cas \<Longrightarrow> word s = 0 \<Longrightarrow>
     wait_lock_step self s (set_pc self Crit (s\<lparr>word := self\<rparr>))"
| wl_cas_fail: "pc s self = Cas \<Longrightarrow> word s \<noteq> 0 \<Longrightarrow> wait_lock_step self s (set_pc self Reread s)"
| wl_continue: "pc s self = Reread \<Longrightarrow> word s = 0 \<Longrightarrow> wait_lock_step self s (set_pc self Cas s)"
| wl_reread: "pc s self = Reread \<Longrightarrow> word s \<noteq> 0 \<Longrightarrow>
     wait_lock_step self s (set_pc self (Wait (word s)) s)"
| wl_differs: "pc s self = Wait v \<Longrightarrow> word s \<noteq> v \<Longrightarrow> wait_lock_step self s (set_pc self Cas s)"
| wl_sleep: "pc s self = Wait v \<Longrightarrow> word s = v \<Longrightarrow>
     wait_lock_step self s (set_pc self (Asleep v) s)"
| wl_spurious: "pc s self = Asleep v \<Longrightarrow> wait_lock_step self s (set_pc self Cas s)"

inductive unlock_step :: "u32 \<Rightarrow> latch \<Rightarrow> latch \<Rightarrow> bool" for self :: u32 where
  ul_assert_ok: "pc s self = Crit \<Longrightarrow> word s = self \<Longrightarrow> unlock_step self s (set_pc self Unlocking s)"
| ul_assert_fail: "pc s self = Crit \<Longrightarrow> word s \<noteq> self \<Longrightarrow> unlock_step self s (set_pc self Aborted s)"
| ul_store: "pc s self = Unlocking \<Longrightarrow> unlock_step self s (set_pc self Waking (s\<lparr>word := 0\<rparr>))"
| ul_wake_one: "pc s self = Waking \<Longrightarrow> pc s t = Asleep v \<Longrightarrow>
     unlock_step self s (set_pc self Out (set_pc t Cas s))"
| ul_wake_none: "pc s self = Waking \<Longrightarrow> (\<forall>t v. pc s t \<noteq> Asleep v) \<Longrightarrow>
     unlock_step self s (set_pc self Out s)"

inductive latch_step :: "latch \<Rightarrow> latch \<Rightarrow> bool" where
  latch_wait: "self \<noteq> 0 \<Longrightarrow> wait_lock_step self s t \<Longrightarrow> latch_step s t"
| latch_unlock: "self \<noteq> 0 \<Longrightarrow> unlock_step self s t \<Longrightarrow> latch_step s t"

definition holds :: "latch \<Rightarrow> u32 \<Rightarrow> bool" where
  "holds s t \<longleftrightarrow> pc s t \<in> {Crit, Unlocking}"

definition awake :: "latch_pc \<Rightarrow> bool" where
  "awake p \<longleftrightarrow> (case p of Cas \<Rightarrow> True | Reread \<Rightarrow> True | Wait _ \<Rightarrow> True | Waking \<Rightarrow> True | _ \<Rightarrow> False)"

definition latch_excl :: "latch \<Rightarrow> bool" where
  "latch_excl s \<longleftrightarrow>
     (\<forall>t. holds s t \<longleftrightarrow> word s = t \<and> t \<noteq> 0) \<and> (\<forall>t. pc s t \<noteq> Aborted) \<and> (\<forall>t. pc s t \<noteq> Wait 0)"

definition latch_live :: "latch \<Rightarrow> bool" where
  "latch_live s \<longleftrightarrow> (word s = 0 \<longrightarrow> (\<exists>t v. pc s t = Asleep v) \<longrightarrow> (\<exists>t. awake (pc s t)))"

definition latch_inv :: "latch \<Rightarrow> bool" where
  "latch_inv s \<longleftrightarrow> latch_excl s \<and> latch_live s"

lemma pc_set_pc [simp]: "pc (set_pc t p s) u = (if u = t then p else pc s u)"
  by (simp add: set_pc_def)

lemma word_set_pc [simp]: "word (set_pc t p s) = word s"
  by (simp add: set_pc_def)

lemma awake_simps [simp]:
  "awake Cas" "awake Reread" "awake (Wait v)" "awake Waking"
  "\<not> awake Out" "\<not> awake (Asleep v)" "\<not> awake Crit" "\<not> awake Unlocking" "\<not> awake Aborted"
  by (simp_all add: awake_def)

lemma holds_simps [simp]:
  "holds (set_pc t p s) u \<longleftrightarrow> (if u = t then p \<in> {Crit, Unlocking} else holds s u)"
  "holds (s\<lparr>word := w\<rparr>) u = holds s u"
  by (auto simp: holds_def)

lemma latch_inv_init: "latch_init s \<Longrightarrow> latch_inv s"
  by (auto simp: latch_init_def latch_inv_def latch_excl_def latch_live_def holds_def)

text \<open>A step that only moves one thread, that did not hold the latch and will not hold it.\<close>

lemma latch_excl_move:
  assumes "latch_excl s" and "\<not> holds s self" and "p \<notin> {Crit, Unlocking, Aborted, Wait 0}"
  shows "latch_excl (set_pc self p s)"
  using assms by (auto simp: latch_excl_def)

lemma latch_excl_wait_lock:
  assumes "self \<noteq> 0" and "wait_lock_step self s t" and "latch_excl s"
  shows "latch_excl t"
  using assms(2,1,3)
proof (cases rule: wait_lock_step.cases)
  case wl_cas_ok
  with assms show ?thesis by (auto simp: latch_excl_def)
qed (auto intro!: latch_excl_move simp: holds_def)

lemma latch_excl_unlock:
  assumes "self \<noteq> 0" and "unlock_step self s t" and "latch_excl s"
  shows "latch_excl t"
  using assms(2,1,3)
proof (cases rule: unlock_step.cases)
  case ul_assert_ok
  with assms show ?thesis by (auto simp: latch_excl_def holds_def)
next
  case ul_assert_fail
  with assms show ?thesis by (auto simp: latch_excl_def holds_def)
next
  case ul_store
  then have "holds s self" by (simp add: holds_def)
  with assms(3) have "word s = self" and "\<And>u. u \<noteq> self \<Longrightarrow> \<not> holds s u"
    by (auto simp: latch_excl_def)
  with ul_store assms(1,3) show ?thesis by (auto simp: latch_excl_def)
next
  case (ul_wake_one u v)
  with assms show ?thesis by (auto intro!: latch_excl_move simp: holds_def split: if_splits)
next
  case ul_wake_none
  with assms show ?thesis by (auto intro!: latch_excl_move simp: holds_def)
qed

lemma latch_live_awake: "awake (pc s t) \<Longrightarrow> latch_live s"
  by (auto simp: latch_live_def)

lemma latch_live_taken: "word s \<noteq> 0 \<Longrightarrow> latch_live s"
  by (simp add: latch_live_def)

lemma latch_live_wait_lock:
  assumes "self \<noteq> 0" and "wait_lock_step self s t" and "latch_excl s"
  shows "latch_live t"
  using assms(2)
proof (cases rule: wait_lock_step.cases)
  case wl_cas_ok
  with assms(1) show ?thesis by (intro latch_live_taken) simp
next
  case (wl_sleep v)
  with assms(3) show ?thesis by (intro latch_live_taken) (auto simp: latch_excl_def)
qed (auto intro: latch_live_awake [of _ self])

lemma latch_live_unlock:
  assumes "self \<noteq> 0" and "unlock_step self s t" and "latch_excl s"
  shows "latch_live t"
  using assms(2)
proof (cases rule: unlock_step.cases)
  case ul_assert_ok
  with assms(1) show ?thesis by (intro latch_live_taken) simp
next
  case ul_assert_fail
  with assms(3) show ?thesis by (auto simp: latch_excl_def holds_def)
next
  case ul_store
  then show ?thesis by (intro latch_live_awake [of _ self]) simp
next
  case (ul_wake_one u v)
  then show ?thesis by (intro latch_live_awake [of _ u]) auto
next
  case ul_wake_none
  then show ?thesis by (auto simp: latch_live_def split: if_splits)
qed

lemma latch_inv_step: "latch_inv s \<Longrightarrow> latch_step s t \<Longrightarrow> latch_inv t"
  by (auto elim!: latch_step.cases simp: latch_inv_def intro: latch_excl_wait_lock latch_excl_unlock
      latch_live_wait_lock latch_live_unlock)

interpretation latch: inv_system latch_init latch_step latch_inv
  by unfold_locales (auto intro: latch_inv_init latch_inv_step)

subsection \<open>Thread identifiers are never zero and do not repeat\<close>

lemma tids_nth: "i < n \<Longrightarrow> tids n nt ! i = nt + 2 * of_nat i"
proof (induction n arbitrary: nt i)
  case 0
  then show ?case by simp
next
  case (Suc n)
  then show ?case
    by (cases i) (auto simp: next_tid_def algebra_simps)
qed

lemma length_tids [simp]: "length (tids n nt) = n"
  by (induction n arbitrary: nt) (simp_all add: next_tid_def)

lemma tid_unat: "unat (1 + 2 * of_nat i :: u32) = (1 + 2 * i) mod 4294967296"
proof -
  have "(1 + 2 * of_nat i :: u32) = of_nat (1 + 2 * i)" by simp
  then show ?thesis by (simp only: unat_of_nat) simp
qed

lemma tid_nonzero: "(1 + 2 * of_nat i :: u32) \<noteq> 0"
proof -
  have "odd ((1 + 2 * i) mod 4294967296)" by (simp add: dvd_mod_iff)
  then have "unat (1 + 2 * of_nat i :: u32) \<noteq> 0" unfolding tid_unat by (rule contrapos_nn) simp
  then show ?thesis by auto
qed

lemma tid_inj:
  assumes "i < 2147483648" and "j < 2147483648" and "(1 + 2 * of_nat i :: u32) = 1 + 2 * of_nat j"
  shows "i = j"
proof -
  from assms(3) have "(1 + 2 * i) mod 4294967296 = (1 + 2 * j) mod 4294967296"
    by (metis tid_unat)
  with assms(1,2) show ?thesis by simp
qed

subsection \<open>Properties\<close>

text \<open>C11: mutual exclusion. In every reachable state of the latch at most one thread is between a
  successful \<open>wait_lock\<close> and its \<open>unlock\<close>, the lock word names that thread, and no thread has
  failed the assertion in \<open>unlock\<close>.\<close>

theorem latch_mutual_exclusion:
  assumes "reachable latch_init latch_step s"
  shows "(\<forall>t. holds s t \<longleftrightarrow> word s = t \<and> t \<noteq> 0) \<and> (\<forall>t. pc s t \<noteq> Aborted)"
  using latch.reachable_inv [OF assms] unfolding latch_inv_def latch_excl_def by blast

text \<open>The state after thread 1 took the latch and thread 3 went to sleep on it.\<close>

definition latch_start :: latch where
  "latch_start = \<lparr>word = 0, pc = (\<lambda>_. Out)\<rparr>"

definition latch_taken :: latch where
  "latch_taken = set_pc 3 (Asleep 1) (set_pc 3 (Wait 1) (set_pc 3 Reread (set_pc 3 Cas
     (set_pc 1 Crit ((set_pc 1 Cas latch_start)\<lparr>word := 1\<rparr>)))))"

lemma latch_start_reachable: "reachable latch_init latch_step latch_start"
  by (rule reachable_init) (simp add: latch_init_def latch_start_def)

lemma latch_taken_reachable: "reachable latch_init latch_step latch_taken"
proof -
  let ?s1 = "set_pc 1 Cas latch_start"
  let ?s2 = "set_pc 1 Crit (?s1\<lparr>word := 1\<rparr>)"
  let ?s3 = "set_pc 3 Cas ?s2"
  let ?s4 = "set_pc 3 Reread ?s3"
  let ?s5 = "set_pc 3 (Wait 1) ?s4"
  have "latch_step latch_start ?s1"
    by (rule latch_wait [of 1]) (auto intro: wl_enter simp: latch_start_def)
  moreover have "latch_step ?s1 ?s2"
    by (rule latch_wait [of 1]) (auto intro!: wl_cas_ok simp: latch_start_def)
  moreover have "latch_step ?s2 ?s3"
    by (rule latch_wait [of 3]) (auto intro!: wl_enter simp: latch_start_def)
  moreover have "latch_step ?s3 ?s4"
    by (rule latch_wait [of 3]) (auto intro!: wl_cas_fail)
  moreover have "latch_step ?s4 ?s5"
    using wl_reread [of ?s4 3] by (intro latch_wait [of 3]) simp_all
  moreover have "latch_step ?s5 latch_taken"
    unfolding latch_taken_def by (rule latch_wait [of 3]) (auto intro!: wl_sleep)
  ultimately show ?thesis using latch_start_reachable by (meson reachable_step)
qed

theorem latch_mutual_exclusion_witness:
  "holds latch_taken 1 \<and> pc latch_taken 3 = Asleep 1 \<and> word latch_taken = 1 \<and> \<not> holds latch_taken 3"
proof -
  have "holds latch_taken 1" "pc latch_taken 3 = Asleep 1" by (simp_all add: latch_taken_def holds_def)
  then show ?thesis using latch_mutual_exclusion [OF latch_taken_reachable] by auto
qed

text \<open>C12: no lost wake-up. In every reachable state in which the latch is free and a thread sleeps
  on it, some other thread is awake inside \<open>wait_lock\<close> or about to call \<open>futex_wake\<close>.\<close>

theorem latch_no_lost_wakeup:
  assumes "reachable latch_init latch_step s" and "word s = 0" and "pc s t = Asleep v"
  shows "\<exists>u. u \<noteq> t \<and> awake (pc s u)"
proof -
  have "latch_live s" using latch.reachable_inv [OF assms(1)] unfolding latch_inv_def by blast
  then obtain u where "awake (pc s u)" using assms(2,3) unfolding latch_live_def by blast
  moreover have "u \<noteq> t" using calculation assms(3) by auto
  ultimately show ?thesis by blast
qed

definition latch_released :: latch where
  "latch_released = set_pc 1 Waking ((set_pc 1 Unlocking latch_taken)\<lparr>word := 0\<rparr>)"

lemma latch_released_reachable: "reachable latch_init latch_step latch_released"
proof -
  have "latch_step latch_taken (set_pc 1 Unlocking latch_taken)"
    by (rule latch_unlock [of 1]) (auto intro!: ul_assert_ok simp: latch_taken_def)
  moreover have "latch_step (set_pc 1 Unlocking latch_taken) latch_released"
    unfolding latch_released_def by (rule latch_unlock [of 1]) (auto intro!: ul_store)
  ultimately show ?thesis using latch_taken_reachable by (meson reachable_step)
qed

theorem latch_no_lost_wakeup_witness:
  "word latch_released = 0 \<and> pc latch_released 3 = Asleep 1 \<and> (\<exists>u. u \<noteq> 3 \<and> awake (pc latch_released u))"
  using latch_no_lost_wakeup [OF latch_released_reachable, of 3 1]
  by (simp add: latch_released_def latch_taken_def)

text \<open>The first 2^31 thread identifiers are pairwise different and never 0, the value that means
  a free latch and an absent writer.\<close>

theorem tids_distinct_nonzero:
  assumes "n \<le> 2147483648"
  shows "distinct (tids n next_tid_init) \<and> 0 \<notin> set (tids n next_tid_init)"
proof
  have "tids n next_tid_init ! i \<noteq> tids n next_tid_init ! j" if "i < n" "j < n" "i \<noteq> j" for i j
    using that assms tid_inj [of i j] by (auto simp: tids_nth next_tid_init_def)
  then show "distinct (tids n next_tid_init)" by (simp add: distinct_conv_nth)
  show "0 \<notin> set (tids n next_tid_init)"
  proof
    assume "0 \<in> set (tids n next_tid_init)"
    then obtain i where "i < n" "tids n next_tid_init ! i = 0" by (auto simp: in_set_conv_nth)
    then show False using tid_nonzero [of i] by (simp add: tids_nth next_tid_init_def)
  qed
qed

theorem tids_distinct_nonzero_witness:
  "tids 3 next_tid_init = [1, 3, 5] \<and> distinct (tids 3 next_tid_init)"
  using tids_distinct_nonzero [of 3]
  by (simp add: next_tid_def next_tid_init_def numeral_3_eq_3)

end
