(* ===== verification/Key_Table.thy ===== *)
theory Key_Table
  imports Prelude
begin

section \<open>The key table of a thread\<close>

text \<open>
  The hash table at the end of lib/runtime_memory.c, which maps a region handle to the tree handle a
  thread holds for it.  Entries are the tree handles themselves (struct \<open>_XTreeHandle\<close> of
  cyc_include.h), chained through their \<open>next\<close> field, so a bucket is a chain of pointers in an
  explicit store and the defensive tests of the code (\<open>t == t1\<close>, \<open>kv->next == kv\<close>,
  \<open>e->next == pv\<close>) are branches of the model.  A walk along a chain that is not known to end has
  the value \<open>None\<close>.

  \<open>malloc\<close> may fail: whether it succeeds is the Boolean argument \<open>mem\<close> of the functions that call it.

  What the lemmas show: under \<open>ht_inv\<close> every walk ends; insertion of a fresh key, removal and
  search are exactly update, deletion and lookup of the finite map \<open>ht_map\<close>, across growing and
  shrinking of the table; the two-entry cache never answers with an entry that was removed.
\<close>

subsection \<open>struct _XTreeHandle and the store\<close>

record xtree_handle =
  xt_h :: ptr
  xt_next :: ptr
  parent_key :: ptr
  sub_keys :: ptr
  next_key :: ptr
  lc_rcnt :: u16
  lc_wr_cnt :: u16
  lc_rd_cnt :: u16

type_synonym store = "ptr \<Rightarrow> xtree_handle"

definition set_next :: "ptr \<Rightarrow> ptr \<Rightarrow> store \<Rightarrow> store" where
  "set_next e n st = st(e := (st e)\<lparr>xt_next := n\<rparr>)"

subsection \<open>struct hashtable\<close>

definition H_CACHE_SIZE :: nat where
  "H_CACHE_SIZE = 2"

record hashtable =
  cache :: "ptr list"
  cache_idx :: nat
  tablelength :: u32
  entrycount :: u32
  upper_loadlimit :: u32
  lower_loadlimit :: u32
  primeindex :: nat
  table :: "ptr list"

definition indexFor :: "u32 \<Rightarrow> ptr \<Rightarrow> u32" where
  "indexFor tlen hashvalue = hashvalue mod tlen"

definition primes :: "u32 list" where
  "primes = [53, 97, 193, 389, 769, 1543, 3079, 6151, 12289, 24593, 49157, 98317,
     196613, 393241, 786433, 1572869, 3145739, 6291469, 12582917, 25165843,
     50331653, 100663319, 201326611, 402653189, 805306457, 1610612741]"

definition prime_table_length :: nat where
  "prime_table_length = length primes"

definition max_load_factor :: u32 where
  "max_load_factor = 200"

definition min_load_factor :: u32 where
  "min_load_factor = 50"

definition load_limit :: "u32 \<Rightarrow> u32 \<Rightarrow> u32" where
  "load_limit sz factor = (sz * factor) div 100"

text \<open>The search loop of \<open>create_hashtable\<close>: the first prime above \<open>minsize\<close> and its index.\<close>

fun find_prime :: "u32 list \<Rightarrow> nat \<Rightarrow> u32 \<Rightarrow> u32 \<times> nat" where
  "find_prime [] pindex minsize = (hd primes, pindex)"
| "find_prime (p # ps) pindex minsize =
     (if minsize < p then (p, pindex) else find_prime ps (Suc pindex) minsize)"

definition create_hashtable :: "bool \<Rightarrow> u32 \<Rightarrow> hashtable option" where
  "create_hashtable mem minsize =
     (let (sz, pindex) = find_prime primes 0 minsize
      in if \<not> mem then None
         else Some \<lparr>cache = [NULL, NULL], cache_idx = 0, tablelength = sz, entrycount = 0,
                    upper_loadlimit = load_limit sz max_load_factor,
                    lower_loadlimit = load_limit sz min_load_factor,
                    primeindex = pindex, table = replicate (unat sz) NULL\<rparr>)"

subsection \<open>Rehashing\<close>

partial_function (option) rehash_bucket ::
    "u32 \<Rightarrow> ptr \<Rightarrow> ptr list \<Rightarrow> store \<Rightarrow> (ptr list \<times> store) option" where
  "rehash_bucket newsize t tbl st =
     (if t = NULL then Some (tbl, st)
      else let index = unat (indexFor newsize (xt_h (st t)));
               t1 = t;
               t = xt_next (st t)
           in if t = t1 then Some (tbl, st)
              else rehash_bucket newsize t (tbl[index := t1]) (set_next t1 (tbl ! index) st))"

fun rehash_all :: "u32 \<Rightarrow> ptr list \<Rightarrow> ptr list \<Rightarrow> store \<Rightarrow> (ptr list \<times> store) option" where
  "rehash_all newsize [] tbl st = Some (tbl, st)"
| "rehash_all newsize (b # bs) tbl st =
     Option.bind (rehash_bucket newsize b tbl st) (\<lambda>(tbl, st). rehash_all newsize bs tbl st)"

text \<open>\<open>hashtable_expand\<close>: the first component of the result is the returned table, \<open>None\<close> for a null one.\<close>

definition hashtable_expand ::
    "bool \<Rightarrow> hashtable \<Rightarrow> bool \<Rightarrow> store \<Rightarrow> (hashtable option \<times> store) option" where
  "hashtable_expand mem h grow st =
     (let pindex = primeindex h
      in if grow \<and> pindex = prime_table_length - 1 then Some (None, st)
         else if \<not> grow \<and> pindex = 0 then Some (Some h, st)
         else let newsize = (if grow then primes ! (pindex + 1) else primes ! (pindex - 1))
              in if \<not> mem then Some (None, st)
                 else map_option
                        (\<lambda>(tbl, st).
                           (Some (h\<lparr>table := tbl,
                                    primeindex := (if grow then pindex + 1 else pindex - 1),
                                    tablelength := newsize,
                                    upper_loadlimit := load_limit newsize max_load_factor,
                                    lower_loadlimit := load_limit newsize min_load_factor\<rparr>), st))
                        (rehash_all newsize (table h) (replicate (unat newsize) NULL) st))"

subsection \<open>Insert, search, remove\<close>

text \<open>\<open>h->cache[h->cache_idx++] = e; if (h->cache_idx == H_CACHE_SIZE) h->cache_idx = 0;\<close>\<close>

definition cache_push :: "ptr \<Rightarrow> hashtable \<Rightarrow> hashtable" where
  "cache_push e h =
     (let h = h\<lparr>cache := (cache h)[cache_idx h := e], cache_idx := cache_idx h + 1\<rparr>
      in if cache_idx h = H_CACHE_SIZE then h\<lparr>cache_idx := 0\<rparr> else h)"

text \<open>The part of \<open>hashtable_insert\<close> after the load test.\<close>

definition hashtable_link :: "hashtable \<Rightarrow> ptr \<Rightarrow> store \<Rightarrow> hashtable \<times> store" where
  "hashtable_link h1 kv st =
     (let h1 = h1\<lparr>entrycount := entrycount h1 + 1\<rparr>;
          index = unat (indexFor (tablelength h1) (xt_h (st kv)));
          st = set_next kv (table h1 ! index) st;
          st = (if xt_next (st kv) = kv then set_next kv NULL st else st);
          h1 = h1\<lparr>table := (table h1)[index := kv]\<rparr>
      in (cache_push kv h1, st))"

definition hashtable_insert ::
    "bool \<Rightarrow> hashtable \<Rightarrow> ptr \<Rightarrow> store \<Rightarrow> (bool \<times> hashtable \<times> store) option" where
  "hashtable_insert mem h kv st =
     (if upper_loadlimit h < entrycount h + 1
      then map_option
             (\<lambda>(h', st). case h' of None \<Rightarrow> (False, h, st)
                          | Some h1 \<Rightarrow> (True, hashtable_link h1 kv st))
             (hashtable_expand mem h True st)
      else Some (True, hashtable_link h kv st))"

text \<open>\<open>for (e = start; e != NULL && k != e->h; e = e->next);\<close>\<close>

partial_function (option) chain_find :: "ptr \<Rightarrow> ptr \<Rightarrow> store \<Rightarrow> ptr option" where
  "chain_find k e st =
     (if e \<noteq> NULL \<and> k \<noteq> xt_h (st e) then chain_find k (xt_next (st e)) st else Some e)"

definition cache_hit :: "hashtable \<Rightarrow> nat \<Rightarrow> ptr \<Rightarrow> store \<Rightarrow> bool" where
  "cache_hit h i k st \<longleftrightarrow> cache h ! i \<noteq> NULL \<and> xt_h (st (cache h ! i)) = k"

definition hashtable_search :: "hashtable \<Rightarrow> ptr \<Rightarrow> store \<Rightarrow> (ptr \<times> hashtable) res option" where
  "hashtable_search h k st =
     (if cache_hit h 0 k st then Some (Inr (cache h ! 0, h))
      else if cache_hit h 1 k st then Some (Inr (cache h ! 1, h))
      else map_option
             (\<lambda>e. if e = NULL then Inl (Errquit ''hashtable search for key : %p failed.'')
                  else Inr (e, cache_push e h))
             (chain_find k (table h ! unat (indexFor (tablelength h) k)) st))"

text \<open>\<open>for (e = start, pv = NULL; e != NULL && k != e->h; pv = e, e = e->next);\<close>\<close>

partial_function (option) chain_find_prev :: "ptr \<Rightarrow> ptr \<Rightarrow> ptr \<Rightarrow> store \<Rightarrow> (ptr \<times> ptr) option" where
  "chain_find_prev k pv e st =
     (if e \<noteq> NULL \<and> k \<noteq> xt_h (st e) then chain_find_prev k e (xt_next (st e)) st else Some (pv, e))"

definition cache_invalidate :: "hashtable \<Rightarrow> ptr \<Rightarrow> store \<Rightarrow> hashtable" where
  "cache_invalidate h k st =
     (if cache_hit h 0 k st then h\<lparr>cache := (cache h)[0 := NULL]\<rparr>
      else if cache_hit h 1 k st then h\<lparr>cache := (cache h)[1 := NULL]\<rparr>
      else h)"

definition hashtable_unlink :: "hashtable \<Rightarrow> nat \<Rightarrow> ptr \<Rightarrow> ptr \<Rightarrow> store \<Rightarrow> hashtable \<times> store" where
  "hashtable_unlink h1 index pv e st =
     (let h1 = h1\<lparr>entrycount := entrycount h1 - 1\<rparr>
      in if pv = NULL then (h1\<lparr>table := (table h1)[index := xt_next (st e)]\<rparr>, st)
         else if xt_next (st e) = pv then (h1, set_next pv NULL st)
         else (h1, set_next pv (xt_next (st e)) st))"

definition hashtable_remove ::
    "bool \<Rightarrow> hashtable \<Rightarrow> ptr \<Rightarrow> store \<Rightarrow> (bool \<times> hashtable \<times> store) res option" where
  "hashtable_remove mem h k st =
     (let h1 = cache_invalidate h k st;
          index = unat (indexFor (tablelength h1) k)
      in Option.bind (chain_find_prev k NULL (table h1 ! index) st)
           (\<lambda>(pv, e).
              if e = NULL then Some (Inl (Errquit ''Attempting to remove a non-existent key''))
              else let (h1, st) = hashtable_unlink h1 index pv e st
                   in if 0 < primeindex h1 \<and> entrycount h1 \<le> lower_loadlimit h1
                      then map_option
                             (\<lambda>(h', st). case h' of None \<Rightarrow> Inr (False, h1, st)
                                          | Some h2 \<Rightarrow> Inr (True, h2, st))
                             (hashtable_expand mem h1 False st)
                      else Some (Inr (True, h1, st))))"

subsection \<open>Chains and buckets\<close>

text \<open>\<open>chain st p es\<close>: following \<open>next\<close> from \<open>p\<close> visits exactly the entries \<open>es\<close> and ends at null.\<close>

fun chain :: "store \<Rightarrow> ptr \<Rightarrow> ptr list \<Rightarrow> bool" where
  "chain st p [] \<longleftrightarrow> p = NULL"
| "chain st p (e # es) \<longleftrightarrow> p = e \<and> e \<noteq> NULL \<and> chain st (xt_next (st e)) es"

text \<open>The stores the table operations produce differ from the given one only in \<open>next\<close> fields.\<close>

definition same_but_next :: "ptr set \<Rightarrow> store \<Rightarrow> store \<Rightarrow> bool" where
  "same_but_next A st st' \<longleftrightarrow>
     (\<forall>e. e \<notin> A \<longrightarrow> st' e = st e) \<and> (\<forall>e. \<exists>n. st' e = (st e)\<lparr>xt_next := n\<rparr>)"

definition bucket_of :: "u32 \<Rightarrow> store \<Rightarrow> ptr \<Rightarrow> nat" where
  "bucket_of sz st e = unat (indexFor sz (xt_h (st e)))"

definition place :: "u32 \<Rightarrow> store \<Rightarrow> ptr \<Rightarrow> ptr list list \<Rightarrow> ptr list list" where
  "place sz st e bs = bs[bucket_of sz st e := e # bs ! bucket_of sz st e]"

definition placed :: "u32 \<Rightarrow> store \<Rightarrow> ptr list list \<Rightarrow> bool" where
  "placed sz st bs \<longleftrightarrow> (\<forall>i < length bs. \<forall>e \<in> set (bs ! i). bucket_of sz st e = i)"

lemma set_next_sel [simp]:
  "xt_next (set_next e n st e) = n" "x \<noteq> e \<Longrightarrow> set_next e n st x = st x"
  unfolding set_next_def by simp_all

lemma concat_nth_split:
  assumes "i < length bs"
  shows "concat bs = concat (take i bs) @ bs ! i @ concat (drop (Suc i) bs)"
  using assms by (metis Cons_nth_drop_Suc append_take_drop_id concat.simps(2) concat_append)

lemma concat_update_split:
  assumes "i < length bs"
  shows "concat (bs[i := b]) = concat (take i bs) @ b @ concat (drop (Suc i) bs)"
  using assms by (simp add: upd_conv_take_nth_drop)

lemma set_concat_update_Cons:
  assumes "i < length bs"
  shows "set (concat (bs[i := e # bs ! i])) = insert e (set (concat bs))"
  by (simp only: concat_update_split [OF assms] concat_nth_split [OF assms] set_append list.set) blast

lemma distinct_concat_update_Cons:
  assumes "i < length bs"
  shows "distinct (concat (bs[i := e # bs ! i])) \<longleftrightarrow> e \<notin> set (concat bs) \<and> distinct (concat bs)"
  by (simp only: concat_update_split [OF assms] concat_nth_split [OF assms]) auto

lemma length_concat_update_Cons:
  assumes "i < length bs"
  shows "length (concat (bs[i := e # bs ! i])) = Suc (length (concat bs))"
  by (simp only: concat_update_split [OF assms] concat_nth_split [OF assms]) simp

lemma same_but_next_refl [simp]: "same_but_next A st st"
proof -
  have "st e = (st e)\<lparr>xt_next := xt_next (st e)\<rparr>" for e by simp
  then show ?thesis unfolding same_but_next_def by blast
qed

lemma same_but_next_set_next [simp]: "e \<in> A \<Longrightarrow> same_but_next A st (set_next e n st)"
proof -
  have "st x = (st x)\<lparr>xt_next := xt_next (st x)\<rparr>" for x by simp
  then show "e \<in> A \<Longrightarrow> same_but_next A st (set_next e n st)"
    unfolding same_but_next_def set_next_def by (metis fun_upd_other fun_upd_same)
qed

lemma same_but_next_trans:
  assumes "same_but_next A st st'" "same_but_next B st' st''"
  shows "same_but_next (A \<union> B) st st''"
proof -
  have "\<exists>n. st'' e = (st e)\<lparr>xt_next := n\<rparr>" for e
  proof -
    obtain m where "st' e = (st e)\<lparr>xt_next := m\<rparr>" using assms(1) unfolding same_but_next_def by blast
    moreover obtain n where "st'' e = (st' e)\<lparr>xt_next := n\<rparr>"
      using assms(2) unfolding same_but_next_def by blast
    ultimately show ?thesis by auto
  qed
  then show ?thesis using assms unfolding same_but_next_def by auto
qed

lemma same_but_next_h: "same_but_next A st st' \<Longrightarrow> xt_h (st' e) = xt_h (st e)"
  unfolding same_but_next_def by (metis xtree_handle.ext_inject xtree_handle.surjective xtree_handle.update_convs(2))

lemma same_but_next_other: "same_but_next A st st' \<Longrightarrow> e \<notin> A \<Longrightarrow> st' e = st e"
  unfolding same_but_next_def by blast

lemma same_but_next_mono: "same_but_next A st st' \<Longrightarrow> A \<subseteq> B \<Longrightarrow> same_but_next B st st'"
  unfolding same_but_next_def by blast

lemma chain_frame:
  assumes "same_but_next A st st'" "A \<inter> set es = {}"
  shows "chain st' p es = chain st p es"
  using assms(2) by (induction es arbitrary: p) (auto simp: same_but_next_other [OF assms(1)])

lemma chain_nonnull: "chain st p es \<Longrightarrow> NULL \<notin> set es"
  by (induction es arbitrary: p) auto

lemma bucket_of_cong: "same_but_next A st st' \<Longrightarrow> bucket_of sz st' = bucket_of sz st"
  unfolding bucket_of_def by (auto simp: same_but_next_h fun_eq_iff)

lemma bucket_of_less: "sz \<noteq> 0 \<Longrightarrow> bucket_of sz st e < unat sz"
  unfolding bucket_of_def indexFor_def by (simp add: unat_mod unat_gt_0 word_gt_0)

lemma length_place [simp]: "length (place sz st e bs) = length bs"
  unfolding place_def by simp

lemma list_all2_chain_frame:
  assumes "same_but_next A st st'" "A \<inter> set (concat bs) = {}"
  shows "list_all2 (chain st') tbl bs = list_all2 (chain st) tbl bs"
proof -
  have "chain st' p (bs ! i) = chain st p (bs ! i)" if "i < length bs" for i p
  proof (rule chain_frame [OF assms(1)])
    show "A \<inter> set (bs ! i) = {}" using assms(2) that by (auto dest: nth_mem)
  qed
  then show ?thesis unfolding list_all2_conv_all_nth by auto
qed

lemma list_all2_chain_place:
  assumes "list_all2 (chain st) tbl bs" and "e \<notin> set (concat bs)" and "e \<noteq> NULL"
    and "i < length bs"
  shows "list_all2 (chain (set_next e (tbl ! i) st)) (tbl[i := e]) (bs[i := e # bs ! i])"
proof (rule list_all2_update_cong)
  have frame: "same_but_next {e} st (set_next e (tbl ! i) st)" by simp
  then show "list_all2 (chain (set_next e (tbl ! i) st)) tbl bs"
    using assms by (subst list_all2_chain_frame [OF frame]) auto
  have "chain st (tbl ! i) (bs ! i)" using assms by (auto dest: list_all2_nthD2)
  moreover have "{e} \<inter> set (bs ! i) = {}" using assms(2,4) by (force simp: in_set_conv_nth)
  ultimately have "chain (set_next e (tbl ! i) st) (tbl ! i) (bs ! i)"
    using chain_frame [OF frame] by blast
  then show "chain (set_next e (tbl ! i) st) e (e # bs ! i)"
    using assms(3) by (simp add: set_next_def)
qed

text \<open>The list-level content of a rehash: every entry of \<open>es\<close> is put in front of its new bucket.\<close>

definition place_all :: "u32 \<Rightarrow> store \<Rightarrow> ptr list \<Rightarrow> ptr list list \<Rightarrow> ptr list list" where
  "place_all sz st es bs = fold (place sz st) es bs"

lemma place_all_simps [simp]:
  "place_all sz st [] bs = bs"
  "place_all sz st (e # es) bs = place_all sz st es (place sz st e bs)"
  "place_all sz st (es @ es') bs = place_all sz st es' (place_all sz st es bs)"
  unfolding place_all_def by simp_all

lemma place_all_cong: "same_but_next A st st' \<Longrightarrow> place_all sz st' es bs = place_all sz st es bs"
  unfolding place_all_def place_def by (simp add: bucket_of_cong)

lemma place_contents:
  assumes "length bs = unat sz" "sz \<noteq> 0"
  shows "set (concat (place sz st e bs)) = insert e (set (concat bs))"
    and "distinct (concat (place sz st e bs)) \<longleftrightarrow> e \<notin> set (concat bs) \<and> distinct (concat bs)"
    and "length (concat (place sz st e bs)) = Suc (length (concat bs))"
proof -
  have i: "bucket_of sz st e < length bs" using assms bucket_of_less by simp
  show "set (concat (place sz st e bs)) = insert e (set (concat bs))"
    unfolding place_def by (rule set_concat_update_Cons [OF i])
  show "distinct (concat (place sz st e bs)) \<longleftrightarrow> e \<notin> set (concat bs) \<and> distinct (concat bs)"
    unfolding place_def by (rule distinct_concat_update_Cons [OF i])
  show "length (concat (place sz st e bs)) = Suc (length (concat bs))"
    unfolding place_def by (rule length_concat_update_Cons [OF i])
qed

lemma placed_place: "placed sz st bs \<Longrightarrow> placed sz st (place sz st e bs)"
  unfolding placed_def place_def
  by (cases "bucket_of sz st e < length bs") (auto simp: nth_list_update split: if_splits)

lemma place_all_contents:
  assumes "length bs = unat sz" "sz \<noteq> 0" "distinct (es @ concat bs)" "placed sz st bs"
  shows "set (concat (place_all sz st es bs)) = set es \<union> set (concat bs)
     \<and> distinct (concat (place_all sz st es bs))
     \<and> length (concat (place_all sz st es bs)) = length es + length (concat bs)
     \<and> length (place_all sz st es bs) = length bs \<and> placed sz st (place_all sz st es bs)"
  using assms
proof (induction es arbitrary: bs)
  case (Cons e es)
  note c = place_contents [OF Cons.prems(1,2), of st e]
  have "distinct (es @ concat (place sz st e bs))"
    using Cons.prems(3) unfolding distinct_append c(1,2) by auto
  from Cons.IH [OF _ Cons.prems(2) this placed_place [OF Cons.prems(4)]]
  show ?case using Cons.prems(1) c(1,3) by simp
qed simp

lemma rehash_bucket_Some:
  assumes "chain st t es" "list_all2 (chain st) tbl bs" "distinct (es @ concat bs)"
    and "length bs = unat sz" "sz \<noteq> 0"
  shows "\<exists>tbl' st'. rehash_bucket sz t tbl st = Some (tbl', st') \<and> same_but_next (set es) st st'
     \<and> list_all2 (chain st') tbl' (place_all sz st es bs)"
  using assms
proof (induction es arbitrary: t tbl bs st)
  case Nil
  then show ?case by (subst rehash_bucket.simps) simp
next
  case (Cons e es)
  let ?i = "bucket_of sz st e"
  let ?st = "set_next e (tbl ! ?i) st"
  have t: "t = e" "e \<noteq> NULL" "chain st (xt_next (st e)) es" using Cons.prems(1) by auto
  have ne: "xt_next (st e) \<noteq> e"
    using t Cons.prems(3) by (cases es) auto
  have frame: "same_but_next {e} st ?st" by simp
  have ch: "chain ?st (xt_next (st e)) es"
    using t(3) Cons.prems(3) chain_frame [OF frame, of es] by simp
  have i: "?i < length bs" using Cons.prems(4,5) bucket_of_less by simp
  have l: "list_all2 (chain ?st) (tbl[?i := e]) (place sz st e bs)"
    unfolding place_def using Cons.prems(2,3) t(2) i by (intro list_all2_chain_place) auto
  note c = place_contents [OF Cons.prems(4,5), of st e]
  have d: "distinct (es @ concat (place sz st e bs))"
    using Cons.prems(3) unfolding distinct_append c(1,2) by auto
  obtain tbl' st' where
    r: "rehash_bucket sz (xt_next (st e)) (tbl[?i := e]) ?st = Some (tbl', st')"
       "same_but_next (set es) ?st st'"
       "list_all2 (chain st') tbl' (place_all sz ?st es (place sz st e bs))"
    using Cons.IH [OF ch l d] Cons.prems(4,5) by auto
  have "rehash_bucket sz t tbl st = Some (tbl', st')"
    using r(1) t(1,2) ne by (subst rehash_bucket.simps) (simp add: Let_def bucket_of_def)
  moreover have "same_but_next (set (e # es)) st st'"
    using same_but_next_trans [OF frame r(2)] by simp
  ultimately show ?case using r(3) place_all_cong [OF frame] by auto
qed

lemma rehash_all_Some:
  assumes "list_all2 (chain st) ps ess" "list_all2 (chain st) tbl bs"
    and "distinct (concat ess @ concat bs)" "placed sz st bs" "length bs = unat sz" "sz \<noteq> 0"
  shows "\<exists>tbl' st'. rehash_all sz ps tbl st = Some (tbl', st') \<and> same_but_next (set (concat ess)) st st'
     \<and> list_all2 (chain st') tbl' (place_all sz st (concat ess) bs)"
  using assms
proof (induction ess arbitrary: ps tbl bs st rule: list.induct)
  case (Cons es ess)
  obtain p ps' where ps: "ps = p # ps'" "chain st p es" "list_all2 (chain st) ps' ess"
    using Cons.prems(1) by (auto simp: list_all2_Cons2)
  have d: "distinct (es @ concat bs)" using Cons.prems(3) by auto
  obtain tbl1 st1 where
    b: "rehash_bucket sz p tbl st = Some (tbl1, st1)" "same_but_next (set es) st st1"
       "list_all2 (chain st1) tbl1 (place_all sz st es bs)"
    using rehash_bucket_Some [OF ps(2) Cons.prems(2) d Cons.prems(5,6)] by auto
  note c = place_all_contents [OF Cons.prems(5,6) d Cons.prems(4)]
  have l: "list_all2 (chain st1) ps' ess"
    using ps(3) Cons.prems(3) by (subst list_all2_chain_frame [OF b(2)]) auto
  have d1: "distinct (concat ess @ concat (place_all sz st es bs))"
    using Cons.prems(3) c by auto
  have p1: "placed sz st1 (place_all sz st es bs)"
    using c unfolding placed_def by (simp add: bucket_of_cong [OF b(2)])
  have len: "length (place_all sz st es bs) = unat sz" using c Cons.prems(5) by simp
  obtain tbl' st' where
    r: "rehash_all sz ps' tbl1 st1 = Some (tbl', st')" "same_but_next (set (concat ess)) st1 st'"
       "list_all2 (chain st') tbl' (place_all sz st1 (concat ess) (place_all sz st es bs))"
    using Cons.IH [OF l b(3) d1 p1 len Cons.prems(6)] by auto
  show ?case
    using ps(1) b(1) r same_but_next_trans [OF b(2) r(2)] place_all_cong [OF b(2)] by auto
qed simp

subsection \<open>The representation invariant\<close>

definition ht_rep :: "hashtable \<Rightarrow> store \<Rightarrow> ptr list list \<Rightarrow> bool" where
  "ht_rep h st bs \<longleftrightarrow>
     primeindex h < prime_table_length \<and> tablelength h = primes ! primeindex h
     \<and> length bs = unat (tablelength h) \<and> list_all2 (chain st) (table h) bs
     \<and> distinct (concat bs) \<and> placed (tablelength h) st bs
     \<and> entrycount h = of_nat (length (concat bs))"

definition cache_ok :: "hashtable \<Rightarrow> ptr set \<Rightarrow> bool" where
  "cache_ok h E \<longleftrightarrow>
     length (cache h) = H_CACHE_SIZE \<and> cache_idx h < H_CACHE_SIZE
     \<and> (\<forall>i < H_CACHE_SIZE. cache h ! i \<noteq> NULL \<longrightarrow> cache h ! i \<in> E)
     \<and> (cache h ! 0 \<noteq> NULL \<longrightarrow> cache h ! 0 \<noteq> cache h ! 1)"

text \<open>\<open>ht_refines h st m\<close>: table \<open>h\<close> in store \<open>st\<close> implements the finite map \<open>m\<close> from keys to entries.\<close>

definition ht_refines :: "hashtable \<Rightarrow> store \<Rightarrow> (ptr \<rightharpoonup> ptr) \<Rightarrow> bool" where
  "ht_refines h st m \<longleftrightarrow>
     (\<exists>bs. ht_rep h st bs \<and> cache_ok h (set (concat bs))
           \<and> (\<forall>k e. m k = Some e \<longleftrightarrow> e \<in> set (concat bs) \<and> xt_h (st e) = k))"

lemma primes_nonzero: "i < prime_table_length \<Longrightarrow> primes ! i \<noteq> 0"
proof -
  have "list_all (\<lambda>p. p \<noteq> 0) primes" by (simp add: primes_def)
  then show "i < prime_table_length \<Longrightarrow> primes ! i \<noteq> 0"
    unfolding prime_table_length_def by (simp add: list_all_length)
qed

lemma primes_increasing: "Suc i < prime_table_length \<Longrightarrow> primes ! i < primes ! Suc i"
proof -
  have "sorted_wrt (<) primes" by (simp add: primes_def)
  then show "Suc i < prime_table_length \<Longrightarrow> primes ! i < primes ! Suc i"
    unfolding prime_table_length_def by (simp add: sorted_wrt_nth_less)
qed

lemma ht_rep_nonzero: "ht_rep h st bs \<Longrightarrow> tablelength h \<noteq> 0"
  unfolding ht_rep_def using primes_nonzero by auto

lemma hashtable_expand_rep:
  assumes rep: "ht_rep h st bs"
  shows "\<exists>h' st'. hashtable_expand mem h grow st = Some (h', st')
     \<and> same_but_next (set (concat bs)) st st'
     \<and> (case h' of
          None \<Rightarrow> st' = st \<and> (mem \<longrightarrow> grow \<and> primeindex h = prime_table_length - 1)
        | Some h1 \<Rightarrow> \<exists>bs'. ht_rep h1 st' bs' \<and> set (concat bs') = set (concat bs)
            \<and> length (concat bs') = length (concat bs)
            \<and> cache h1 = cache h \<and> cache_idx h1 = cache_idx h)"
proof (cases "grow \<and> primeindex h = prime_table_length - 1 \<or> \<not> grow \<and> primeindex h = 0 \<or> \<not> mem")
  case True
  then show ?thesis using rep unfolding hashtable_expand_def Let_def by auto
next
  case False
  define i where "i = (if grow then primeindex h + 1 else primeindex h - 1)"
  define sz where "sz = primes ! i"
  have i: "i < prime_table_length" using False rep unfolding i_def ht_rep_def by auto
  then have nz: "sz \<noteq> 0" unfolding sz_def by (rule primes_nonzero)
  let ?bs0 = "replicate (unat sz) ([] :: ptr list)"
  have c0: "concat ?bs0 = []" by simp
  have l0: "list_all2 (chain st) (replicate (unat sz) NULL) ?bs0"
    by (simp add: list_all2_conv_all_nth)
  have p0: "placed sz st ?bs0" unfolding placed_def by simp
  have d0: "distinct (concat bs @ concat ?bs0)" using rep unfolding c0 ht_rep_def by simp
  have old: "list_all2 (chain st) (table h) bs" using rep unfolding ht_rep_def by simp
  obtain tbl st' where
    r: "rehash_all sz (table h) (replicate (unat sz) NULL) st = Some (tbl, st')"
       "same_but_next (set (concat bs)) st st'"
       "list_all2 (chain st') tbl (place_all sz st (concat bs) ?bs0)"
    using rehash_all_Some [OF old l0 d0 p0 _ nz] by auto
  note c = place_all_contents [OF _ nz d0 p0, unfolded c0]
  let ?h = "h\<lparr>table := tbl, primeindex := i, tablelength := sz,
    upper_loadlimit := load_limit sz max_load_factor, lower_loadlimit := load_limit sz min_load_factor\<rparr>"
  have "ht_rep ?h st' (place_all sz st (concat bs) ?bs0)"
    using c r(3) i rep unfolding ht_rep_def placed_def
    by (simp add: bucket_of_cong [OF r(2)] sz_def)
  moreover have "hashtable_expand mem h grow st = Some (Some ?h, st')"
    using False r(1) unfolding hashtable_expand_def Let_def sz_def i_def by (cases grow) simp_all
  ultimately show ?thesis using r(2) c by fastforce
qed

lemma placed_cong: "same_but_next A st st' \<Longrightarrow> placed sz st' bs = placed sz st bs"
  unfolding placed_def by (simp add: bucket_of_cong)

lemma ht_refines_ran:
  assumes "\<And>k e. m k = Some e \<longleftrightarrow> e \<in> set (concat bs) \<and> xt_h (st e) = k"
  shows "ran m = set (concat bs)"
  using assms unfolding ran_def by blast

text \<open>Growing and shrinking do not change the map; they can only fail without any effect.\<close>

lemma hashtable_expand_spec:
  assumes "ht_refines h st m"
  shows "\<exists>h' st'. hashtable_expand mem h grow st = Some (h', st') \<and> same_but_next (ran m) st st'
     \<and> (case h' of
          None \<Rightarrow> st' = st \<and> (mem \<longrightarrow> grow \<and> primeindex h = prime_table_length - 1)
        | Some h1 \<Rightarrow> ht_refines h1 st' m)"
proof -
  obtain bs where bs: "ht_rep h st bs" "cache_ok h (set (concat bs))"
    and m: "\<And>k e. m k = Some e \<longleftrightarrow> e \<in> set (concat bs) \<and> xt_h (st e) = k"
    using assms unfolding ht_refines_def by blast
  obtain h' st' where e: "hashtable_expand mem h grow st = Some (h', st')"
    "same_but_next (set (concat bs)) st st'"
    "case h' of
          None \<Rightarrow> st' = st \<and> (mem \<longrightarrow> grow \<and> primeindex h = prime_table_length - 1)
        | Some h1 \<Rightarrow> \<exists>bs'. ht_rep h1 st' bs' \<and> set (concat bs') = set (concat bs)
            \<and> length (concat bs') = length (concat bs)
            \<and> cache h1 = cache h \<and> cache_idx h1 = cache_idx h"
    using hashtable_expand_rep [OF bs(1)] by blast
  have "ht_refines h1 st' m" if h': "h' = Some h1" for h1
  proof -
    obtain bs' where b: "ht_rep h1 st' bs'" "set (concat bs') = set (concat bs)"
      "cache h1 = cache h" "cache_idx h1 = cache_idx h"
      using e(3) unfolding h' option.case by blast
    have "cache_ok h1 (set (concat bs'))" using bs(2) b unfolding cache_ok_def by simp
    moreover have "m k = Some x \<longleftrightarrow> x \<in> set (concat bs') \<and> xt_h (st' x) = k" for k x
      unfolding b(2) same_but_next_h [OF e(2)] by (rule m)
    ultimately show ?thesis using b(1) unfolding ht_refines_def by blast
  qed
  then show ?thesis using e ht_refines_ran [OF m] by (cases h') auto
qed

subsection \<open>The cache\<close>

lemma less_H_CACHE_SIZE: "i < H_CACHE_SIZE \<longleftrightarrow> i = 0 \<or> i = 1"
  unfolding H_CACHE_SIZE_def by auto

lemma cache_push_sel [simp]:
  "table (cache_push e h) = table h" "tablelength (cache_push e h) = tablelength h"
  "primeindex (cache_push e h) = primeindex h" "entrycount (cache_push e h) = entrycount h"
  unfolding cache_push_def by (simp_all add: Let_def)

lemma cache_ok_push:
  assumes "cache_ok h E" "e \<noteq> NULL" "\<forall>i < H_CACHE_SIZE. cache h ! i \<noteq> e"
  shows "cache_ok (cache_push e h) (insert e E)"
proof -
  obtain a b where ab: "cache h = [a, b]"
    using assms(1) unfolding cache_ok_def H_CACHE_SIZE_def
    by (auto simp: length_Suc_conv numeral_2_eq_2)
  have idx: "cache_idx h = 0 \<or> cache_idx h = 1"
    using assms(1) unfolding cache_ok_def less_H_CACHE_SIZE by blast
  have ne: "a \<noteq> e" "b \<noteq> e" using assms(3) unfolding less_H_CACHE_SIZE ab by auto
  have E: "a \<noteq> NULL \<longrightarrow> a \<in> E \<and> a \<noteq> b" "b \<noteq> NULL \<longrightarrow> b \<in> E"
    using assms(1) unfolding cache_ok_def less_H_CACHE_SIZE ab by auto
  show ?thesis
    using idx ne E assms(2) unfolding cache_ok_def cache_push_def less_H_CACHE_SIZE Let_def
    by (auto simp: ab H_CACHE_SIZE_def)
qed

lemma ht_rep_cache_push [simp]: "ht_rep (cache_push e h) st bs = ht_rep h st bs"
  unfolding ht_rep_def by simp

lemma cache_invalidate_sel [simp]:
  "table (cache_invalidate h k st) = table h" "tablelength (cache_invalidate h k st) = tablelength h"
  "primeindex (cache_invalidate h k st) = primeindex h"
  "entrycount (cache_invalidate h k st) = entrycount h"
  "lower_loadlimit (cache_invalidate h k st) = lower_loadlimit h"
  unfolding cache_invalidate_def by simp_all

text \<open>
  \<open>hashtable_remove\<close> clears at most one slot; since the slots never hold the same entry, this
  removes the only copy.
\<close>

lemma cache_ok_invalidate:
  assumes "cache_ok h E" and "\<And>e'. e' \<in> E \<Longrightarrow> xt_h (st e') = k \<Longrightarrow> e' = e" and "xt_h (st e) = k"
  shows "cache_ok (cache_invalidate h k st) (E - {e})"
proof -
  obtain a b where ab: "cache h = [a, b]"
    using assms(1) unfolding cache_ok_def H_CACHE_SIZE_def
    by (auto simp: length_Suc_conv numeral_2_eq_2)
  have E: "a \<noteq> NULL \<longrightarrow> a \<in> E \<and> a \<noteq> b" "b \<noteq> NULL \<longrightarrow> b \<in> E" "cache_idx h = 0 \<or> cache_idx h = 1"
    using assms(1) unfolding cache_ok_def less_H_CACHE_SIZE ab by auto
  have u: "\<And>x. x \<in> E \<Longrightarrow> xt_h (st x) = k \<longleftrightarrow> x = e" using assms(2,3) by blast
  show ?thesis
    using E u [of a] u [of b] unfolding cache_ok_def cache_invalidate_def cache_hit_def less_H_CACHE_SIZE
    by (auto simp: ab H_CACHE_SIZE_def)
qed

subsection \<open>Insertion\<close>

lemma hashtable_insert_link:
  assumes rep: "ht_rep h st bs" and fresh: "kv \<notin> set (concat bs)" and nn: "kv \<noteq> NULL"
  defines "i \<equiv> bucket_of (tablelength h) st kv"
  shows "ht_rep (h\<lparr>entrycount := entrycount h + 1, table := (table h)[i := kv]\<rparr>)
           (set_next kv (table h ! i) st) (place (tablelength h) st kv bs)"
proof -
  let ?st = "set_next kv (table h ! i) st"
  note nz = ht_rep_nonzero [OF rep]
  have len: "length bs = unat (tablelength h)" using rep unfolding ht_rep_def by simp
  have i: "i < length bs" unfolding i_def len by (rule bucket_of_less [OF nz])
  note c = place_contents [OF len nz, of st kv]
  have frame: "same_but_next {kv} st ?st" by simp
  have "list_all2 (chain ?st) ((table h)[i := kv]) (place (tablelength h) st kv bs)"
    unfolding place_def i_def [symmetric]
    using rep fresh nn i by (intro list_all2_chain_place) (auto simp: ht_rep_def)
  moreover have "placed (tablelength h) ?st (place (tablelength h) st kv bs)"
    using rep placed_place unfolding ht_rep_def placed_cong [OF frame] by blast
  moreover have "distinct (concat (place (tablelength h) st kv bs))"
    using c(2) rep fresh unfolding ht_rep_def by blast
  ultimately show ?thesis using rep unfolding ht_rep_def c(3) by simp
qed

lemma hashtable_link_spec:
  assumes ref: "ht_refines h st m" and fresh: "m (xt_h (st kv)) = None" and nn: "kv \<noteq> NULL"
    and eq: "hashtable_link h kv st = (h', st')"
  shows "ht_refines h' st' (m(xt_h (st kv) \<mapsto> kv))" and "same_but_next {kv} st st'"
proof -
  obtain bs where bs: "ht_rep h st bs" "cache_ok h (set (concat bs))"
    and m: "\<And>k e. m k = Some e \<longleftrightarrow> e \<in> set (concat bs) \<and> xt_h (st e) = k"
    using ref unfolding ht_refines_def by blast
  have new: "kv \<notin> set (concat bs)" using fresh m by (metis option.distinct(1))
  define i where "i = bucket_of (tablelength h) st kv"
  define h1 where "h1 = h\<lparr>entrycount := entrycount h + 1, table := (table h)[i := kv]\<rparr>"
  define st1 where "st1 = set_next kv (table h ! i) st"
  let ?bs = "place (tablelength h) st kv bs"
  have link: "ht_rep h1 st1 ?bs"
    unfolding h1_def st1_def i_def by (rule hashtable_insert_link [OF bs(1) new nn])
  note nz = ht_rep_nonzero [OF bs(1)]
  have len: "length bs = unat (tablelength h)" using bs(1) unfolding ht_rep_def by simp
  note c = place_contents(1) [OF len nz, of st kv]
  have i: "i < length bs" unfolding i_def len by (rule bucket_of_less [OF nz])
  have "chain st (table h ! i) (bs ! i)"
    using bs(1) i unfolding ht_rep_def by (auto dest: list_all2_nthD2)
  moreover have "kv \<notin> set (bs ! i)" using new i by (auto dest: nth_mem)
  ultimately have noloop: "table h ! i \<noteq> kv" using nn by (cases "bs ! i") auto
  have res: "h' = cache_push kv h1" "st' = st1"
    using eq noloop unfolding hashtable_link_def h1_def st1_def i_def bucket_of_def
    by (auto simp: Let_def set_next_def)
  show frame: "same_but_next {kv} st st'" unfolding res st1_def by simp
  have "cache_ok h1 (set (concat bs))" using bs(2) unfolding cache_ok_def h1_def by simp
  moreover have "\<forall>j < H_CACHE_SIZE. cache h1 ! j \<noteq> kv"
    using bs(2) new nn unfolding cache_ok_def h1_def by auto
  ultimately have "cache_ok h' (set (concat ?bs))"
    unfolding res c by (intro cache_ok_push nn)
  moreover have "(m(xt_h (st kv) \<mapsto> kv)) k = Some e \<longleftrightarrow> e \<in> set (concat ?bs) \<and> xt_h (st' e) = k" for k e
    using m [of k e] m [of "xt_h (st kv)" e] fresh new unfolding c same_but_next_h [OF frame]
    by (cases "k = xt_h (st kv)") auto
  ultimately show "ht_refines h' st' (m(xt_h (st kv) \<mapsto> kv))"
    unfolding ht_refines_def using link ht_rep_cache_push res by blast
qed

lemma hashtable_insert_spec:
  assumes ref: "ht_refines h st m" and fresh: "m (xt_h (st kv)) = None" and nn: "kv \<noteq> NULL"
  shows "\<exists>r h' st'. hashtable_insert mem h kv st = Some (r, h', st')
     \<and> same_but_next (insert kv (ran m)) st st'
     \<and> (if r then ht_refines h' st' (m(xt_h (st kv) \<mapsto> kv))
        else h' = h \<and> st' = st \<and> (mem \<longrightarrow> primeindex h = prime_table_length - 1))"
proof (cases "upper_loadlimit h < entrycount h + 1")
  case False
  obtain h' st' where l: "hashtable_link h kv st = (h', st')" by fastforce
  show ?thesis
    using False l hashtable_link_spec [OF ref fresh nn l] same_but_next_mono
    unfolding hashtable_insert_def by auto
next
  case True
  obtain h1 st1 where e: "hashtable_expand mem h True st = Some (h1, st1)" "same_but_next (ran m) st st1"
    "case h1 of None \<Rightarrow> st1 = st \<and> (mem \<longrightarrow> True \<and> primeindex h = prime_table_length - 1)
     | Some h2 \<Rightarrow> ht_refines h2 st1 m"
    using hashtable_expand_spec [OF ref] by blast
  show ?thesis
  proof (cases h1)
    case None
    then show ?thesis using True e unfolding hashtable_insert_def by auto
  next
    case (Some h2)
    obtain h' st' where l: "hashtable_link h2 kv st1 = (h', st')" by fastforce
    have f: "m (xt_h (st1 kv)) = None" using fresh same_but_next_h [OF e(2)] by simp
    have ref2: "ht_refines h2 st1 m" using e(3) Some by simp
    have "ht_refines h' st' (m(xt_h (st kv) \<mapsto> kv))" "same_but_next {kv} st1 st'"
      using hashtable_link_spec [OF ref2 f nn l] by (simp_all add: same_but_next_h [OF e(2)])
    then show ?thesis
      using True e(1) Some l same_but_next_trans [OF e(2)] unfolding hashtable_insert_def by fastforce
  qed
qed

subsection \<open>Search\<close>

lemma chain_find_Some:
  assumes "chain st p es"
  shows "chain_find k p st = Some (case find (\<lambda>e. xt_h (st e) = k) es of None \<Rightarrow> NULL | Some e \<Rightarrow> e)"
  using assms
proof (induction es arbitrary: p)
  case Nil
  then show ?case by (subst chain_find.simps) simp
next
  case (Cons e es)
  then show ?case by (subst chain_find.simps) auto
qed

lemma ht_rep_bucket:
  fixes k :: ptr
  assumes "ht_rep h st bs"
  defines "i \<equiv> unat (indexFor (tablelength h) k)"
  shows "i < length bs" "i < length (table h)" "chain st (table h ! i) (bs ! i)" "set (bs ! i) \<subseteq> set (concat bs)"
    and "e \<in> set (concat bs) \<Longrightarrow> xt_h (st e) = k \<Longrightarrow> e \<in> set (bs ! i)"
proof -
  have "i < unat (tablelength h)"
    using ht_rep_nonzero [OF assms(1)] unfolding i_def indexFor_def
    by (simp add: unat_mod unat_gt_0 word_gt_0)
  then show i: "i < length bs" "i < length (table h)" using assms(1)
    unfolding ht_rep_def by (auto dest: list_all2_lengthD)
  show "chain st (table h ! i) (bs ! i)"
    using assms(1) i unfolding ht_rep_def by (auto dest: list_all2_nthD2)
  show "set (bs ! i) \<subseteq> set (concat bs)" using i by (auto dest: nth_mem)
  assume e: "e \<in> set (concat bs)" "xt_h (st e) = k"
  then obtain j where j: "j < length bs" "e \<in> set (bs ! j)"
    by (metis in_set_conv_nth set_concat UN_E)
  then have "bucket_of (tablelength h) st e = j"
    using assms(1) unfolding ht_rep_def placed_def by blast
  then show "e \<in> set (bs ! i)" using j e unfolding i_def bucket_of_def by simp
qed

text \<open>The entry found in the bucket of a key is the map's entry for it.\<close>

lemma ht_find_bucket:
  assumes rep: "ht_rep h st bs" and m: "\<And>k e. m k = Some e \<longleftrightarrow> e \<in> set (concat bs) \<and> xt_h (st e) = k"
  shows "find (\<lambda>e. xt_h (st e) = k) (bs ! unat (indexFor (tablelength h) k)) = m k"
proof (cases "find (\<lambda>e. xt_h (st e) = k) (bs ! unat (indexFor (tablelength h) k))")
  case None
  have "m k \<noteq> Some e" for e
    using None m [of k e] ht_rep_bucket(5) [OF rep, of e k] unfolding find_None_iff by blast
  then show ?thesis using None by (cases "m k") auto
next
  case (Some e)
  then have "e \<in> set (bs ! unat (indexFor (tablelength h) k))" "xt_h (st e) = k"
    by (auto simp: find_Some_iff)
  then have "m k = Some e" using m [of k e] ht_rep_bucket(4) [OF rep, of k] by blast
  then show ?thesis using Some by simp
qed

lemma ht_refines_nonnull:
  assumes rep: "ht_rep h st bs" and m: "\<And>k e. m k = Some e \<longleftrightarrow> e \<in> set (concat bs) \<and> xt_h (st e) = k"
  shows "m k \<noteq> Some NULL"
  using m [of k NULL] ht_rep_bucket(5) [OF rep, of NULL k] chain_nonnull [OF ht_rep_bucket(3) [OF rep, of k]]
  by blast

lemma hashtable_search_spec:
  assumes ref: "ht_refines h st m"
  shows "case m k of
       Some e \<Rightarrow> \<exists>h'. hashtable_search h k st = Some (Inr (e, h')) \<and> ht_refines h' st m
     | None \<Rightarrow> hashtable_search h k st = Some (Inl (Errquit ''hashtable search for key : %p failed.''))"
proof -
  obtain bs where bs: "ht_rep h st bs" "cache_ok h (set (concat bs))"
    and m: "\<And>k e. m k = Some e \<longleftrightarrow> e \<in> set (concat bs) \<and> xt_h (st e) = k"
    using ref unfolding ht_refines_def by blast
  have hit: "m k = Some (cache h ! i)" if "cache_hit h i k st" "i < H_CACHE_SIZE" for i
    using that bs(2) m unfolding cache_hit_def cache_ok_def by blast
  show ?thesis
  proof (cases "cache_hit h 0 k st \<or> cache_hit h 1 k st")
    case True
    then show ?thesis using hit [of 0] hit [of 1] ref
      unfolding hashtable_search_def less_H_CACHE_SIZE by auto
  next
    case False
    note find = chain_find_Some [OF ht_rep_bucket(3) [OF bs(1)], of k k, unfolded ht_find_bucket [OF bs(1) m]]
    have nn: "m k = Some e \<Longrightarrow> e \<noteq> NULL" for e using ht_refines_nonnull [OF bs(1) m] by blast
    have srch: "hashtable_search h k st = Some (case m k of
        None \<Rightarrow> Inl (Errquit ''hashtable search for key : %p failed.'')
      | Some e \<Rightarrow> Inr (e, cache_push e h))"
      using False nn unfolding hashtable_search_def find by (cases "m k") auto
    have "ht_refines (cache_push e h) st m" if k: "m k = Some e" for e
    proof -
      have e: "e \<in> set (concat bs)" "xt_h (st e) = k" using k m by auto
      have "\<forall>i < H_CACHE_SIZE. cache h ! i \<noteq> e"
        using False e(2) nn [OF k] unfolding cache_hit_def less_H_CACHE_SIZE by auto
      then have "cache_ok (cache_push e h) (insert e (set (concat bs)))"
        by (rule cache_ok_push [OF bs(2) nn [OF k]])
      then show ?thesis
        using bs(1) m e(1) unfolding ht_refines_def by (metis ht_rep_cache_push insert_absorb)
    qed
    then show ?thesis using srch by (cases "m k") auto
  qed
qed

subsection \<open>Removal\<close>

lemma chain_find_prev_miss:
  assumes "chain st p es" "\<forall>e \<in> set es. xt_h (st e) \<noteq> k"
  shows "\<exists>pv'. chain_find_prev k pv p st = Some (pv', NULL)"
  using assms
proof (induction es arbitrary: p pv)
  case Nil
  then show ?case by (subst chain_find_prev.simps) simp
next
  case (Cons e es)
  then show ?case by (subst chain_find_prev.simps) auto
qed

lemma chain_find_prev_hit:
  assumes "chain st p (xs @ e # ys)" "\<forall>x \<in> set xs. xt_h (st x) \<noteq> k" "xt_h (st e) = k"
  shows "chain_find_prev k pv p st = Some (if xs = [] then pv else last xs, e)"
  using assms
proof (induction xs arbitrary: p pv)
  case Nil
  then show ?case by (subst chain_find_prev.simps) simp
next
  case (Cons x xs)
  then show ?case by (subst chain_find_prev.simps) auto
qed

lemma chain_mid: "chain st p (xs @ e # ys) \<Longrightarrow> chain st (xt_next (st e)) ys"
  by (induction xs arbitrary: p) auto

lemma chain_unlink:
  assumes "chain st p (xs @ x # e # ys)" "distinct (xs @ x # e # ys)"
  shows "chain (set_next x (xt_next (st e)) st) p (xs @ x # ys)"
  using assms
proof (induction xs arbitrary: p)
  case Nil
  have "chain (set_next x (xt_next (st e)) st) (xt_next (st e)) ys"
    using Nil by (subst chain_frame [where A = "{x}" and st = st]) auto
  then show ?case using Nil by simp
next
  case (Cons a xs)
  then show ?case by auto
qed

text \<open>The effect of unlinking on the bucket of the removed entry.\<close>

lemma hashtable_unlink_rep:
  assumes rep: "ht_rep h st bs" and i: "i < length bs" and b: "bs ! i = xs @ e # ys"
    and eq: "hashtable_unlink h i (if xs = [] then NULL else last xs) e st = (h', st')"
  shows "ht_rep h' st' (bs[i := xs @ ys])" "same_but_next (set xs) st st'"
    "cache h' = cache h" "cache_idx h' = cache_idx h" "primeindex h' = primeindex h"
    "lower_loadlimit h' = lower_loadlimit h"
proof -
  have ch: "chain st (table h ! i) (xs @ e # ys)" and l: "list_all2 (chain st) (table h) bs"
    and d: "distinct (concat bs)"
    using rep i b unfolding ht_rep_def by (auto dest: list_all2_nthD2)
  have dv: "distinct (xs @ e # ys)" and rest: "set (xs @ e # ys) \<inter> set (concat (take i bs) @ concat (drop (Suc i) bs)) = {}"
    using d unfolding concat_nth_split [OF i] b by auto
  have nn: "NULL \<notin> set (xs @ e # ys)" by (rule chain_nonnull [OF ch])
  have next_e: "xs \<noteq> [] \<Longrightarrow> xt_next (st e) \<noteq> last xs"
    using chain_mid [OF ch] dv nn last_in_set [of xs] by (cases ys) (force, auto)
  show "cache h' = cache h" "cache_idx h' = cache_idx h" "primeindex h' = primeindex h"
    "lower_loadlimit h' = lower_loadlimit h"
    using eq unfolding hashtable_unlink_def Let_def by (auto split: if_splits)
  show frame: "same_but_next (set xs) st st'"
    using eq next_e nn unfolding hashtable_unlink_def Let_def by (auto split: if_splits)
  have "list_all2 (chain st') (table h') (bs[i := xs @ ys])"
  proof (cases "xs = []")
    case True
    then show ?thesis using eq l chain_mid [OF ch]
      unfolding hashtable_unlink_def Let_def by (auto intro: list_all2_update_cong)
  next
    case False
    then obtain xs' x where xs: "xs = xs' @ [x]" by (meson rev_exhaust)
    have h': "table h' = table h" "st' = set_next x (xt_next (st e)) st"
      using eq next_e False nn unfolding hashtable_unlink_def Let_def xs by (auto split: if_splits)
    have "chain st' (table h ! i) (xs @ ys)" using chain_unlink [of st _ xs' x e ys] ch dv xs h' by simp
    moreover have "chain st' (table h ! j) (bs ! j)" if "j < length bs" "j \<noteq> i" for j
    proof -
      have "x \<notin> set (bs ! j)"
      proof
        assume "x \<in> set (bs ! j)"
        moreover have "x \<in> set (bs ! i)" using b xs by simp
        ultimately show False
          using rep that i unfolding ht_rep_def placed_def by metis
      qed
      then show ?thesis
        using l that h'(2) chain_frame [where A = "{x}" and st = st and st' = st' and es = "bs ! j"]
        by (auto simp: list_all2_conv_all_nth)
    qed
    ultimately show ?thesis
      using l h'(1) i unfolding list_all2_conv_all_nth by (auto simp: nth_list_update)
  qed
  moreover have "distinct (concat (bs[i := xs @ ys]))"
    using d unfolding concat_nth_split [OF i] concat_update_split [OF i] b by auto
  moreover have "placed (tablelength h) st' (bs[i := xs @ ys])"
    using rep i b unfolding ht_rep_def
    by (subst placed_cong [OF frame]) (auto simp: placed_def nth_list_update)
  moreover have "length (concat bs) = Suc (length (concat (bs[i := xs @ ys])))"
    unfolding concat_nth_split [OF i] concat_update_split [OF i] b by simp
  moreover have "tablelength h' = tablelength h" "primeindex h' = primeindex h" "entrycount h' = entrycount h - 1"
    using eq unfolding hashtable_unlink_def Let_def by (auto split: if_splits)
  ultimately show "ht_rep h' st' (bs[i := xs @ ys])" using rep unfolding ht_rep_def by simp
qed

lemma hashtable_remove_missing:
  assumes ref: "ht_refines h st m" and k: "m k = None"
  shows "hashtable_remove mem h k st = Some (Inl (Errquit ''Attempting to remove a non-existent key''))"
proof -
  obtain bs where bs: "ht_rep h st bs"
    and m: "\<And>k e. m k = Some e \<longleftrightarrow> e \<in> set (concat bs) \<and> xt_h (st e) = k"
    using ref unfolding ht_refines_def by blast
  have "\<forall>e \<in> set (bs ! unat (indexFor (tablelength h) k)). xt_h (st e) \<noteq> k"
    using ht_find_bucket [OF bs m, of k] k by (auto simp: find_None_iff)
  from chain_find_prev_miss [OF ht_rep_bucket(3) [OF bs] this, of NULL]
  show ?thesis unfolding hashtable_remove_def Let_def by auto
qed

lemma hashtable_unlink_spec:
  assumes ref: "ht_refines h st m" and k: "m k = Some e"
  defines "h0 \<equiv> cache_invalidate h k st"
  defines "i \<equiv> unat (indexFor (tablelength h) k)"
  shows "\<exists>pv h1 st1. chain_find_prev k NULL (table h0 ! i) st = Some (pv, e) \<and> e \<noteq> NULL
     \<and> hashtable_unlink h0 i pv e st = (h1, st1)
     \<and> ht_refines h1 st1 (m(k := None)) \<and> same_but_next (ran m) st st1"
proof -
  obtain bs where bs: "ht_rep h st bs" "cache_ok h (set (concat bs))"
    and m: "\<And>k e. m k = Some e \<longleftrightarrow> e \<in> set (concat bs) \<and> xt_h (st e) = k"
    using ref unfolding ht_refines_def by blast
  have uniq: "e' = e" if "e' \<in> set (concat bs)" "xt_h (st e') = k" for e' using m that k by (metis option.inject)
  have e: "xt_h (st e) = k" "e \<in> set (concat bs)" using k m by auto
  note i = ht_rep_bucket [OF bs(1), where k = k, folded i_def]
  obtain xs ys where b: "bs ! i = xs @ e # ys" using split_list [OF i(5) [OF e(2) e(1)]] by blast
  have d: "distinct (concat bs)" using bs(1) unfolding ht_rep_def by simp
  then have dv: "e \<notin> set (xs @ ys)" "e \<notin> set (concat (take i bs) @ concat (drop (Suc i) bs))"
    unfolding concat_nth_split [OF i(1)] b by auto
  have xs: "\<forall>x \<in> set xs. xt_h (st x) \<noteq> k" using uniq i(4) b dv by fastforce
  have find: "chain_find_prev k NULL (table h0 ! i) st = Some (if xs = [] then NULL else last xs, e)"
    unfolding h0_def using i(3) xs e(1) by (simp add: b chain_find_prev_hit)
  have rep0: "ht_rep h0 st bs" using bs(1) unfolding ht_rep_def h0_def cache_invalidate_sel .
  obtain h1 st1 where u: "hashtable_unlink h0 i (if xs = [] then NULL else last xs) e st = (h1, st1)" by fastforce
  note r = hashtable_unlink_rep [OF rep0 i(1) b u]
  have set': "set (concat (bs[i := xs @ ys])) = set (concat bs) - {e}"
    using dv by (simp only: concat_nth_split [OF i(1)] concat_update_split [OF i(1)] b) auto
  have "cache_ok h1 (set (concat bs) - {e})"
    using cache_ok_invalidate [OF bs(2), of st k e, OF uniq e(1), folded h0_def] r(3,4)
    unfolding cache_ok_def by simp
  moreover have "(m(k := None)) k' = Some e' \<longleftrightarrow> e' \<in> set (concat bs) - {e} \<and> xt_h (st1 e') = k'" for k' e'
    using m [of k' e'] e uniq [of e'] unfolding same_but_next_h [OF r(2)] by auto
  ultimately have "ht_refines h1 st1 (m(k := None))"
    using r(1) unfolding ht_refines_def set' [symmetric] by blast
  moreover have "same_but_next (ran m) st st1"
    using r(2) i(4) b unfolding ht_refines_ran [OF m] by (intro same_but_next_mono [OF r(2)]) auto
  moreover have "e \<noteq> NULL" using ht_refines_nonnull [OF bs(1) m, of k] k by auto
  ultimately show ?thesis using find u by blast
qed

lemma hashtable_remove_spec:
  assumes ref: "ht_refines h st m" and k: "m k = Some e"
  shows "\<exists>r h' st'. hashtable_remove mem h k st = Some (Inr (r, h', st'))
     \<and> ht_refines h' st' (m(k := None)) \<and> same_but_next (ran m) st st' \<and> (mem \<longrightarrow> r)"
proof -
  obtain pv h1 st1 where
    u: "chain_find_prev k NULL (table (cache_invalidate h k st) ! unat (indexFor (tablelength h) k)) st
          = Some (pv, e)" "e \<noteq> NULL"
       "hashtable_unlink (cache_invalidate h k st) (unat (indexFor (tablelength h) k)) pv e st = (h1, st1)"
       "ht_refines h1 st1 (m(k := None))" "same_but_next (ran m) st st1"
    using hashtable_unlink_spec [OF ref k] by blast
  obtain h' st' where x: "hashtable_expand mem h1 False st1 = Some (h', st')"
    "same_but_next (ran (m(k := None))) st1 st'"
    "case h' of None \<Rightarrow> st' = st1 \<and> (mem \<longrightarrow> False \<and> primeindex h1 = prime_table_length - 1)
     | Some h2 \<Rightarrow> ht_refines h2 st' (m(k := None))"
    using hashtable_expand_spec [OF u(4)] by blast
  have sub: "ran m \<union> ran (m(k := None)) = ran m" by (auto simp: ran_def split: if_splits)
  have frame: "same_but_next (ran m) st st'" using same_but_next_trans [OF u(5) x(2)] sub by simp
  show ?thesis
  proof (cases "0 < primeindex h1 \<and> entrycount h1 \<le> lower_loadlimit h1")
    case True
    then show ?thesis using u(1-4) x frame unfolding hashtable_remove_def Let_def
      by (cases h') auto
  next
    case False
    then show ?thesis using u unfolding hashtable_remove_def Let_def by auto
  qed
qed

lemma find_prime_spec:
  assumes "\<exists>p \<in> set ps. minsize < p"
  shows "\<exists>j < length ps. find_prime ps n minsize = (ps ! j, n + j) \<and> minsize < ps ! j"
  using assms
proof (induction ps arbitrary: n)
  case (Cons p ps)
  show ?case
  proof (cases "minsize < p")
    case False
    then obtain j where "j < length ps" "find_prime ps (Suc n) minsize = (ps ! j, Suc n + j)" "minsize < ps ! j"
      using Cons.IH [of "Suc n"] Cons.prems by auto
    then show ?thesis using False by (intro exI [of _ "Suc j"]) auto
  qed (intro exI [of _ 0], simp)
qed simp

lemma create_hashtable_spec:
  assumes "minsize < 1610612741"
  shows "\<exists>h. create_hashtable True minsize = Some h \<and> ht_refines h st Map.empty
     \<and> minsize < tablelength h"
proof -
  have "\<exists>p \<in> set primes. minsize < p" using assms by (auto simp: primes_def)
  from find_prime_spec [OF this, of 0]
  obtain j where j: "j < length primes" "find_prime primes 0 minsize = (primes ! j, j)"
    "minsize < primes ! j" by auto
  define h where "h = the (create_hashtable True minsize)"
  have h: "create_hashtable True minsize = Some h" unfolding h_def create_hashtable_def by (simp add: j)
  have sel: "tablelength h = primes ! j" "table h = replicate (unat (primes ! j)) NULL" "primeindex h = j"
    "entrycount h = 0" "cache h = [NULL, NULL]" "cache_idx h = 0"
    unfolding h_def create_hashtable_def by (simp_all add: j)
  have "ht_rep h st (replicate (unat (primes ! j)) [])"
    unfolding ht_rep_def placed_def sel using j(1)
    by (simp add: prime_table_length_def list_all2_conv_all_nth)
  moreover have "cache_ok h E" for E
    unfolding cache_ok_def less_H_CACHE_SIZE sel by (auto simp: H_CACHE_SIZE_def)
  ultimately have "ht_refines h st Map.empty" unfolding ht_refines_def by fastforce
  then show ?thesis using h j(3) sel(1) by auto
qed

subsection \<open>The interface the region code uses\<close>

text \<open>
  What the clients of the table (\<open>get_tkey\<close>, \<open>hinsert\<close> and \<open>hremove\<close> in the region
  code) rely on: a relation between concrete states and finite maps, and for each operation the law
  that ties it to the map.  \<open>kept\<close> relates the stores before and after an operation that only
  touches the links of the given entries.
\<close>

locale key_table =
  fixes refines :: "'t \<Rightarrow> 's \<Rightarrow> ('k \<rightharpoonup> 'e) \<Rightarrow> bool"
    and key :: "'s \<Rightarrow> 'e \<Rightarrow> 'k"
    and valid :: "'e \<Rightarrow> bool"
    and kept :: "'e set \<Rightarrow> 's \<Rightarrow> 's \<Rightarrow> bool"
    and insert_op :: "bool \<Rightarrow> 't \<Rightarrow> 'e \<Rightarrow> 's \<Rightarrow> (bool \<times> 't \<times> 's) option"
    and search_op :: "'t \<Rightarrow> 'k \<Rightarrow> 's \<Rightarrow> ('e \<times> 't) res option"
    and remove_op :: "bool \<Rightarrow> 't \<Rightarrow> 'k \<Rightarrow> 's \<Rightarrow> (bool \<times> 't \<times> 's) res option"
  assumes insert_law: "refines t s m \<Longrightarrow> m (key s e) = None \<Longrightarrow> valid e \<Longrightarrow>
      \<exists>r t' s'. insert_op mem t e s = Some (r, t', s') \<and> kept (insert e (ran m)) s s' \<and>
        refines t' s' (if r then m(key s e \<mapsto> e) else m)"
    and search_hit: "refines t s m \<Longrightarrow> m k = Some e \<Longrightarrow>
      \<exists>t'. search_op t k s = Some (Inr (e, t')) \<and> refines t' s m"
    and search_miss: "refines t s m \<Longrightarrow> m k = None \<Longrightarrow> \<exists>f. search_op t k s = Some (Inl f)"
    and remove_hit: "refines t s m \<Longrightarrow> m k = Some e \<Longrightarrow>
      \<exists>r t' s'. remove_op mem t k s = Some (Inr (r, t', s')) \<and> kept (ran m) s s' \<and>
        refines t' s' (m(k := None))"
    and remove_miss: "refines t s m \<Longrightarrow> m k = None \<Longrightarrow> \<exists>f. remove_op mem t k s = Some (Inl f)"
    and refines_key: "refines t s m \<Longrightarrow> m k = Some e \<Longrightarrow> key s e = k"
    and kept_key: "kept A s s' \<Longrightarrow> key s' e = key s e"
begin

text \<open>Round trip: what was inserted is found, and finding it does not change the map.\<close>

lemma insert_search:
  assumes "refines t s m" "m (key s e) = None" "valid e" "insert_op mem t e s = Some (True, t', s')"
  shows "\<exists>t''. search_op t' (key s e) s' = Some (Inr (e, t'')) \<and> refines t'' s' (m(key s e \<mapsto> e))"
proof -
  have "refines t' s' (m(key s e \<mapsto> e))" using insert_law [OF assms(1-3), of mem] assms(4) by auto
  from search_hit [OF this, of "key s e" e] show ?thesis by simp
qed

text \<open>Insertion and removal of one key leave the entries of the others.\<close>

lemma insert_search_other:
  assumes "refines t s m" "m (key s e) = None" "valid e" "insert_op mem t e s = Some (r, t', s')"
    and "m k = Some e'"
  shows "\<exists>t''. search_op t' k s' = Some (Inr (e', t''))"
proof -
  have "refines t' s' (if r then m(key s e \<mapsto> e) else m)"
    using insert_law [OF assms(1-3), of mem] assms(4) by auto
  moreover have "(if r then m(key s e \<mapsto> e) else m) k = Some e'" using assms(2,5) by auto
  ultimately show ?thesis using search_hit by blast
qed

lemma remove_search:
  assumes "refines t s m" "m k = Some e" "remove_op mem t k s = Some (Inr (r, t', s'))"
  shows "\<exists>f. search_op t' k s' = Some (Inl f)"
    and "k' \<noteq> k \<Longrightarrow> m k' = Some e' \<Longrightarrow> \<exists>t''. search_op t' k' s' = Some (Inr (e', t''))"
proof -
  have r: "refines t' s' (m(k := None))" using remove_hit [OF assms(1,2), of mem] assms(3) by auto
  show "\<exists>f. search_op t' k s' = Some (Inl f)" by (rule search_miss [OF r]) simp
  assume "k' \<noteq> k" "m k' = Some e'"
  then have "(m(k := None)) k' = Some e'" by simp
  from search_hit [OF r this] show "\<exists>t''. search_op t' k' s' = Some (Inr (e', t''))" by blast
qed

text \<open>Removing what was just inserted gives the old map back.\<close>

lemma insert_remove:
  assumes "refines t s m" "m (key s e) = None" "valid e" "insert_op mem t e s = Some (True, t', s')"
  shows "\<exists>r t'' s''. remove_op mem' t' (key s e) s' = Some (Inr (r, t'', s'')) \<and> refines t'' s'' m"
proof -
  have "refines t' s' (m(key s e \<mapsto> e))" using insert_law [OF assms(1-3), of mem] assms(4) by auto
  moreover have "(m(key s e \<mapsto> e))(key s e := None) = m" using assms(2) by auto
  ultimately show ?thesis
    using remove_hit [of t' s' "m(key s e \<mapsto> e)" "key s e" e mem'] by (metis fun_upd_same)
qed

end

interpretation ht: key_table ht_refines "\<lambda>st e. xt_h (st e)" "\<lambda>e. e \<noteq> NULL" same_but_next
  hashtable_insert hashtable_search hashtable_remove
proof
  fix h st m mem and kv :: ptr
  assume "ht_refines h st m" "m (xt_h (st kv)) = None" "kv \<noteq> NULL"
  then show "\<exists>r t' s'. hashtable_insert mem h kv st = Some (r, t', s')
      \<and> same_but_next (insert kv (ran m)) st s'
      \<and> ht_refines t' s' (if r then m(xt_h (st kv) \<mapsto> kv) else m)"
    using hashtable_insert_spec [of h st m kv mem] by fastforce
next
  fix h st m k e
  assume a: "ht_refines h st m" "m k = Some e"
  then show "\<exists>t'. hashtable_search h k st = Some (Inr (e, t')) \<and> ht_refines t' st m"
    using hashtable_search_spec [OF a(1), of k] by simp
  show "\<exists>r t' s'. hashtable_remove mem h k st = Some (Inr (r, t', s')) \<and> same_but_next (ran m) st s'
      \<and> ht_refines t' s' (m(k := None))" for mem
    using hashtable_remove_spec [OF a, of mem] by blast
  show "xt_h (st e) = k" using a unfolding ht_refines_def by blast
next
  fix h st m k
  assume a: "ht_refines h st m" "m k = None"
  then show "\<exists>f. hashtable_search h k st = Some (Inl f)" using hashtable_search_spec [OF a(1), of k] by simp
  show "\<exists>f. hashtable_remove mem h k st = Some (Inl f)" for mem
    using hashtable_remove_missing [OF a, of mem] by blast
qed (rule same_but_next_h)

subsection \<open>Properties\<close>

text \<open>C1: inserting an entry with a new key in a table that implements the map \<open>m\<close> always returns;
  on success the table implements \<open>m\<close> extended by the entry, through a rehash if the load limit
  was reached, so a search finds it and finds every old entry. It fails only when the table cannot
  grow, and then nothing changed.\<close>

theorem hashtable_insert_correct:
  assumes "ht_refines h st m" and "m (xt_h (st kv)) = None" and "kv \<noteq> NULL"
  shows "\<exists>r h' st'. hashtable_insert mem h kv st = Some (r, h', st')
     \<and> (if r then ht_refines h' st' (m(xt_h (st kv) \<mapsto> kv))
            \<and> (\<exists>h''. hashtable_search h' (xt_h (st kv)) st' = Some (Inr (kv, h'')))
            \<and> (\<forall>k e. m k = Some e \<longrightarrow> (\<exists>h''. hashtable_search h' k st' = Some (Inr (e, h''))))
        else h' = h \<and> st' = st \<and> (mem \<longrightarrow> primeindex h = prime_table_length - 1))"
proof -
  obtain r h' st' where i: "hashtable_insert mem h kv st = Some (r, h', st')"
    and c: "if r then ht_refines h' st' (m(xt_h (st kv) \<mapsto> kv))
        else h' = h \<and> st' = st \<and> (mem \<longrightarrow> primeindex h = prime_table_length - 1)"
    using hashtable_insert_spec [OF assms] by blast
  show ?thesis
  proof (cases r)
    case True
    then have i': "hashtable_insert mem h kv st = Some (True, h', st')" using i by simp
    have "\<forall>k e. m k = Some e \<longrightarrow> (\<exists>h''. hashtable_search h' k st' = Some (Inr (e, h'')))"
      using ht.insert_search_other [OF assms i'] by blast
    moreover have "\<exists>h''. hashtable_search h' (xt_h (st kv)) st' = Some (Inr (kv, h''))"
      using ht.insert_search [OF assms i'] by blast
    ultimately show ?thesis using i' c True by auto
  qed (use i c in auto)
qed

text \<open>A store with entries 4096, 4160 and 4224; the first two have keys that fall in one bucket.\<close>

definition sample_store :: store where
  "sample_store p =
     \<lparr>xt_h = (if p = 4096 then 8192 else if p = 4160 then 8245 else 8200), xt_next = NULL, parent_key = NULL,
      sub_keys = NULL, next_key = NULL, lc_rcnt = 1, lc_wr_cnt = 0, lc_rd_cnt = 0\<rparr>"

lemma sample_key [simp]:
  "xt_h (sample_store 4096) = 8192" "xt_h (sample_store 4160) = 8245"
  by (simp_all add: sample_store_def)

lemma create_10:
  "\<exists>h. create_hashtable True 10 = Some h \<and> ht_refines h st Map.empty \<and> primeindex h = 0"
proof -
  obtain h where h: "create_hashtable True 10 = Some h" "ht_refines h st Map.empty"
    using create_hashtable_spec [of 10 st] by auto
  then have "primeindex h = 0" by (auto simp: create_hashtable_def primes_def)
  then show ?thesis using h by blast
qed

theorem hashtable_insert_correct_witness:
  "\<exists>h h' st' h''. create_hashtable True 10 = Some h \<and>
     hashtable_insert True h 4096 sample_store = Some (True, h', st') \<and>
     hashtable_search h' 8192 st' = Some (Inr (4096, h''))"
proof -
  obtain h where h: "create_hashtable True 10 = Some h" "ht_refines h sample_store Map.empty" "primeindex h = 0"
    using create_10 by blast
  from hashtable_insert_correct [OF h(2), of 4096 True] show ?thesis
    using h(1,3) by (auto simp: prime_table_length_def primes_def split: if_splits)
qed

text \<open>A table with one entry, for the next witnesses.\<close>

lemma table_with_entry:
  "\<exists>h st. ht_refines h st [8192 \<mapsto> 4096] \<and> xt_h (st 4160) = 8245"
proof -
  obtain h where h: "ht_refines h sample_store Map.empty" "primeindex h = 0" using create_10 by blast
  from hashtable_insert_spec [OF h(1), of 4096 True]
  obtain h' st' where "ht_refines h' st' [8192 \<mapsto> 4096]" "same_but_next {4096} sample_store st'"
    using h(2) by (auto simp: prime_table_length_def primes_def split: if_splits)
  then show ?thesis using same_but_next_h by fastforce
qed

text \<open>C2: removing a key that is in the table always returns, even when the table shrinks or the
  memory for shrinking is missing; afterwards the table implements the map without the key: a search
  for it ends with the error message, and no cached entry or bucket still answers for it, while the
  other keys keep their entries.\<close>

theorem hashtable_remove_correct:
  assumes "ht_refines h st m" and "m k = Some e"
  shows "\<exists>r h' st'. hashtable_remove mem h k st = Some (Inr (r, h', st')) \<and> (mem \<longrightarrow> r)
     \<and> ht_refines h' st' (m(k := None))
     \<and> hashtable_search h' k st' = Some (Inl (Errquit ''hashtable search for key : %p failed.''))
     \<and> (\<forall>k' e'. k' \<noteq> k \<and> m k' = Some e' \<longrightarrow> (\<exists>h''. hashtable_search h' k' st' = Some (Inr (e', h''))))"
proof -
  obtain r h' st' where r: "hashtable_remove mem h k st = Some (Inr (r, h', st'))"
    "ht_refines h' st' (m(k := None))" "mem \<longrightarrow> r"
    using hashtable_remove_spec [OF assms] by blast
  have "hashtable_search h' k st' = Some (Inl (Errquit ''hashtable search for key : %p failed.''))"
    using hashtable_search_spec [OF r(2), of k] by simp
  moreover have "\<forall>k' e'. k' \<noteq> k \<and> m k' = Some e' \<longrightarrow> (\<exists>h''. hashtable_search h' k' st' = Some (Inr (e', h'')))"
    using ht.remove_search(2) [OF assms r(1)] by blast
  ultimately show ?thesis using r by blast
qed

theorem hashtable_remove_correct_witness:
  "\<exists>h st r h' st'. ht_refines h st [8192 \<mapsto> 4096] \<and> hashtable_remove False h 8192 st = Some (Inr (r, h', st'))
     \<and> hashtable_search h' 8192 st' = Some (Inl (Errquit ''hashtable search for key : %p failed.''))"
proof -
  obtain h st where "ht_refines h st [8192 \<mapsto> 4096]" using table_with_entry by blast
  with hashtable_remove_correct [OF this, of 8192 4096 False] show ?thesis by fastforce
qed

text \<open>\<open>hashtable_expand\<close> ends on every well-formed table, in both directions; if it returns
  a table, that table implements the same map, and only link fields of the entries changed; it
  returns null only without memory or when asked to grow beyond the last prime.\<close>

theorem hashtable_expand_preserves:
  assumes "ht_refines h st m"
  shows "\<exists>h' st'. hashtable_expand mem h grow st = Some (h', st') \<and> same_but_next (ran m) st st'
     \<and> (case h' of
          None \<Rightarrow> st' = st \<and> (mem \<longrightarrow> grow \<and> primeindex h = prime_table_length - 1)
        | Some h1 \<Rightarrow> ht_refines h1 st' m)"
  by (rule hashtable_expand_spec [OF assms])

theorem hashtable_expand_preserves_witness:
  "\<exists>h st h' st'. ht_refines h st [8192 \<mapsto> 4096] \<and> hashtable_expand False h True st = Some (h', st')"
proof -
  obtain h st where h: "ht_refines h st [8192 \<mapsto> 4096]" using table_with_entry by blast
  with hashtable_expand_preserves [OF h, of False True] show ?thesis by blast
qed

end
