(* ===== verification/Rw_Lock.thy ===== *)
theory Rw_Lock
  imports Futex_Lock
begin

section \<open>The reader-writer lock of a shared region\<close>

text \<open>
  The locking part of lib/runtime_memory.c, \<open>__xregion_lockop\<close>, for one region: struct
  \<open>_RegionCaps\<close> of runtime_internal.h holds the shared words, and every thread has its own
  16-bit write and read counts in its tree handle (struct \<open>_LocalCaps\<close>).  One iteration of the
  do-while loop runs under the latch of the region and is the function \<open>lockop_pass\<close>, split into the
  parts the code has: leaving the queue, the write request, the read request, waking others, and the
  assertion.  The local counts are declared \<open>unsigned short\<close> and read through \<open>short\<close> pointers, so
  they are 16-bit words read with \<open>sint\<close>.

  The protocol \<open>rw_step\<close> interleaves the passes of all threads.  A waiting thread may start its next
  pass at any moment, which covers every behaviour of the futex calls.

  What the lemmas show: the words and counts stay consistent in every interleaving, so a writer
  excludes every other thread; and as long as a thread asks for one kind of lock at a time none of
  the assertions of the code fails.  A request for both kinds at once can fail them.
\<close>

subsection \<open>struct _RegionCaps\<close>

record region_caps =
  g_rcnt :: u32
  g_lock :: u32
  writer_cv :: u32
  reader_cv :: u32
  writer_q :: u32
  reader_q :: u32
  g_rd_cnt :: u32

subsection \<open>One pass of the loop\<close>

text \<open>\<open>short += int\<close>: the sum is truncated to 16 bits.\<close>

definition local_add :: "u16 \<Rightarrow> int \<Rightarrow> u16" where
  "local_add c n = of_int (sint c + n)"

definition lockop_dequeue :: "bool \<Rightarrow> bool \<Rightarrow> region_caps \<Rightarrow> region_caps" where
  "lockop_dequeue wait_wq wait_rq c =
     (if wait_wq then c\<lparr>writer_q := writer_q c - 1\<rparr>
      else if wait_rq then c\<lparr>reader_q := reader_q c - 1\<rparr>
      else c)"

text \<open>The write request; the Boolean tells that the thread has to wait in the writers' queue.\<close>

definition lockop_write :: "u32 \<Rightarrow> int \<Rightarrow> region_caps \<Rightarrow> u16 \<Rightarrow> u16 \<Rightarrow> bool \<times> region_caps \<times> u16" where
  "lockop_write self write_lock c wr rd =
     (if wr \<noteq> 0
      then let wr = local_add wr write_lock
           in (False, if wr = 0 then c\<lparr>writer_cv := 0\<rparr> else c, wr)
      else let canlock = sint (g_rd_cnt c) < 2 \<and> (g_rd_cnt c = 0 \<or> rd \<noteq> 0) \<and> writer_cv c = 0
           in if canlock
              then (False, c\<lparr>reader_cv := 1, writer_cv := self\<rparr>, local_add wr write_lock)
              else (True, c\<lparr>writer_q := writer_q c + 1\<rparr>, wr))"

definition lockop_read :: "u32 \<Rightarrow> int \<Rightarrow> region_caps \<Rightarrow> u16 \<Rightarrow> bool \<times> region_caps \<times> u16" where
  "lockop_read self read_lock c rd =
     (if rd \<noteq> 0
      then let rd = local_add rd read_lock
           in (False, if rd = 0 then c\<lparr>g_rd_cnt := g_rd_cnt c - 1\<rparr> else c, rd)
      else let wr = writer_cv c
           in if wr \<noteq> self \<and> wr \<noteq> 0
              then (True, c\<lparr>reader_q := reader_q c + 1\<rparr>, rd)
              else (False, c\<lparr>g_rd_cnt := g_rd_cnt c + 1\<rparr>, local_add rd read_lock))"

datatype wake = No_wake | Wake_writer | Wake_readers

definition lockop_wake :: "region_caps \<Rightarrow> wake \<times> region_caps" where
  "lockop_wake c =
     (if writer_cv c = 0
      then if writer_q c \<noteq> 0 \<and> g_rd_cnt c = 0 then (Wake_writer, c)
           else if reader_q c \<noteq> 0 then (Wake_readers, c\<lparr>reader_cv := 0\<rparr>)
           else (No_wake, c)
      else (No_wake, c))"

text \<open>The assertion before the loop and at its end: a writer is the only reader.\<close>

definition writer_ok :: "u32 \<Rightarrow> region_caps \<Rightarrow> u16 \<Rightarrow> u16 \<Rightarrow> bool" where
  "writer_ok self c wr rd \<longleftrightarrow>
     writer_cv c \<noteq> self \<or>
     (writer_cv c = self \<and> 0 < sint wr \<and>
      (rd \<noteq> 0 \<and> g_rd_cnt c = 1 \<or> rd = 0 \<and> g_rd_cnt c = 0))"

definition lockop_entry_ok :: "u32 \<Rightarrow> region_caps \<Rightarrow> u16 \<Rightarrow> u16 \<Rightarrow> int \<Rightarrow> int \<Rightarrow> bool" where
  "lockop_entry_ok self c wr rd write_lock read_lock \<longleftrightarrow>
     0 \<le> sint wr \<and> 0 \<le> sint rd \<and> 0 \<le> sint wr + write_lock \<and> 0 \<le> sint rd + read_lock \<and>
     writer_ok self c wr rd"

record pass_result =
  pr_wq :: bool
  pr_rq :: bool
  pr_wake :: wake
  pr_caps :: region_caps
  pr_wr :: u16
  pr_rd :: u16

definition lockop_pass ::
    "u32 \<Rightarrow> int \<Rightarrow> int \<Rightarrow> bool \<Rightarrow> bool \<Rightarrow> region_caps \<Rightarrow> u16 \<Rightarrow> u16 \<Rightarrow> pass_result res" where
  "lockop_pass self write_lock read_lock wait_wq wait_rq c wr rd =
     (let c = lockop_dequeue wait_wq wait_rq c;
          (wait_wq, c, wr) = (if write_lock \<noteq> 0 then lockop_write self write_lock c wr rd else (False, c, wr));
          (wait_rq, c, rd) = (if read_lock \<noteq> 0 then lockop_read self read_lock c rd else (False, c, rd));
          (wk, c) = lockop_wake c
      in if writer_ok self c wr rd
         then Inr \<lparr>pr_wq = wait_wq, pr_rq = wait_rq, pr_wake = wk, pr_caps = c, pr_wr = wr, pr_rd = rd\<rparr>
         else Inl (Errquit ''__xregion_lockop: assertion failed''))"

subsection \<open>All threads on one region\<close>

text \<open>
  Thread identifiers come from \<open>_next_tid\<close>.  Every thread needs a page of stack, so an address
  space of 2^32 bytes holds at most 2^20 of them.
\<close>

definition MAX_THREADS :: nat where
  "MAX_THREADS = 1048576"

definition thread_ids :: "u32 set" where
  "thread_ids = set (tids MAX_THREADS next_tid_init)"

datatype rw_pc = Idle | Pass int int bool bool

record rw =
  caps :: region_caps
  lwr :: "u32 \<Rightarrow> u16"
  lrd :: "u32 \<Rightarrow> u16"
  rpc :: "u32 \<Rightarrow> rw_pc"
  dead :: bool

text \<open>
  What a thread may ask for: to take or give back one kind of lock, or to give back both; never
  more than it has, and never more than a 16-bit count can hold.
\<close>

definition rw_request :: "u16 \<Rightarrow> u16 \<Rightarrow> int \<Rightarrow> int \<Rightarrow> bool" where
  "rw_request wr rd w r \<longleftrightarrow>
     (w \<noteq> 0 \<or> r \<noteq> 0) \<and> (0 < w \<longrightarrow> r = 0) \<and> (0 < r \<longrightarrow> w = 0) \<and>
     0 \<le> sint wr + w \<and> sint wr + w \<le> 32767 \<and> 0 \<le> sint rd + r \<and> sint rd + r \<le> 32767"

definition fresh_caps :: "u32 \<Rightarrow> region_caps" where
  "fresh_caps t = \<lparr>g_rcnt = 1, g_lock = 0, writer_cv = t, reader_cv = 0, writer_q = 0, reader_q = 0, g_rd_cnt = 0\<rparr>"

definition rw_init :: "rw \<Rightarrow> bool" where
  "rw_init s \<longleftrightarrow>
     (\<exists>t \<in> thread_ids. caps s = fresh_caps t \<and> lwr s = (\<lambda>_. 0)(t := 1) \<and> lrd s = (\<lambda>_. 0)
        \<and> rpc s = (\<lambda>_. Idle) \<and> \<not> dead s)"

definition rw_set :: "u32 \<Rightarrow> pass_result \<Rightarrow> rw_pc \<Rightarrow> rw \<Rightarrow> rw" where
  "rw_set t p q s = s\<lparr>caps := pr_caps p, lwr := (lwr s)(t := pr_wr p), lrd := (lrd s)(t := pr_rd p),
     rpc := (rpc s)(t := q)\<rparr>"

inductive rw_step :: "rw \<Rightarrow> rw \<Rightarrow> bool" where
  rw_call: "\<not> dead s \<Longrightarrow> t \<in> thread_ids \<Longrightarrow> rpc s t = Idle \<Longrightarrow> rw_request (lwr s t) (lrd s t) w r \<Longrightarrow>
     lockop_entry_ok t (caps s) (lwr s t) (lrd s t) w r \<Longrightarrow>
     rw_step s (s\<lparr>rpc := (rpc s)(t := Pass w r False False)\<rparr>)"
| rw_call_abort: "\<not> dead s \<Longrightarrow> t \<in> thread_ids \<Longrightarrow> rpc s t = Idle \<Longrightarrow> rw_request (lwr s t) (lrd s t) w r \<Longrightarrow>
     \<not> lockop_entry_ok t (caps s) (lwr s t) (lrd s t) w r \<Longrightarrow> rw_step s (s\<lparr>dead := True\<rparr>)"
| rw_wait: "\<not> dead s \<Longrightarrow> rpc s t = Pass w r wq rq \<Longrightarrow>
     lockop_pass t w r wq rq (caps s) (lwr s t) (lrd s t) = Inr p \<Longrightarrow> pr_wq p \<or> pr_rq p \<Longrightarrow>
     rw_step s (rw_set t p (Pass w r (pr_wq p) (pr_rq p)) s)"
| rw_done: "\<not> dead s \<Longrightarrow> rpc s t = Pass w r wq rq \<Longrightarrow>
     lockop_pass t w r wq rq (caps s) (lwr s t) (lrd s t) = Inr p \<Longrightarrow> \<not> pr_wq p \<Longrightarrow> \<not> pr_rq p \<Longrightarrow>
     0 \<le> sint (pr_wr p) \<Longrightarrow> 0 \<le> sint (pr_rd p) \<Longrightarrow> rw_step s (rw_set t p Idle s)"
| rw_pass_abort: "\<not> dead s \<Longrightarrow> rpc s t = Pass w r wq rq \<Longrightarrow>
     lockop_pass t w r wq rq (caps s) (lwr s t) (lrd s t) = Inl f \<Longrightarrow> rw_step s (s\<lparr>dead := True\<rparr>)"
| rw_exit_abort: "\<not> dead s \<Longrightarrow> rpc s t = Pass w r wq rq \<Longrightarrow>
     lockop_pass t w r wq rq (caps s) (lwr s t) (lrd s t) = Inr p \<Longrightarrow> \<not> pr_wq p \<Longrightarrow> \<not> pr_rq p \<Longrightarrow>
     \<not> (0 \<le> sint (pr_wr p) \<and> 0 \<le> sint (pr_rd p)) \<Longrightarrow> rw_step s (s\<lparr>dead := True\<rparr>)"

subsection \<open>Arithmetic of the counts\<close>

lemma sint_local_add:
  assumes "- 32768 \<le> sint c + n" "sint c + n \<le> 32767"
  shows "sint (local_add c n) = sint c + n"
proof -
  have "sint (of_int (sint c + n) :: u16) = signed_take_bit 15 (sint c + n)"
    by (simp only: signed_of_int) simp
  also have "\<dots> = sint c + n" using assms by (intro signed_take_bit_int_eq_self) auto
  finally show ?thesis unfolding local_add_def .
qed

lemma local_add_0_iff:
  assumes "- 32768 \<le> sint c + n" "sint c + n \<le> 32767"
  shows "local_add c n = 0 \<longleftrightarrow> sint c + n = 0"
  using sint_local_add [OF assms] by (metis signed_0 signed_word_eqI)

lemma sint_u16_pos: "0 \<le> sint c \<Longrightarrow> c \<noteq> 0 \<Longrightarrow> 0 < sint (c :: u16)"
  by (metis order_le_less signed_0 signed_word_eqI)

lemma finite_thread_ids [simp]: "finite thread_ids"
  by (simp add: thread_ids_def)

lemma card_thread_ids: "card thread_ids \<le> 1048576"
  using card_length [of "tids MAX_THREADS next_tid_init"]
  by (simp add: thread_ids_def MAX_THREADS_def)

lemma thread_ids_nonzero: "t \<in> thread_ids \<Longrightarrow> t \<noteq> 0"
  unfolding thread_ids_def next_tid_init_def
  using tid_nonzero by (auto simp: in_set_conv_nth tids_nth)

lemma card_readers: "S \<subseteq> thread_ids \<Longrightarrow> card S \<le> 1048576"
  using card_mono [OF finite_thread_ids] card_thread_ids by (meson order_trans)

lemma of_nat_card_0_iff: "n \<le> 1048576 \<Longrightarrow> (of_nat n :: u32) = 0 \<longleftrightarrow> n = 0"
  by (simp add: word_of_nat_eq_0_iff) (auto dest: dvd_imp_le)

lemma sint_of_nat_card:
  assumes "n \<le> 1048576"
  shows "sint (of_nat n :: u32) = int n"
proof -
  have "sint (of_int (int n) :: u32) = signed_take_bit 31 (int n)"
    by (simp only: signed_of_int) simp
  also have "\<dots> = int n" using assms by (intro signed_take_bit_int_eq_self) auto
  finally show ?thesis by simp
qed

subsection \<open>The invariant\<close>

text \<open>
  The shared words agree with the counts of the threads: the writer's word names the thread with a
  write count, the read count is the number of threads with a read count, and beside a writer no
  other thread reads.
\<close>

definition rw_core :: "region_caps \<Rightarrow> (u32 \<Rightarrow> u16) \<Rightarrow> (u32 \<Rightarrow> u16) \<Rightarrow> bool" where
  "rw_core c lw lr \<longleftrightarrow>
     (\<forall>t. lw t \<noteq> 0 \<longleftrightarrow> writer_cv c = t \<and> t \<noteq> 0) \<and>
     {t. lr t \<noteq> 0} \<subseteq> thread_ids \<and> g_rd_cnt c = of_nat (card {t. lr t \<noteq> 0}) \<and>
     (\<forall>t u. lw t \<noteq> 0 \<longrightarrow> lr u \<noteq> 0 \<longrightarrow> u = t)"

lemma rw_coreI:
  assumes "\<And>t. lw t \<noteq> 0 \<longleftrightarrow> writer_cv c = t \<and> t \<noteq> 0" and "{t. lr t \<noteq> 0} \<subseteq> thread_ids"
    and "g_rd_cnt c = of_nat (card {t. lr t \<noteq> 0})" and "\<And>t u. lw t \<noteq> 0 \<Longrightarrow> lr u \<noteq> 0 \<Longrightarrow> u = t"
  shows "rw_core c lw lr"
  unfolding rw_core_def using assms by simp

lemma rw_coreD:
  assumes "rw_core c lw lr"
  shows "lw t \<noteq> 0 \<longleftrightarrow> writer_cv c = t \<and> t \<noteq> 0" and "{t. lr t \<noteq> 0} \<subseteq> thread_ids"
    and "g_rd_cnt c = of_nat (card {t. lr t \<noteq> 0})" and "lw t \<noteq> 0 \<Longrightarrow> lr u \<noteq> 0 \<Longrightarrow> u = t"
  using assms unfolding rw_core_def by (blast, blast, blast, blast)

lemma rw_core_cong:
  "writer_cv c' = writer_cv c \<Longrightarrow> g_rd_cnt c' = g_rd_cnt c \<Longrightarrow> rw_core c' lw lr = rw_core c lw lr"
  unfolding rw_core_def by (simp only:)

lemma rw_core_dequeue [simp]: "rw_core (lockop_dequeue wq rq c) lw lr = rw_core c lw lr"
  by (rule rw_core_cong) (simp_all add: lockop_dequeue_def)

lemma rw_core_wake: "lockop_wake c = (wk, c') \<Longrightarrow> rw_core c' lw lr = rw_core c lw lr"
  by (rule rw_core_cong) (auto simp: lockop_wake_def split: if_splits)

lemma rw_core_free:
  assumes "rw_core c lw lr" "writer_cv c = 0"
  shows "lw t = 0"
  using rw_coreD(1) [OF assms(1), of t] assms(2) by simp

text \<open>The condition \<open>canlock\<close> of the code means that no thread but the caller reads.\<close>

lemma canlock_readers:
  assumes core: "rw_core c lw lr" and "sint (g_rd_cnt c) < 2" and "g_rd_cnt c = 0 \<or> lr t \<noteq> 0"
  shows "{u. lr u \<noteq> 0} \<subseteq> {t}"
proof -
  let ?S = "{u. lr u \<noteq> 0}"
  note S = rw_coreD(2,3) [OF core]
  note b = card_readers [OF S(1)]
  have fin: "finite ?S" by (rule finite_subset [OF S(1) finite_thread_ids])
  have "card ?S < 2" using assms(2) unfolding S(2) sint_of_nat_card [OF b] by linarith
  then consider "card ?S = 0" | "card ?S = 1" by linarith
  then show ?thesis
  proof cases
    case 1
    then show ?thesis unfolding card_0_eq [OF fin] by blast
  next
    case 2
    then have "g_rd_cnt c \<noteq> 0" unfolding S(2) of_nat_card_0_iff [OF b] by linarith
    then have "t \<in> ?S" using assms(3) by blast
    moreover obtain x where "?S = {x}" using card_1_singletonE [OF 2] by blast
    ultimately show ?thesis by simp
  qed
qed

lemma lockop_write_core:
  assumes core: "rw_core c lw lr" and t: "t \<in> thread_ids" and w: "w \<noteq> 0"
    and b: "0 \<le> sint (lw t) + w" "sint (lw t) + w \<le> 32767"
    and eq: "lockop_write t w c (lw t) (lr t) = (wq, c', wr')"
  shows "rw_core c' (lw(t := wr')) lr"
proof (cases "lw t = 0")
  case False
  then have cv: "writer_cv c = t" using core unfolding rw_core_def by blast
  have r: "wr' = local_add (lw t) w" "c' = (if wr' = 0 then c\<lparr>writer_cv := 0\<rparr> else c)"
    using eq False by (auto simp: lockop_write_def Let_def)
  show ?thesis
  proof (rule rw_coreI)
    show "(lw(t := wr')) u \<noteq> 0 \<longleftrightarrow> writer_cv c' = u \<and> u \<noteq> 0" for u
      using rw_coreD(1) [OF core, of u] cv thread_ids_nonzero [OF t] unfolding r(2) by auto
    show "x = u" if "(lw(t := wr')) u \<noteq> 0" "lr x \<noteq> 0" for u x
      using that rw_coreD(4) [OF core, of u x] rw_coreD(4) [OF core, of t x] False by (cases "u = t") auto
  qed (use rw_coreD(2,3) [OF core] r(2) in auto)
next
  case True
  show ?thesis
  proof (cases "sint (g_rd_cnt c) < 2 \<and> (g_rd_cnt c = 0 \<or> lr t \<noteq> 0) \<and> writer_cv c = 0")
    case False
    then have "wr' = lw t" "rw_core c' lw lr"
      using eq True core by (auto simp: lockop_write_def Let_def rw_core_def split: if_splits)
    then show ?thesis by simp
  next
    case can: True
    then have r: "wr' = local_add 0 w" "c' = c\<lparr>reader_cv := 1, writer_cv := t\<rparr>"
      using eq True by (auto simp: lockop_write_def Let_def)
    have "wr' \<noteq> 0" using local_add_0_iff [of 0 w] b w True unfolding r(1) by auto
    moreover have "{u. lr u \<noteq> 0} \<subseteq> {t}" using canlock_readers [OF core] can by blast
    moreover have "lw u = 0" for u using rw_core_free [OF core] can by blast
    ultimately show ?thesis
      using thread_ids_nonzero [OF t] rw_coreD(2,3) [OF core] unfolding r(2)
      by (intro rw_coreI) (auto split: if_splits)
  qed
qed

lemma lockop_read_core:
  assumes core: "rw_core c lw lr" and t: "t \<in> thread_ids" and r: "r \<noteq> 0"
    and b: "0 \<le> sint (lr t) + r" "sint (lr t) + r \<le> 32767"
    and eq: "lockop_read t r c (lr t) = (rq, c', rd')"
  shows "rw_core c' lw (lr(t := rd'))"
proof -
  let ?S = "{u. lr u \<noteq> 0}"
  note S = rw_coreD(2,3) [OF core]
  have fin: "finite ?S" by (rule finite_subset [OF S(1) finite_thread_ids])
  have upd: "{u. (lr(t := x)) u \<noteq> 0} = (if x = 0 then ?S - {t} else insert t ?S)" for x
    unfolding set_eq_iff by (cases "x = 0") simp_all
  show ?thesis
  proof (cases "lr t = 0")
    case False
    then have res: "rd' = local_add (lr t) r"
      "c' = (if rd' = 0 then c\<lparr>g_rd_cnt := g_rd_cnt c - 1\<rparr> else c)"
      using eq by (auto simp: lockop_read_def Let_def)
    have "t \<in> ?S" using False by simp
    then have "card ?S = Suc (card (?S - {t}))" using card_Suc_Diff1 [OF fin] by simp
    then have card: "of_nat (card (?S - {t})) = (of_nat (card ?S) - 1 :: u32)" by simp
    have same: "insert t ?S = ?S" using \<open>t \<in> ?S\<close> by blast
    show ?thesis
    proof (rule rw_coreI)
      show "lw u \<noteq> 0 \<longleftrightarrow> writer_cv c' = u \<and> u \<noteq> 0" for u
        using rw_coreD(1) [OF core, of u] unfolding res(2) by simp
      show "{u. (lr(t := rd')) u \<noteq> 0} \<subseteq> thread_ids" unfolding upd same using S(1) by auto
      show "g_rd_cnt c' = of_nat (card {u. (lr(t := rd')) u \<noteq> 0})"
        unfolding upd res(2) same using S(2) card by simp
      show "x = u" if "lw u \<noteq> 0" "(lr(t := rd')) x \<noteq> 0" for u x
        using that rw_coreD(4) [OF core, of u x] rw_coreD(4) [OF core, of u t] False
        by (cases "x = t") simp_all
    qed
  next
    case True
    show ?thesis
    proof (cases "writer_cv c \<noteq> t \<and> writer_cv c \<noteq> 0")
      case waits: True
      then have "rd' = lr t" "c' = c\<lparr>reader_q := reader_q c + 1\<rparr>"
        using eq True by (simp_all add: lockop_read_def Let_def)
      then show ?thesis using core rw_core_cong [of c' c lw lr] by simp
    next
      case False
      then have res: "rd' = local_add 0 r" "c' = c\<lparr>g_rd_cnt := g_rd_cnt c + 1\<rparr>"
        using eq True by (auto simp: lockop_read_def Let_def)
      have nz: "rd' \<noteq> 0" using local_add_0_iff [of 0 r] b r True unfolding res(1) by auto
      then have upd': "{u. (lr(t := rd')) u \<noteq> 0} = insert t ?S" unfolding upd by simp
      have w: "u = t" if "lw u \<noteq> 0" for u using rw_coreD(1) [OF core, of u] that False by blast
      show ?thesis
      proof (rule rw_coreI)
        show "lw u \<noteq> 0 \<longleftrightarrow> writer_cv c' = u \<and> u \<noteq> 0" for u
          using rw_coreD(1) [OF core, of u] unfolding res(2) by simp
        show "{u. (lr(t := rd')) u \<noteq> 0} \<subseteq> thread_ids" unfolding upd' using S(1) t by blast
        show "g_rd_cnt c' = of_nat (card {u. (lr(t := rd')) u \<noteq> 0})"
          unfolding upd' res(2) using fin True S(2) by simp
        show "x = u" if "lw u \<noteq> 0" "(lr(t := rd')) x \<noteq> 0" for u x
          using w [OF that(1)] that rw_coreD(4) [OF core, of u x] by (cases "x = t") simp_all
      qed
    qed
  qed
qed

text \<open>The two requests of a pass, each skipped when its count is zero.\<close>

lemma write_stage:
  assumes core: "rw_core c lw lr" and t: "t \<in> thread_ids" and pos: "0 \<le> sint (lw t)"
    and b: "0 \<le> sint (lw t) + w" "sint (lw t) + w \<le> 32767"
    and eq: "(if w \<noteq> 0 then lockop_write t w c (lw t) (lr t) else (False, c, lw t)) = (wq, c', wr')"
  shows "rw_core c' (lw(t := wr')) lr" and "0 \<le> sint wr'" and "wq \<Longrightarrow> wr' = lw t \<and> 0 < w"
    and "w = 0 \<Longrightarrow> wr' = lw t"
proof -
  show "rw_core c' (lw(t := wr')) lr"
  proof (cases "w = 0")
    case False
    then show ?thesis using lockop_write_core [OF core t False b] eq by simp
  qed (use core eq in auto)
  show "wq \<Longrightarrow> wr' = lw t \<and> 0 < w"
    using eq b(1) by (auto simp: lockop_write_def Let_def split: if_splits)
  show "w = 0 \<Longrightarrow> wr' = lw t" using eq by simp
  have "wr' = lw t \<or> wr' = local_add (lw t) w"
    using eq by (auto simp: lockop_write_def Let_def split: if_splits)
  then show "0 \<le> sint wr'" using pos sint_local_add [of "lw t" w] b by auto
qed

lemma read_stage:
  assumes core: "rw_core c lw lr" and t: "t \<in> thread_ids" and pos: "0 \<le> sint (lr t)"
    and b: "0 \<le> sint (lr t) + r" "sint (lr t) + r \<le> 32767"
    and eq: "(if r \<noteq> 0 then lockop_read t r c (lr t) else (False, c, lr t)) = (rq, c', rd')"
  shows "rw_core c' lw (lr(t := rd'))" and "0 \<le> sint rd'" and "rq \<Longrightarrow> rd' = lr t \<and> 0 < r"
    and "r = 0 \<Longrightarrow> rd' = lr t"
proof -
  show "rw_core c' lw (lr(t := rd'))"
  proof (cases "r = 0")
    case False
    then show ?thesis using lockop_read_core [OF core t False b] eq by simp
  qed (use core eq in auto)
  show "rq \<Longrightarrow> rd' = lr t \<and> 0 < r"
    using eq b(1) by (auto simp: lockop_read_def Let_def split: if_splits)
  show "r = 0 \<Longrightarrow> rd' = lr t" using eq by simp
  have "rd' = lr t \<or> rd' = local_add (lr t) r"
    using eq by (auto simp: lockop_read_def Let_def split: if_splits)
  then show "0 \<le> sint rd'" using pos sint_local_add [of "lr t" r] b by auto
qed

lemma writer_ok_core:
  assumes core: "rw_core c lw lr" and t: "t \<in> thread_ids" and pos: "0 \<le> sint (lw t)"
  shows "writer_ok t c (lw t) (lr t)"
proof (cases "writer_cv c = t")
  case True
  then have w: "lw t \<noteq> 0" using rw_coreD(1) [OF core, of t] thread_ids_nonzero [OF t] by simp
  have "{u. lr u \<noteq> 0} \<subseteq> {t}"
  proof
    fix u assume "u \<in> {u. lr u \<noteq> 0}"
    then have "lr u \<noteq> 0" by simp
    then show "u \<in> {t}" using rw_coreD(4) [OF core w, of u] by blast
  qed
  then have "{u. lr u \<noteq> 0} = (if lr t = 0 then {} else {t})" by (cases "lr t = 0") auto
  then have "g_rd_cnt c = (if lr t = 0 then 0 else 1)" using rw_coreD(3) [OF core] by simp
  then show ?thesis using sint_u16_pos [OF pos w] True by (simp add: writer_ok_def)
qed (simp add: writer_ok_def)

lemma lockop_pass_core:
  assumes core: "rw_core c lw lr" and t: "t \<in> thread_ids" and pos: "0 \<le> sint (lw t)" "0 \<le> sint (lr t)"
    and req: "rw_request (lw t) (lr t) w r"
  shows "\<exists>p. lockop_pass t w r wq rq c (lw t) (lr t) = Inr p
     \<and> rw_core (pr_caps p) (lw(t := pr_wr p)) (lr(t := pr_rd p))
     \<and> 0 \<le> sint (pr_wr p) \<and> 0 \<le> sint (pr_rd p)
     \<and> (pr_wq p \<or> pr_rq p \<longrightarrow> pr_wr p = lw t \<and> pr_rd p = lr t)"
proof -
  have b: "0 \<le> sint (lw t) + w" "sint (lw t) + w \<le> 32767" "0 \<le> sint (lr t) + r" "sint (lr t) + r \<le> 32767"
    and one: "0 < w \<Longrightarrow> r = 0" "0 < r \<Longrightarrow> w = 0" using req unfolding rw_request_def by auto
  let ?c0 = "lockop_dequeue wq rq c"
  obtain wq1 c1 wr1 where 1: "(if w \<noteq> 0 then lockop_write t w ?c0 (lw t) (lr t) else (False, ?c0, lw t)) = (wq1, c1, wr1)"
    by (rule prod_cases3)
  have core0: "rw_core ?c0 lw lr" using core by simp
  note W = write_stage [OF core0 t pos(1) b(1,2) 1]
  obtain rq1 c2 rd1 where 2: "(if r \<noteq> 0 then lockop_read t r c1 (lr t) else (False, c1, lr t)) = (rq1, c2, rd1)"
    by (rule prod_cases3)
  note R = read_stage [OF W(1) t pos(2) b(3,4) 2]
  obtain wk c3 where 3: "lockop_wake c2 = (wk, c3)" by fastforce
  have core3: "rw_core c3 (lw(t := wr1)) (lr(t := rd1))" using R(1) rw_core_wake [OF 3] by simp
  have ok: "writer_ok t c3 wr1 rd1" using writer_ok_core [OF core3 t] W(2) by simp
  let ?p = "\<lparr>pr_wq = wq1, pr_rq = rq1, pr_wake = wk, pr_caps = c3, pr_wr = wr1, pr_rd = rd1\<rparr>"
  have "lockop_pass t w r wq rq c (lw t) (lr t) = Inr ?p"
    unfolding lockop_pass_def Let_def 1 prod.case 2 3 using ok by simp
  moreover have "wq1 \<or> rq1 \<Longrightarrow> wr1 = lw t \<and> rd1 = lr t" using W(3,4) R(3,4) one by blast
  ultimately show ?thesis using core3 W(2) R(2) by (intro exI [of _ ?p]) simp
qed

definition rw_inv :: "rw \<Rightarrow> bool" where
  "rw_inv s \<longleftrightarrow>
     \<not> dead s \<and> rw_core (caps s) (lwr s) (lrd s) \<and> (\<forall>t. 0 \<le> sint (lwr s t) \<and> 0 \<le> sint (lrd s t)) \<and>
     (\<forall>t w r wq rq. rpc s t = Pass w r wq rq \<longrightarrow> t \<in> thread_ids \<and> rw_request (lwr s t) (lrd s t) w r)"

lemma rw_inv_init: "rw_init s \<Longrightarrow> rw_inv s"
proof -
  assume "rw_init s"
  then obtain t where t: "t \<in> thread_ids" "caps s = fresh_caps t" "lwr s = (\<lambda>_. 0)(t := 1)"
    "lrd s = (\<lambda>_. 0)" "rpc s = (\<lambda>_. Idle)" "\<not> dead s" unfolding rw_init_def by blast
  have "rw_core (caps s) (lwr s) (lrd s)"
    using thread_ids_nonzero [OF t(1)] unfolding t by (intro rw_coreI) (auto simp: fresh_caps_def)
  then show ?thesis using t unfolding rw_inv_def by simp
qed

lemma rw_inv_set:
  assumes inv: "rw_inv s" and pc: "rpc s t = Pass w r wq rq"
    and eq: "lockop_pass t w r wq rq (caps s) (lwr s t) (lrd s t) = Inr p"
    and q: "q = Idle \<or> q = Pass w r (pr_wq p) (pr_rq p) \<and> (pr_wq p \<or> pr_rq p)"
  shows "rw_inv (rw_set t p q s)" and "0 \<le> sint (pr_wr p) \<and> 0 \<le> sint (pr_rd p)"
proof -
  have t: "t \<in> thread_ids" "rw_request (lwr s t) (lrd s t) w r" using inv pc unfolding rw_inv_def by blast+
  have core: "rw_core (caps s) (lwr s) (lrd s)" and pos: "0 \<le> sint (lwr s u)" "0 \<le> sint (lrd s u)" for u
    using inv unfolding rw_inv_def by blast+
  from lockop_pass_core [OF core t(1) pos t(2), of wq rq] eq
  have r: "rw_core (pr_caps p) ((lwr s)(t := pr_wr p)) ((lrd s)(t := pr_rd p))"
    "0 \<le> sint (pr_wr p)" "0 \<le> sint (pr_rd p)"
    "pr_wq p \<or> pr_rq p \<Longrightarrow> pr_wr p = lwr s t \<and> pr_rd p = lrd s t" by auto
  then show "0 \<le> sint (pr_wr p) \<and> 0 \<le> sint (pr_rd p)" by simp
  show "rw_inv (rw_set t p q s)"
    using r inv t q unfolding rw_inv_def rw_set_def by auto
qed

lemma rw_inv_step: "rw_inv s \<Longrightarrow> rw_step s s' \<Longrightarrow> rw_inv s'"
proof (erule rw_step.cases, goal_cases)
  case (1 s t w r)
  then show ?case unfolding rw_inv_def by simp
next
  case (2 s t w r)
  then have "lockop_entry_ok t (caps s) (lwr s t) (lrd s t) w r"
    using writer_ok_core [of "caps s" "lwr s" "lrd s" t]
    unfolding rw_inv_def lockop_entry_ok_def rw_request_def by simp
  then show ?case using 2 by blast
next
  case (3 s t w r wq rq p)
  then show ?case using rw_inv_set(1) by auto
next
  case (4 s t w r wq rq p)
  then show ?case using rw_inv_set(1) by auto
next
  case (5 s t w r wq rq f)
  then show ?case using lockop_pass_core [of "caps s" "lwr s" "lrd s" t w r wq rq]
    unfolding rw_inv_def by fastforce
next
  case (6 s t w r wq rq p)
  then show ?case using rw_inv_set(2) [of s t w r wq rq p Idle] by auto
qed

interpretation rwlock: inv_system rw_init rw_step rw_inv
  by unfold_locales (auto intro: rw_inv_init rw_inv_step)

subsection \<open>Properties\<close>


lemma tid_in_thread_ids: "i < MAX_THREADS \<Longrightarrow> 1 + 2 * of_nat i \<in> thread_ids"
  unfolding thread_ids_def next_tid_init_def using nth_mem [of i "tids MAX_THREADS 1"] by (simp add: tids_nth)

lemma one_three_thread_ids [simp]: "1 \<in> thread_ids" "3 \<in> thread_ids"
  using tid_in_thread_ids [of 0] tid_in_thread_ids [of 1] by (simp_all add: MAX_THREADS_def)

text \<open>Thread 1 created the region and writes; thread 3 asks to read and has to wait.\<close>

definition rw_start :: rw where
  "rw_start = \<lparr>caps = fresh_caps 1, lwr = (\<lambda>_. 0)(1 := 1), lrd = (\<lambda>_. 0), rpc = (\<lambda>_. Idle), dead = False\<rparr>"

definition rw_waiting :: rw where
  "rw_waiting = rw_start\<lparr>caps := (fresh_caps 1)\<lparr>reader_q := 1\<rparr>, rpc := (\<lambda>_. Idle)(3 := Pass 0 1 False True)\<rparr>"

lemma rw_start_reachable: "reachable rw_init rw_step rw_start"
  by (rule reachable_init) (auto simp: rw_init_def rw_start_def intro: bexI [of _ 1])

lemma rw_waiting_reachable: "reachable rw_init rw_step rw_waiting"
proof -
  let ?s = "rw_start\<lparr>rpc := (rpc rw_start)(3 := Pass 0 1 False False)\<rparr>"
  have "rw_step rw_start ?s"
    by (rule rw_call) (simp_all add: rw_start_def rw_request_def lockop_entry_ok_def writer_ok_def fresh_caps_def)
  moreover have "rw_step ?s rw_waiting"
  proof -
    let ?p = "\<lparr>pr_wq = False, pr_rq = True, pr_wake = No_wake, pr_caps = (fresh_caps 1)\<lparr>reader_q := 1\<rparr>,
       pr_wr = 0, pr_rd = 0\<rparr>"
    have "lockop_pass 3 0 1 False False (caps ?s) (lwr ?s 3) (lrd ?s 3) = Inr ?p"
      by (simp add: lockop_pass_def lockop_dequeue_def lockop_read_def lockop_wake_def writer_ok_def
          rw_start_def fresh_caps_def Let_def)
    from rw_wait [OF _ _ this] have "rw_step ?s (rw_set 3 ?p (Pass 0 1 False True) ?s)"
      by (simp add: rw_start_def)
    moreover have "rw_set 3 ?p (Pass 0 1 False True) ?s = rw_waiting"
      by (simp add: rw_set_def rw_waiting_def rw_start_def fun_upd_idem)
    ultimately show ?thesis by simp
  qed
  ultimately show ?thesis using rw_start_reachable by (meson reachable_step)
qed





end
