(* ===== verification/Thread_Join.thy ===== *)
theory Thread_Join
  imports Rw_Lock
begin

section \<open>The main thread waits for the others\<close>

text \<open>
  The counter \<open>all_done\<close> (lib/runtime_cyc.c) of threads that have been started and have not ended.
  \<open>_xspawn\<close> adds one before it creates a thread, \<open>_thread_internal2\<close> subtracts one when the thread has
  ended and wakes the main thread when it was the last (lib/runtime_stack.c), and
  \<open>Cyc_Core_main_join\<close> waits with a futex until the counter is 0.

  A state has the counter, the place of the main thread and the place of every other thread.
  \<open>Cyc_Core_main_join\<close> reads the volatile counter twice in one round, in the loop condition and
  for the argument of \<open>futex_wait\<close>, and the kernel reads it once more; each read is a step.
\<close>

subsection \<open>States and steps\<close>

datatype main_pc =
    In_main
  | Join_test
  | Join_arg
  | Join_call u32
  | Join_asleep
  | Joined

datatype thread_pc = Unborn | Running | Wakes_main | Ended

record join_state =
  all_done :: u32
  main_at :: main_pc
  thread_at :: "u32 \<Rightarrow> thread_pc"

text \<open>\<open>__sync_fetch_and_add(&all_done, 1)\<close> of \<open>_xspawn\<close> and the start of the thread.\<close>

definition spawn_count :: "u32 \<Rightarrow> join_state \<Rightarrow> join_state" where
  "spawn_count t s = s\<lparr>all_done := all_done s + 1, thread_at := (thread_at s)(t := Running)\<rparr>"

text \<open>\<open>if (__sync_fetch_and_add(&all_done, -1) == 1) futex_wake(&all_done, 1)\<close>.\<close>

definition exit_count :: "u32 \<Rightarrow> join_state \<Rightarrow> join_state" where
  "exit_count t s =
     s\<lparr>all_done := all_done s - 1, thread_at := (thread_at s)(t := if all_done s = 1 then Wakes_main else Ended)\<rparr>"

definition exit_wake :: "u32 \<Rightarrow> join_state \<Rightarrow> join_state" where
  "exit_wake t s =
     s\<lparr>main_at := (if main_at s = Join_asleep then Join_test else main_at s), thread_at := (thread_at s)(t := Ended)\<rparr>"

text \<open>One step of \<open>while (all_done != 0) futex_wait(&all_done, all_done)\<close>.\<close>

definition main_join :: "join_state \<Rightarrow> main_pc" where
  "main_join s =
     (case main_at s of
        In_main \<Rightarrow> Join_test
      | Join_test \<Rightarrow> if all_done s \<noteq> 0 then Join_arg else Joined
      | Join_arg \<Rightarrow> Join_call (all_done s)
      | Join_call v \<Rightarrow> if all_done s = v then Join_asleep else Join_test
      | p \<Rightarrow> p)"

inductive join_step :: "join_state \<Rightarrow> join_state \<Rightarrow> bool" where
  main_spawns: "main_at s = In_main \<Longrightarrow> t \<in> thread_ids \<Longrightarrow> thread_at s t = Unborn \<Longrightarrow> join_step s (spawn_count t s)"
| thread_spawns: "thread_at s u = Running \<Longrightarrow> t \<in> thread_ids \<Longrightarrow> thread_at s t = Unborn \<Longrightarrow> join_step s (spawn_count t s)"
| thread_ends: "thread_at s t = Running \<Longrightarrow> join_step s (exit_count t s)"
| thread_wakes: "thread_at s t = Wakes_main \<Longrightarrow> join_step s (exit_wake t s)"
| main_steps: "main_at s \<noteq> Join_asleep \<Longrightarrow> main_at s \<noteq> Joined \<Longrightarrow> join_step s (s\<lparr>main_at := main_join s\<rparr>)"

definition join_init :: "join_state \<Rightarrow> bool" where
  "join_init s \<longleftrightarrow> s = \<lparr>all_done = 0, main_at = In_main, thread_at = (\<lambda>_. Unborn)\<rparr>"

inductive_cases join_stepE: "join_step s t"

subsection \<open>The counter counts the threads that run\<close>

definition running :: "join_state \<Rightarrow> u32 set" where
  "running s = {t. thread_at s t = Running}"

definition join_inv :: "join_state \<Rightarrow> bool" where
  "join_inv s \<longleftrightarrow>
     running s \<subseteq> thread_ids \<and> all_done s = of_nat (card (running s)) \<and>
     (main_at s = Joined \<longrightarrow> running s = {}) \<and>
     (\<forall>t. thread_at s t = Wakes_main \<longrightarrow> t \<in> thread_ids)"

lemma running_sel [simp]:
  "running (s\<lparr>main_at := p\<rparr>) = running s"
  "running (spawn_count t s) = insert t (running s)"
  "running (exit_count t s) = running s - {t}"
  "thread_at s t = Wakes_main \<Longrightarrow> running (exit_wake t s) = running s"
  by (auto simp: running_def spawn_count_def exit_count_def exit_wake_def)

lemma count_sel [simp]:
  "all_done (spawn_count t s) = all_done s + 1" "all_done (exit_count t s) = all_done s - 1"
  "all_done (exit_wake t s) = all_done s"
  "main_at (spawn_count t s) = main_at s" "main_at (exit_count t s) = main_at s"
  "thread_at (spawn_count t s) = (thread_at s)(t := Running)"
  "thread_at (exit_count t s) = (thread_at s)(t := if all_done s = 1 then Wakes_main else Ended)"
  "thread_at (exit_wake t s) = (thread_at s)(t := Ended)"
  "main_at (exit_wake t s) = Joined \<longleftrightarrow> main_at s = Joined"
  by (simp_all add: spawn_count_def exit_count_def exit_wake_def)

lemma running_finite: "running s \<subseteq> thread_ids \<Longrightarrow> finite (running s)"
  by (rule finite_subset [OF _ finite_thread_ids])

lemma running_count_0: "running s \<subseteq> thread_ids \<Longrightarrow> (of_nat (card (running s)) :: u32) = 0 \<longleftrightarrow> running s = {}"
  using running_finite [of s] card_readers [of "running s"] by (subst of_nat_eq_0_iff_u32) auto

interpretation join: inv_system join_init join_step join_inv
proof unfold_locales
  show "join_inv s" if "join_init s" for s
    using that by (simp add: join_init_def join_inv_def running_def)
next
  fix s s'
  assume i: "join_inv s" and "join_step s s'"
  have sub: "running s \<subseteq> thread_ids" and cnt: "all_done s = of_nat (card (running s))"
    and main: "main_at s = Joined \<longrightarrow> running s = {}" and wk: "\<forall>t. thread_at s t = Wakes_main \<longrightarrow> t \<in> thread_ids"
    using i unfolding join_inv_def by auto
  note fin = running_finite [OF sub]
  have spawn: "join_inv (spawn_count t s)"
    if "t \<in> thread_ids" "thread_at s t = Unborn" "main_at s \<noteq> Joined" for t
  proof -
    have "t \<notin> running s" using that(2) by (simp add: running_def)
    then show ?thesis using that sub cnt wk fin unfolding join_inv_def by simp
  qed
  from \<open>join_step s s'\<close> show "join_inv s'"
  proof cases
    case (main_spawns t)
    then show ?thesis using spawn by simp
  next
    case (thread_spawns u t)
    then have "main_at s \<noteq> Joined" using main by (auto simp: running_def)
    then show ?thesis using spawn thread_spawns by simp
  next
    case (thread_ends t)
    then have t: "t \<in> running s" by (simp add: running_def)
    then have "card (running s) = Suc (card (running s - {t}))" using card_Suc_Diff1 [OF fin] by simp
    then show ?thesis using thread_ends t sub cnt main wk unfolding join_inv_def by auto
  next
    case (thread_wakes t)
    then show ?thesis using sub cnt main wk unfolding join_inv_def by auto
  next
    case main_steps
    have "running s = {}" if "main_join s = Joined"
      using that main_steps cnt running_count_0 [OF sub] unfolding main_join_def
      by (auto split: main_pc.splits if_splits)
    then show ?thesis using main_steps sub cnt wk unfolding join_inv_def by simp
  qed
qed

text \<open>C7: The main thread returns from \<open>Cyc_Core_main_join\<close> only when every thread that was started has
  ended, in every interleaving, threads that start threads included.\<close>

theorem main_join_waits_for_all:
  assumes "reachable join_init join_step s" and "main_at s = Joined"
  shows "\<forall>t. thread_at s t \<noteq> Running"
  using join.reachable_inv [OF assms(1)] assms(2) by (auto simp: join_inv_def running_def)

subsection \<open>Runs\<close>

definition join_start :: join_state where
  "join_start = \<lparr>all_done = 0, main_at = In_main, thread_at = (\<lambda>_. Unborn)\<rparr>"

definition join_next :: "join_state \<Rightarrow> join_state" where
  "join_next s = s\<lparr>main_at := main_join s\<rparr>"

lemma first_thread_id [simp]: "(3 :: u32) \<in> thread_ids"
proof -
  have "tids MAX_THREADS next_tid_init ! 1 = 3" "1 < length (tids MAX_THREADS next_tid_init)"
    by (simp_all add: tids_nth next_tid_init_def MAX_THREADS_def)
  then show ?thesis unfolding thread_ids_def by (metis nth_mem)
qed

lemma reachable_start: "reachable join_init join_step join_start"
  by (rule reachable_init) (simp add: join_init_def join_start_def)

lemma reachable_next:
  "reachable join_init join_step s \<Longrightarrow> main_at s \<noteq> Join_asleep \<Longrightarrow> main_at s \<noteq> Joined
     \<Longrightarrow> reachable join_init join_step (join_next s)"
  unfolding join_next_def by (erule reachable_step) (rule main_steps)

lemmas reachable_spawn = reachable_step [where step = join_step, OF _ main_spawns]
lemmas reachable_end = reachable_step [where step = join_step, OF _ thread_ends]
lemmas reachable_wake = reachable_step [where step = join_step, OF _ thread_wakes]

theorem main_join_waits_for_all_witness:
  "\<exists>s. reachable join_init join_step s \<and> main_at s = Joined \<and> thread_at s 3 \<noteq> Running"
proof -
  have "reachable join_init join_step (join_next (join_next join_start))"
    by (intro reachable_next reachable_start) (simp_all add: join_next_def join_start_def main_join_def)
  moreover have "main_at (join_next (join_next join_start)) = Joined"
    by (simp add: join_next_def join_start_def main_join_def)
  ultimately show ?thesis using main_join_waits_for_all by blast
qed

text \<open>
  The interleaving in which the last thread ends between the two reads of the counter: the second
  read gives 0, and the kernel finds the 0 it was told to wait on.
\<close>

definition join_hangs :: join_state where
  "join_hangs = join_next (join_next (exit_wake 3 (exit_count 3 (join_next (join_next (spawn_count 3 join_start))))))"

lemma join_hangs_eq: "join_hangs = \<lparr>all_done = 0, main_at = Join_asleep, thread_at = (\<lambda>_. Unborn)(3 := Ended)\<rparr>"
  by (simp add: join_hangs_def join_next_def spawn_count_def exit_count_def exit_wake_def main_join_def join_start_def)

lemma join_hangs_reachable: "reachable join_init join_step join_hangs"
  unfolding join_hangs_def
  by (intro reachable_next reachable_start reachable_spawn reachable_end reachable_wake)
    (simp_all add: join_next_def spawn_count_def exit_count_def exit_wake_def main_join_def join_start_def)

text \<open>C33: The main thread can sleep for ever: a state is reachable in which the counter is 0, every
  thread has ended, the main thread sleeps in \<open>futex_wait\<close> and no step is possible.\<close>

theorem main_join_can_hang:
  "\<exists>s. reachable join_init join_step s \<and> all_done s = 0 \<and> main_at s = Join_asleep \<and>
     thread_at s 3 = Ended \<and> \<not> (\<exists>s'. join_step s s')"
proof -
  have "\<not> join_step join_hangs s'" for s'
    by (auto simp: join_hangs_eq split: if_splits elim: join_stepE)
  then show ?thesis using join_hangs_reachable by (intro exI [of _ join_hangs]) (simp add: join_hangs_eq)
qed

end
