(* ===== verification/Xregion.thy ===== *)
theory Xregion
  imports Rw_Lock Key_Table Region_Pages
begin

section \<open>Shared regions\<close>

text \<open>
  The X-region part of lib/runtime_memory.c as one thread runs it: creation and release of a shared
  region, allocation from it, files attached to it, and the capability operations
  \<open>__xregion_lockop\<close>, \<open>__xregion_refcnt\<close> and \<open>_xregion_cap\<close>.

  The state a thread works on is the record \<open>world\<close>: its identifier and key table (struct
  \<open>_ThreadKey\<close>), the tree handles it owns, and the region handles and heap it shares with others.
  While it waits for a lock the other threads run: their effect on the shared state is the argument
  \<open>env\<close> of the operations that can wait.  The latch of a region is taken and given back inside one
  pass of the lock loop (theory Rw_Lock); where the code holds it across an allocation it is the
  field \<open>g_lock\<close>.

  The two recursive functions of the code call themselves from a loop over the siblings of a
  handle.  Each is one definition with a flag that tells the loop (\<open>True\<close>) from the function
  (\<open>False\<close>).  The list of files attached to a region is a list; calls of their release functions
  are recorded in \<open>unmapped\<close>.
\<close>

subsection \<open>struct _XRegionHandle and the state\<close>

record mapped =
  m_begin :: ptr
  m_size :: u32
  m_mfree :: ptr

record xregion_handle =
  xr_is_xrgn :: u32
  xr_caps :: region_caps
  xr_curr :: ptr
  xr_offset :: ptr
  xr_last_plus_one :: ptr
  xr_key :: ptr
  single_thread_key :: ptr
  xr_mapped :: "mapped list"

definition sizeof_XRegionHandle :: u32 where
  "sizeof_XRegionHandle = 56"

record world =
  tid :: u32
  tbl :: hashtable
  keys :: store
  regions :: "ptr \<Rightarrow> xregion_handle"
  hp :: heap
  unmapped :: "mapped list"

definition upd_key :: "ptr \<Rightarrow> (xtree_handle \<Rightarrow> xtree_handle) \<Rightarrow> world \<Rightarrow> world" where
  "upd_key k f W = W\<lparr>keys := (keys W)(k := f (keys W k))\<rparr>"

definition upd_region :: "ptr \<Rightarrow> (xregion_handle \<Rightarrow> xregion_handle) \<Rightarrow> world \<Rightarrow> world" where
  "upd_region z f W = W\<lparr>regions := (regions W)(z := f (regions W z))\<rparr>"

definition upd_caps :: "ptr \<Rightarrow> (region_caps \<Rightarrow> region_caps) \<Rightarrow> world \<Rightarrow> world" where
  "upd_caps z f = upd_region z (\<lambda>r. r\<lparr>xr_caps := f (xr_caps r)\<rparr>)"

subsection \<open>The key table of the thread\<close>

definition key_search :: "ptr \<Rightarrow> world \<Rightarrow> (ptr \<times> world) ores" where
  "key_search z W =
     bind_ores (hashtable_search (tbl W) z (keys W)) (\<lambda>(e, h). Some (Inr (e, W\<lparr>tbl := h\<rparr>)))"

definition get_tkey :: "ptr \<Rightarrow> world \<Rightarrow> (ptr \<times> world) ores" where
  "get_tkey z W =
     bind_ores (assert_o (100 < z) ''get_tkey: handle'') (\<lambda>_.
     bind_ores
       (if g_rcnt (xr_caps (regions W z)) = 1 \<and> single_thread_key (regions W z) \<noteq> NULL
        then let ret = single_thread_key (regions W z)
             in if ret = NULL then key_search z W else Some (Inr (ret, W))
        else key_search z W) (\<lambda>(ret, W).
     bind_ores (assert_o (100 < ret) ''get_tkey: key'') (\<lambda>_. Some (Inr (ret, W)))))"

definition hinsert :: "bool \<Rightarrow> ptr \<Rightarrow> world \<Rightarrow> world ores" where
  "hinsert mem tkey W =
     map_option (\<lambda>(r, h, st). Inr (W\<lparr>tbl := h, keys := st\<rparr>)) (hashtable_insert mem (tbl W) tkey (keys W))"

definition hremove :: "bool \<Rightarrow> ptr \<Rightarrow> world \<Rightarrow> world ores" where
  "hremove mem z W =
     bind_ores (hashtable_remove mem (tbl W) z (keys W)) (\<lambda>(r, h, st). Some (Inr (W\<lparr>tbl := h, keys := st\<rparr>)))"

subsection \<open>Creation and release\<close>

definition Cyc_set_default_xregion_page_size :: "u32 \<Rightarrow> u32 \<Rightarrow> bool \<times> u32" where
  "Cyc_set_default_xregion_page_size s default_xregion_page_size = (True, s)"

definition initial_handle :: "u32 \<Rightarrow> ptr \<Rightarrow> xregion_handle" where
  "initial_handle self tkey =
     \<lparr>xr_is_xrgn = 1,
      xr_caps = \<lparr>g_rcnt = 1, g_lock = 0, writer_cv = self, reader_cv = 0, writer_q = 0, reader_q = 0, g_rd_cnt = 0\<rparr>,
      xr_curr = NULL, xr_offset = 0, xr_last_plus_one = 0, xr_key = NULL,
      single_thread_key = tkey, xr_mapped = []\<rparr>"

text \<open>Step 2.1: enter the key in the tree of the parent; the result is the parent's lock counts.\<close>

definition link_to_parent :: "ptr \<Rightarrow> ptr \<Rightarrow> world \<Rightarrow> (u16 \<times> u16 \<times> world) ores" where
  "link_to_parent parent tkey W =
     (if parent \<noteq> NULL
      then bind_ores (get_tkey parent W) (\<lambda>(pk, W).
             let W = upd_key tkey (\<lambda>k. k\<lparr>next_key := sub_keys (keys W pk)\<rparr>) W;
                 W = upd_key pk (\<lambda>k. k\<lparr>sub_keys := tkey\<rparr>) W;
                 W = upd_key tkey (\<lambda>k. k\<lparr>parent_key := pk\<rparr>) W
             in Some (Inr (lc_wr_cnt (keys W pk), lc_rd_cnt (keys W pk), W)))
      else Some (Inr (0, 0, upd_key tkey (\<lambda>k. k\<lparr>parent_key := NULL, next_key := NULL\<rparr>) W)))"

definition new_xregion :: "libc \<Rightarrow> bool \<Rightarrow> ptr \<Rightarrow> ptr \<Rightarrow> world \<Rightarrow> (ptr \<times> world) ores" where
  "new_xregion alloc mem parent tkey W =
     (let ret = initial_handle (tid W) tkey;
          (z, h) = libc_malloc alloc sizeof_XRegionHandle (hp W)
      in bind_ores (assert_o (100 < z) ''_new_xregion: malloc'') (\<lambda>_.
         let W = W\<lparr>hp := h, regions := (regions W)(z := ret)\<rparr>
         in bind_ores (assert_o (xr_curr (regions W z) = NULL) ''_new_xregion: curr'') (\<lambda>_.
            bind_ores (link_to_parent parent tkey W) (\<lambda>(wr_par, rd_par, W).
            let W = upd_key tkey (\<lambda>k. k\<lparr>xt_next := NULL, sub_keys := NULL,
                      lc_wr_cnt := wr_par + 1, lc_rd_cnt := rd_par, lc_rcnt := 1, xt_h := z\<rparr>) W
            in bind_ores (hinsert mem tkey W) (\<lambda>W. Some (Inr (z, W)))))))"

text \<open>
  \<open>memset(r, sizeof(struct _XRegionHandle), 1)\<close> writes the one byte 56 to the first field.
\<close>

definition xregion_free :: "ptr \<Rightarrow> world \<Rightarrow> world ores" where
  "xregion_free r W =
     (if r = NULL then Some (Inl (Errquit ''[RUNTIME _xregion_free] r is NULL.''))
      else let W = W\<lparr>unmapped := unmapped W @ xr_mapped (regions W r)\<rparr>
           in map_option
                (\<lambda>h. let W = W\<lparr>hp := h\<rparr>;
                         W = upd_region r (\<lambda>x. x\<lparr>xr_curr := NULL, xr_offset := 0, xr_last_plus_one := 0\<rparr>) W;
                         W = upd_region r (\<lambda>x. x\<lparr>xr_is_xrgn := (xr_is_xrgn x AND NOT 255) OR sizeof_XRegionHandle\<rparr>) W
                     in Inr (W\<lparr>hp := libc_free r (hp W)\<rparr>))
                (free_pages (xr_curr (regions W r)) (hp W)))"

definition attach_region :: "ptr \<Rightarrow> ptr \<Rightarrow> u32 \<Rightarrow> ptr \<Rightarrow> world \<Rightarrow> world" where
  "attach_region r arg len fn W =
     upd_region r (\<lambda>x. x\<lparr>xr_mapped := \<lparr>m_begin = arg, m_size = len, m_mfree = fn\<rparr> # xr_mapped x\<rparr>) W"

subsection \<open>Allocation\<close>

text \<open>
  An exception thrown by \<open>_xregion_malloc\<close> leaves the state as it is at that point, so the result
  pairs the outcome with the state.
\<close>

definition xregion_page :: "libc \<Rightarrow> u32 \<Rightarrow> ptr \<Rightarrow> u32 \<Rightarrow> world \<Rightarrow> unit res \<times> world" where
  "xregion_page alloc default_xregion_page_size r s W =
     (let x = regions W r
      in if s > xr_last_plus_one x - xr_offset x
         then let next_size = (if xr_offset x = 0 then default_xregion_page_size
                               else (xr_last_plus_one x - (xr_curr x + sizeof_RegionPage)) * 2);
                  next_size = (if next_size < s then s else next_size);
                  (p, h) = GC_malloc_atomic alloc (sizeof_RegionPage + next_size) (hp W)
              in if p = NULL then (Inl (Throw Bad_alloc), W)
                 else let h = set_page_next p (xr_curr x) h;
                          W = W\<lparr>hp := h\<rparr>;
                          W = upd_region r (\<lambda>x. x\<lparr>xr_curr := p, xr_offset := p + sizeof_RegionPage,
                                xr_last_plus_one := p + sizeof_RegionPage + next_size\<rparr>) W
                      in (Inr (), W)
         else (Inr (), W))"

definition xregion_malloc :: "libc \<Rightarrow> u32 \<Rightarrow> ptr \<Rightarrow> u32 \<Rightarrow> world \<Rightarrow> ptr res \<times> world" where
  "xregion_malloc alloc default_xregion_page_size r s W =
     (let s = round_up s;
          rcnt = g_rcnt (xr_caps (regions W r));
          W = (if rcnt \<noteq> 1 then upd_caps r (\<lambda>c. c\<lparr>g_lock := tid W\<rparr>) W else W)
      in case xregion_page alloc default_xregion_page_size r s W of
           (Inl f, W) \<Rightarrow> (Inl f, W)
         | (Inr _, W) \<Rightarrow>
             let off = xr_offset (regions W r);
                 W = upd_region r (\<lambda>x. x\<lparr>xr_offset := xr_offset x + s\<rparr>) W
             in if rcnt \<noteq> 1
                then if g_lock (xr_caps (regions W r)) = tid W
                     then (Inr off, upd_caps r (\<lambda>c. c\<lparr>g_lock := 0\<rparr>) W)
                     else (Inl (Errquit ''unlock: assertion failed''), W)
                else (Inr off, W))"

definition xregion_calloc :: "libc \<Rightarrow> u32 \<Rightarrow> ptr \<Rightarrow> u32 \<Rightarrow> world \<Rightarrow> ptr res \<times> world" where
  "xregion_calloc alloc default_xregion_page_size r s W = xregion_malloc alloc default_xregion_page_size r s W"

subsection \<open>Locking a tree\<close>

definition store_pass :: "ptr \<Rightarrow> pass_result \<Rightarrow> world \<Rightarrow> world" where
  "store_pass tk p W =
     upd_key tk (\<lambda>k. k\<lparr>lc_wr_cnt := pr_wr p, lc_rd_cnt := pr_rd p\<rparr>)
       (upd_caps (xt_h (keys W tk)) (\<lambda>_. pr_caps p) W)"

partial_function (option) lockop_loop ::
    "(world \<Rightarrow> world) \<Rightarrow> ptr \<Rightarrow> int \<Rightarrow> int \<Rightarrow> bool \<Rightarrow> bool \<Rightarrow> world \<Rightarrow> world ores" where
  "lockop_loop env tk w r wait_wq wait_rq W =
     (let k = keys W tk
      in case lockop_pass (tid W) w r wait_wq wait_rq (xr_caps (regions W (xt_h k))) (lc_wr_cnt k) (lc_rd_cnt k) of
           Inl f \<Rightarrow> Some (Inl f)
         | Inr p \<Rightarrow>
             let W = store_pass tk p W
             in if pr_wq p \<or> pr_rq p then lockop_loop env tk w r (pr_wq p) (pr_rq p) (env W)
                else Some (Inr W))"

definition lockop_asserts :: "ptr \<Rightarrow> int \<Rightarrow> int \<Rightarrow> world \<Rightarrow> bool" where
  "lockop_asserts tk w r W =
     lockop_entry_ok (tid W) (xr_caps (regions W (xt_h (keys W tk)))) (lc_wr_cnt (keys W tk)) (lc_rd_cnt (keys W tk)) w r"

partial_function (option) xregion_lockop ::
    "(world \<Rightarrow> world) \<Rightarrow> bool \<Rightarrow> ptr \<Rightarrow> int \<Rightarrow> int \<Rightarrow> world \<Rightarrow> world ores" where
  "xregion_lockop env siblings tk w r W =
     (if siblings
      then if tk = NULL then Some (Inr W)
           else bind_ores (xregion_lockop env False tk w r W) (\<lambda>W.
                xregion_lockop env True (next_key (keys W tk)) w r W)
      else if w = 0 \<and> r = 0 then Some (Inr W)
      else bind_ores (assert_o (0 < lc_rcnt (keys W tk)) ''__xregion_lockop: local_ref_cnt'') (\<lambda>_.
           bind_ores (xregion_lockop env True (sub_keys (keys W tk)) w r W) (\<lambda>W.
           bind_ores (assert_o (lockop_asserts tk w r W) ''__xregion_lockop: entry'') (\<lambda>_.
           bind_ores (lockop_loop env tk w r False False W) (\<lambda>W.
           bind_ores (assert_o (0 \<le> sint (lc_wr_cnt (keys W tk)) \<and> 0 \<le> sint (lc_rd_cnt (keys W tk)))
                        ''__xregion_lockop: exit'') (\<lambda>_. Some (Inr W)))))))"

subsection \<open>Reference counts\<close>

text \<open>\<open>for (prev = NULL, iter = start; iter != NULL && iter != tk; prev = iter, iter = iter->next_key);\<close>\<close>

partial_function (option) find_prev_key :: "ptr \<Rightarrow> ptr \<Rightarrow> ptr \<Rightarrow> store \<Rightarrow> ptr option" where
  "find_prev_key tk prev iter st =
     (if iter \<noteq> NULL \<and> iter \<noteq> tk then find_prev_key tk iter (next_key (st iter)) st else Some prev)"

definition unlink_key :: "ptr \<Rightarrow> world \<Rightarrow> world option" where
  "unlink_key tk W =
     (let parent = parent_key (keys W tk)
      in if parent \<noteq> NULL
         then map_option
                (\<lambda>prev. let W = (if prev = NULL then upd_key parent (\<lambda>k. k\<lparr>sub_keys := next_key (keys W tk)\<rparr>) W
                                 else upd_key prev (\<lambda>k. k\<lparr>next_key := next_key (keys W tk)\<rparr>) W)
                        in upd_key tk (\<lambda>k. k\<lparr>parent_key := NULL\<rparr>) W)
                (find_prev_key tk NULL (sub_keys (keys W parent)) (keys W))
         else Some W)"

text \<open>Steps 3 and 4 of \<open>__xregion_refcnt\<close>.\<close>

definition drop_region :: "ptr \<Rightarrow> world \<Rightarrow> world ores" where
  "drop_region tk W =
     Option.bind (unlink_key tk W) (\<lambda>W.
       let W = upd_key tk (\<lambda>k. k\<lparr>lc_rcnt := 0\<rparr>) W;
           z = xt_h (keys W tk);
           prev_cnt = g_rcnt (xr_caps (regions W z));
           W = upd_caps z (\<lambda>c. c\<lparr>g_rcnt := g_rcnt c - 1\<rparr>) W
       in if prev_cnt = 1
          then bind_ores (xregion_free z W) (\<lambda>W. Some (Inr (upd_key tk (\<lambda>k. k\<lparr>xt_h := NULL\<rparr>) W)))
          else Some (Inr W))"

partial_function (option) xregion_refcnt ::
    "(world \<Rightarrow> world) \<Rightarrow> bool \<Rightarrow> bool \<Rightarrow> ptr \<Rightarrow> int \<Rightarrow> world \<Rightarrow> (bool \<times> world) ores" where
  "xregion_refcnt env mem siblings tk rg W =
     (if siblings
      then if tk = NULL then Some (Inr (False, W))
           else bind_ores (xregion_refcnt env mem False tk (- uint (lc_rcnt (keys W tk))) W) (\<lambda>(_, W).
                xregion_refcnt env mem True (next_key (keys W tk)) 0 W)
      else bind_ores (assert_o (0 < lc_rcnt (keys W tk) \<and> 0 \<le> uint (lc_rcnt (keys W tk)) + rg
                        \<and> 0 < g_rcnt (xr_caps (regions W (xt_h (keys W tk))))) ''__xregion_refcnt'') (\<lambda>_.
           if 0 < uint (lc_rcnt (keys W tk)) + rg
           then Some (Inr (True, upd_key tk (\<lambda>k. k\<lparr>lc_rcnt := of_int (uint (lc_rcnt k) + rg)\<rparr>) W))
           else bind_ores (hremove mem (xt_h (keys W tk)) W) (\<lambda>W.
                bind_ores (xregion_refcnt env mem True (sub_keys (keys W tk)) 0 W) (\<lambda>(_, W).
                bind_ores (xregion_lockop env False tk (- uint (lc_wr_cnt (keys W tk)))
                             (- uint (lc_rd_cnt (keys W tk))) W) (\<lambda>W.
                bind_ores (drop_region tk W) (\<lambda>W. Some (Inr (False, W))))))))"

definition xregion_cap_th :: "(world \<Rightarrow> world) \<Rightarrow> bool \<Rightarrow> int \<Rightarrow> int \<Rightarrow> int \<Rightarrow> ptr \<Rightarrow> world \<Rightarrow> world ores" where
  "xregion_cap_th env mem rgc wc rc t W =
     bind_ores (xregion_refcnt env mem False t rgc W) (\<lambda>(alive, W).
       if alive \<and> (wc \<noteq> 0 \<or> rc \<noteq> 0) then xregion_lockop env False t wc rc W else Some (Inr W))"

definition xregion_cap :: "(world \<Rightarrow> world) \<Rightarrow> bool \<Rightarrow> ptr \<Rightarrow> int \<Rightarrow> int \<Rightarrow> int \<Rightarrow> world \<Rightarrow> world ores" where
  "xregion_cap env mem h rgc wc rc W =
     bind_ores (get_tkey h W) (\<lambda>(t, W). xregion_cap_th env mem rgc wc rc t W)"

subsection \<open>Looking up keys\<close>

lemma upd_sel [simp]:
  "keys (upd_key k f W) e = (if e = k then f (keys W k) else keys W e)"
  "regions (upd_key k f W) = regions W" "tbl (upd_key k f W) = tbl W" "hp (upd_key k f W) = hp W"
  "tid (upd_key k f W) = tid W" "unmapped (upd_key k f W) = unmapped W"
  "regions (upd_region z g W) x = (if x = z then g (regions W z) else regions W x)"
  "keys (upd_region z g W) = keys W" "tbl (upd_region z g W) = tbl W" "hp (upd_region z g W) = hp W"
  "tid (upd_region z g W) = tid W" "unmapped (upd_region z g W) = unmapped W"
  by (simp_all add: upd_key_def upd_region_def)

lemma upd_caps_sel [simp]:
  "regions (upd_caps z g W) x = (if x = z then (regions W z)\<lparr>xr_caps := g (xr_caps (regions W z))\<rparr> else regions W x)"
  "keys (upd_caps z g W) = keys W" "tbl (upd_caps z g W) = tbl W" "hp (upd_caps z g W) = hp W"
  "tid (upd_caps z g W) = tid W" "unmapped (upd_caps z g W) = unmapped W"
  by (simp_all add: upd_caps_def)

text \<open>The table only depends on the key and link fields of its entries.\<close>

lemma ht_refines_frame:
  assumes ref: "ht_refines h st m"
    and same: "\<And>e. e \<in> ran m \<Longrightarrow> xt_h (st' e) = xt_h (st e) \<and> xt_next (st' e) = xt_next (st e)"
  shows "ht_refines h st' m"
proof -
  obtain bs where bs: "ht_rep h st bs" "cache_ok h (set (concat bs))"
    and m: "\<And>k e. m k = Some e \<longleftrightarrow> e \<in> set (concat bs) \<and> xt_h (st e) = k"
    using ref unfolding ht_refines_def by blast
  have ran: "ran m = set (concat bs)" by (rule ht_refines_ran [OF m])
  have chain: "chain st' p es = chain st p es" if "set es \<subseteq> ran m" for p es
    using that by (induction es arbitrary: p) (simp_all add: same)
  have sub: "set (bs ! i) \<subseteq> ran m" if "i < length bs" for i
    using that unfolding ran by (auto dest: nth_mem)
  have "list_all2 (chain st') (table h) bs = list_all2 (chain st) (table h) bs"
    unfolding list_all2_conv_all_nth using chain [OF sub] by auto
  moreover have "placed (tablelength h) st' bs = placed (tablelength h) st bs"
  proof -
    have "bucket_of (tablelength h) st' e = bucket_of (tablelength h) st e" if "i < length bs" "e \<in> set (bs ! i)" for i e
      using same [of e] sub [OF that(1)] that(2) unfolding bucket_of_def by auto
    then show ?thesis unfolding placed_def by auto
  qed
  ultimately have "ht_rep h st' bs" using bs(1) unfolding ht_rep_def by metis
  moreover have "m k = Some e \<longleftrightarrow> e \<in> set (concat bs) \<and> xt_h (st' e) = k" for k e
    using m [of k e] same [of e] unfolding ran by (cases "e \<in> set (concat bs)") simp_all
  ultimately show ?thesis using bs(2) unfolding ht_refines_def by blast
qed

lemma hashtable_search_primeindex:
  "hashtable_search h k st = Some (Inr (e, h')) \<Longrightarrow> primeindex h' = primeindex h"
  by (auto simp: hashtable_search_def split: if_splits)

lemma key_search_hit:
  assumes "ht_refines (tbl W) (keys W) m" and "m z = Some e"
  shows "\<exists>h. key_search z W = Some (Inr (e, W\<lparr>tbl := h\<rparr>)) \<and> ht_refines h (keys W) m
     \<and> primeindex h = primeindex (tbl W)"
proof -
  obtain h where "hashtable_search (tbl W) z (keys W) = Some (Inr (e, h))" "ht_refines h (keys W) m"
    using ht.search_hit [OF assms] by blast
  then show ?thesis using hashtable_search_primeindex unfolding key_search_def by (intro exI [of _ h]) auto
qed

text \<open>The shortcut through \<open>single_thread_key\<close> gives the same key as the table.\<close>

definition shortcut_ok :: "ptr \<Rightarrow> ptr \<Rightarrow> world \<Rightarrow> bool" where
  "shortcut_ok z e W \<longleftrightarrow>
     (g_rcnt (xr_caps (regions W z)) = 1 \<and> single_thread_key (regions W z) \<noteq> NULL \<longrightarrow>
      single_thread_key (regions W z) = e)"

lemma get_tkey_hit:
  assumes "ht_refines (tbl W) (keys W) m" and "m z = Some e" and "100 < z" and "100 < e" and "shortcut_ok z e W"
  shows "\<exists>h. get_tkey z W = Some (Inr (e, W\<lparr>tbl := h\<rparr>)) \<and> ht_refines h (keys W) m
     \<and> primeindex h = primeindex (tbl W)"
proof (cases "g_rcnt (xr_caps (regions W z)) = 1 \<and> single_thread_key (regions W z) \<noteq> NULL")
  case True
  then have "single_thread_key (regions W z) = e" using assms(5) unfolding shortcut_ok_def by blast
  then have "get_tkey z W = Some (Inr (e, W))" using True assms(3,4) unfolding get_tkey_def by simp
  then show ?thesis using assms(1) by (intro exI [of _ "tbl W"]) simp
next
  case False
  obtain h where "key_search z W = Some (Inr (e, W\<lparr>tbl := h\<rparr>))" "ht_refines h (keys W) m"
    "primeindex h = primeindex (tbl W)"
    using key_search_hit [OF assms(1,2)] by blast
  then show ?thesis using False assms(3,4) unfolding get_tkey_def by auto
qed

subsection \<open>Creating a region\<close>

text \<open>What \<open>link_to_parent\<close> does to the state, with the key of the parent if there is one.\<close>

definition parent_ok :: "ptr \<Rightarrow> ptr \<Rightarrow> (ptr \<rightharpoonup> ptr) \<Rightarrow> world \<Rightarrow> bool" where
  "parent_ok parent pk m W \<longleftrightarrow>
     (parent = NULL \<longrightarrow> pk = NULL) \<and>
     (parent \<noteq> NULL \<longrightarrow> m parent = Some pk \<and> 100 < parent \<and> 100 < pk \<and> shortcut_ok parent pk W)"

lemma link_to_parent_spec:
  assumes ref: "ht_refines (tbl W) (keys W) m" and par: "parent_ok parent pk m W" and tk: "tkey \<noteq> pk" "tkey \<noteq> NULL"
  shows "\<exists>W'. link_to_parent parent tkey W =
       Some (Inr (if parent = NULL then 0 else lc_wr_cnt (keys W pk), if parent = NULL then 0 else lc_rd_cnt (keys W pk), W'))
     \<and> ht_refines (tbl W') (keys W) m \<and> primeindex (tbl W') = primeindex (tbl W) \<and> regions W' = regions W \<and> tid W' = tid W \<and> hp W' = hp W
     \<and> (\<forall>e. e \<noteq> tkey \<longrightarrow> keys W' e = (if parent \<noteq> NULL \<and> e = pk then (keys W e)\<lparr>sub_keys := tkey\<rparr> else keys W e))
     \<and> parent_key (keys W' tkey) = pk
     \<and> next_key (keys W' tkey) = (if parent = NULL then NULL else sub_keys (keys W pk))"
proof (cases "parent = NULL")
  case True
  then show ?thesis using par ref unfolding link_to_parent_def parent_ok_def by simp
next
  case False
  then have p: "m parent = Some pk" "100 < parent" "100 < pk" "shortcut_ok parent pk W"
    using par unfolding parent_ok_def by auto
  obtain h where "get_tkey parent W = Some (Inr (pk, W\<lparr>tbl := h\<rparr>))" "ht_refines h (keys W) m"
    "primeindex h = primeindex (tbl W)"
    using get_tkey_hit [OF ref p] by blast
  then show ?thesis using False tk unfolding link_to_parent_def by (simp add: Let_def)
qed

lemma hinsert_fresh:
  assumes "ht_refines (tbl W) (keys W) m" and "m (xt_h (keys W k)) = None" and "k \<noteq> NULL"
    and "mem" and "primeindex (tbl W) < 25"
  shows "\<exists>h st n. hinsert mem k W = Some (Inr (W\<lparr>tbl := h, keys := st\<rparr>))
     \<and> ht_refines h st (m(xt_h (keys W k) \<mapsto> k)) \<and> st k = (keys W k)\<lparr>xt_next := n\<rparr>"
proof -
  obtain r h st where i: "hashtable_insert mem (tbl W) k (keys W) = Some (r, h, st)"
    "same_but_next (insert k (ran m)) (keys W) st"
    "if r then ht_refines h st (m(xt_h (keys W k) \<mapsto> k))
     else h = tbl W \<and> st = keys W \<and> (mem \<longrightarrow> primeindex (tbl W) = prime_table_length - 1)"
    using hashtable_insert_spec [OF assms(1-3), of mem] by blast
  have "r" using i(3) assms(4,5) by (simp add: prime_table_length_def primes_def split: if_splits)
  moreover obtain n where "st k = (keys W k)\<lparr>xt_next := n\<rparr>" using i(2) unfolding same_but_next_def by blast
  ultimately show ?thesis using i by (auto simp: hinsert_def)
qed

lemma new_xregion_spec:
  assumes ref: "ht_refines (tbl W) (keys W) m" and ok: "libc_ok alloc"
    and z: "alloc (hp W) sizeof_XRegionHandle = z" "100 < z" and live: "dom m \<subseteq> fst ` set (live (hp W))"
    and tk: "100 < tkey" "tkey \<notin> ran m" and par: "parent_ok parent pk m W" and "tkey \<noteq> pk"
    and room: "mem" "primeindex (tbl W) < 25"
  shows "\<exists>W'. new_xregion alloc mem parent tkey W = Some (Inr (z, W'))
     \<and> ht_refines (tbl W') (keys W') (m(z \<mapsto> tkey))
     \<and> regions W' = (regions W)(z := initial_handle (tid W) tkey) \<and> tid W' = tid W
     \<and> xt_h (keys W' tkey) = z \<and> lc_rcnt (keys W' tkey) = 1 \<and> sub_keys (keys W' tkey) = NULL
     \<and> lc_wr_cnt (keys W' tkey) = (if parent = NULL then 0 else lc_wr_cnt (keys W pk)) + 1
     \<and> lc_rd_cnt (keys W' tkey) = (if parent = NULL then 0 else lc_rd_cnt (keys W pk))
     \<and> parent_key (keys W' tkey) = pk"
proof -
  let ?wr = "if parent = NULL then 0 else lc_wr_cnt (keys W pk)"
  let ?rd = "if parent = NULL then 0 else lc_rd_cnt (keys W pk)"
  have nn: "z \<noteq> NULL" "tkey \<noteq> NULL" using z(2) tk(1) by auto
  have fresh: "m z = None" using libc_okD(3) [OF ok, of "hp W" sizeof_XRegionHandle] z nn live by (auto simp: domIff)
  define W1 where "W1 = W\<lparr>hp := (hp W)\<lparr>live := (z, sizeof_XRegionHandle) # live (hp W)\<rparr>,
     regions := (regions W)(z := initial_handle (tid W) tkey)\<rparr>"
  have malloc: "libc_malloc alloc sizeof_XRegionHandle (hp W) = (z, hp W1)"
    using z nn by (simp add: libc_malloc_def W1_def Let_def)
  have "parent \<noteq> z" if "parent \<noteq> NULL" using that par fresh unfolding parent_ok_def by auto
  then have "shortcut_ok parent pk W1" if "parent \<noteq> NULL"
    using that par unfolding parent_ok_def shortcut_ok_def W1_def by auto
  then have par1: "parent_ok parent pk m W1" using par unfolding parent_ok_def by simp
  have W1: "keys W1 = keys W" "tbl W1 = tbl W" "tid W1 = tid W" "regions W1 = (regions W)(z := initial_handle (tid W) tkey)"
    by (simp_all add: W1_def)
  have ref1: "ht_refines (tbl W1) (keys W1) m" using ref unfolding W1 .
  obtain W2 where
    l: "link_to_parent parent tkey W1 = Some (Inr (?wr, ?rd, W2))"
    and W2: "ht_refines (tbl W2) (keys W) m" "primeindex (tbl W2) = primeindex (tbl W)"
      "regions W2 = (regions W)(z := initial_handle (tid W) tkey)" "tid W2 = tid W"
    and k2: "\<forall>e. e \<noteq> tkey \<longrightarrow> keys W2 e = (if parent \<noteq> NULL \<and> e = pk then (keys W e)\<lparr>sub_keys := tkey\<rparr> else keys W e)"
    and pk2: "parent_key (keys W2 tkey) = pk"
    using link_to_parent_spec [OF ref1 par1 assms(9) nn(2), unfolded W1] by blast
  define W3 where "W3 = upd_key tkey (\<lambda>k. k\<lparr>xt_next := NULL, sub_keys := NULL,
     lc_wr_cnt := ?wr + 1, lc_rd_cnt := ?rd, lc_rcnt := 1, xt_h := z\<rparr>) W2"
  have ref3: "ht_refines (tbl W3) (keys W3) m"
  proof (rule ht_refines_frame [where st = "keys W"])
    show "ht_refines (tbl W3) (keys W) m" using W2(1) by (simp add: W3_def)
    show "xt_h (keys W3 e) = xt_h (keys W e) \<and> xt_next (keys W3 e) = xt_next (keys W e)" if "e \<in> ran m" for e
    proof -
      have ne: "e \<noteq> tkey" using that tk(2) by blast
      then have "keys W3 e = keys W2 e" by (simp add: W3_def)
      then show ?thesis using k2 [rule_format, OF ne] by simp
    qed
  qed
  have h3: "xt_h (keys W3 tkey) = z" by (simp add: W3_def)
  have "m (xt_h (keys W3 tkey)) = None" "primeindex (tbl W3) < 25"
    using fresh W2(2) room(2) unfolding h3 by (simp_all add: W3_def)
  from hinsert_fresh [OF ref3 this(1) nn(2) room(1) this(2)]
  obtain h st n where ins: "hinsert mem tkey W3 = Some (Inr (W3\<lparr>tbl := h, keys := st\<rparr>))"
    and i: "ht_refines h st (m(z \<mapsto> tkey))" and n: "st tkey = (keys W3 tkey)\<lparr>xt_next := n\<rparr>"
    unfolding h3 by blast
  have k3: "keys W3 tkey = (keys W2 tkey)\<lparr>xt_next := NULL, sub_keys := NULL,
     lc_wr_cnt := ?wr + 1, lc_rd_cnt := ?rd, lc_rcnt := 1, xt_h := z\<rparr>" by (simp add: W3_def)
  have c: "xr_curr (initial_handle (tid W) tkey) = NULL" by (simp add: initial_handle_def)
  have w: "W\<lparr>hp := hp W1, regions := (regions W)(z := initial_handle (tid W) tkey)\<rparr> = W1" by (simp add: W1_def)
  have "new_xregion alloc mem parent tkey W = Some (Inr (z, W3\<lparr>tbl := h, keys := st\<rparr>))"
    unfolding new_xregion_def malloc Let_def prod.case
    using z(2) c ins W1(4) by (simp add: w l W3_def [symmetric])
  then show ?thesis
    using i n k3 W2(3,4) pk2 by (intro exI [of _ "W3\<lparr>tbl := h, keys := st\<rparr>"]) (simp add: W3_def)
qed

subsection \<open>Allocating from a region\<close>

text \<open>The C library refuses blocks of 2^31 bytes and more (the largest object is \<open>PTRDIFF_MAX\<close>).\<close>

definition libc_bounded :: "libc \<Rightarrow> bool" where
  "libc_bounded alloc \<longleftrightarrow> (\<forall>h n. 2147483648 \<le> unat n \<longrightarrow> alloc h n = NULL)"

definition x_page :: "heap \<Rightarrow> xregion_handle \<Rightarrow> bool" where
  "x_page h x \<longleftrightarrow>
     (\<exists>n. (xr_curr x, n) \<in> set (live h) \<and> 8 \<le> unat n \<and> unat n < 2147483648 \<and>
        unat (xr_last_plus_one x) = unat (xr_curr x) + unat n \<and> unat (xr_curr x) + 8 \<le> unat (xr_offset x) \<and>
        unat (xr_offset x) \<le> unat (xr_last_plus_one x) \<and> 8 dvd unat (xr_offset x))"

definition x_wf :: "heap \<Rightarrow> xregion_handle \<Rightarrow> bool" where
  "x_wf h x \<longleftrightarrow> xr_curr x = NULL \<and> xr_offset x = 0 \<and> xr_last_plus_one x = 0 \<or> x_page h x"

lemma x_page_sizes:
  assumes "x_page h x"
  shows "unat (xr_last_plus_one x - xr_offset x) = unat (xr_last_plus_one x) - unat (xr_offset x)"
    and "unat ((xr_last_plus_one x - (xr_curr x + sizeof_RegionPage)) * 2) \<le> 4294967280"
    and "xr_offset x \<noteq> 0"
proof -
  obtain n :: u32 where n: "8 \<le> unat n" "unat n < 2147483648" "unat (xr_last_plus_one x) = unat (xr_curr x) + unat n"
    "unat (xr_curr x) + 8 \<le> unat (xr_offset x)" "unat (xr_offset x) \<le> unat (xr_last_plus_one x)"
    using assms unfolding x_page_def by blast
  show "unat (xr_last_plus_one x - xr_offset x) = unat (xr_last_plus_one x) - unat (xr_offset x)"
    using n(5) by (intro unat_sub_u32) (simp add: word_le_nat_alt)
  show "xr_offset x \<noteq> 0" using n(4) by auto
  have lt: "unat (xr_last_plus_one x) < 4294967296" by simp
  have c8: "unat (xr_curr x + sizeof_RegionPage) = unat (xr_curr x) + 8"
    using n lt by (subst unat_add_u32) (simp_all add: sizeof_RegionPage_def)
  then have d: "unat (xr_last_plus_one x - (xr_curr x + sizeof_RegionPage)) = unat n - 8"
    using n by (subst unat_sub_u32) (simp_all add: word_le_nat_alt)
  have "unat ((xr_last_plus_one x - (xr_curr x + sizeof_RegionPage)) * 2) = (unat n - 8) * 2"
    using d n(2) by (subst unat_mult_u32) simp_all
  then show "unat ((xr_last_plus_one x - (xr_curr x + sizeof_RegionPage)) * 2) \<le> 4294967280"
    using n(2) by linarith
qed

lemma x_page_new:
  assumes ok: "libc_ok alloc" "libc_bounded alloc" and n: "unat n \<le> 4294967280"
    and p: "alloc h (sizeof_RegionPage + n) = p" "p \<noteq> NULL" and live: "set (live h') = insert (p, sizeof_RegionPage + n) L"
    and x: "xr_curr x = p" "xr_offset x = p + sizeof_RegionPage" "xr_last_plus_one x = p + sizeof_RegionPage + n"
  shows "x_page h' x" and "unat (xr_last_plus_one x) - unat (xr_offset x) = unat n"
proof -
  have m: "unat (sizeof_RegionPage + n) = 8 + unat n"
    using n by (subst unat_add_u32) (simp_all add: sizeof_RegionPage_def)
  have b: "8 + unat n < 2147483648"
    using ok(2) p m unfolding libc_bounded_def by (metis not_le)
  have nw: "unat p + (8 + unat n) < 4294967296" and al: "8 dvd unat p"
    using libc_okD(1,2) [OF ok(1), of h "sizeof_RegionPage + n"] p m unfolding no_wrap_def by auto
  have o: "unat (p + sizeof_RegionPage) = unat p + 8"
    using nw by (subst unat_add_u32) (simp_all add: sizeof_RegionPage_def)
  then have l: "unat (p + sizeof_RegionPage + n) = unat p + 8 + unat n"
    using nw by (subst unat_add_u32) simp_all
  show "x_page h' x" unfolding x_page_def x
    using m b o l al live by (intro exI [of _ "sizeof_RegionPage + n"]) (simp add: dvd_add)
  show "unat (xr_last_plus_one x) - unat (xr_offset x) = unat n" unfolding x o l by simp
qed

lemma xregion_page_spec:
  assumes ok: "libc_ok alloc" "libc_bounded alloc" and wf: "x_wf (hp W) (regions W r)"
    and d: "unat d \<le> 1073741824" and s: "unat s \<le> 2147483648" "s \<noteq> 0"
    and eq: "xregion_page alloc d r s W = (Inr u, W')"
  shows "x_page (hp W') (regions W' r)"
    and "unat s \<le> unat (xr_last_plus_one (regions W' r)) - unat (xr_offset (regions W' r))"
    and "xr_caps (regions W' r) = xr_caps (regions W r)" and "tid W' = tid W" and "keys W' = keys W"
    and "set (live (hp W)) \<subseteq> set (live (hp W'))"
proof -
  let ?x = "regions W r"
  let ?n0 = "if xr_offset ?x = 0 then d else (xr_last_plus_one ?x - (xr_curr ?x + sizeof_RegionPage)) * 2"
  define n where "n = (if ?n0 < s then s else ?n0)"
  have fetch: "(\<not> s > xr_last_plus_one ?x - xr_offset ?x \<and> W' = W)
    \<or> (\<exists>p. alloc (hp W) (sizeof_RegionPage + n) = p \<and> p \<noteq> NULL
       \<and> W' = upd_region r (\<lambda>x. x\<lparr>xr_curr := p, xr_offset := p + sizeof_RegionPage,
             xr_last_plus_one := p + sizeof_RegionPage + n\<rparr>)
           (W\<lparr>hp := set_page_next p (xr_curr ?x) ((hp W)\<lparr>live := (p, sizeof_RegionPage + n) # live (hp W)\<rparr>)\<rparr>))"
    using eq unfolding xregion_page_def n_def
    by (auto simp: Let_def GC_malloc_atomic_def libc_malloc_def split: if_splits)
  then show "xr_caps (regions W' r) = xr_caps (regions W r)" "tid W' = tid W" "keys W' = keys W"
    "set (live (hp W)) \<subseteq> set (live (hp W'))"
    by (auto simp: set_page_next_def)
  from fetch consider (room) "\<not> s > xr_last_plus_one ?x - xr_offset ?x" "W' = W"
    | (page) p where "alloc (hp W) (sizeof_RegionPage + n) = p" "p \<noteq> NULL"
      "set (live (hp W')) = insert (p, sizeof_RegionPage + n) (set (live (hp W)))"
      "xr_curr (regions W' r) = p" "xr_offset (regions W' r) = p + sizeof_RegionPage"
      "xr_last_plus_one (regions W' r) = p + sizeof_RegionPage + n"
    by (auto simp: set_page_next_def)
  then have "x_page (hp W') (regions W' r)
    \<and> unat s \<le> unat (xr_last_plus_one (regions W' r)) - unat (xr_offset (regions W' r))"
  proof cases
    case room
    then have "x_page (hp W) ?x" using wf s(2) unfolding x_wf_def by (auto simp: word_gt_0)
    then show ?thesis using room x_page_sizes(1) by (simp add: word_le_nat_alt not_less)
  next
    case page
    have "unat ?n0 \<le> 4294967280"
      using wf d x_page_sizes(2) unfolding x_wf_def by auto
    then have "unat n \<le> 4294967280" "unat s \<le> unat n"
      using s(1) unfolding n_def by (auto simp: word_less_nat_alt)
    then show ?thesis using x_page_new [OF ok _ page] by simp
  qed
  then show "x_page (hp W') (regions W' r)"
    "unat s \<le> unat (xr_last_plus_one (regions W' r)) - unat (xr_offset (regions W' r))" by auto
qed

lemma xregion_malloc_Inr:
  assumes "xregion_malloc alloc d r s W = (Inr res, W')"
  shows "\<exists>W1 W2 u. xregion_page alloc d r (round_up s) W1 = (Inr u, W2)
     \<and> hp W1 = hp W \<and> keys W1 = keys W \<and> tid W1 = tid W
     \<and> regions W1 r = (regions W r)\<lparr>xr_caps := xr_caps (regions W1 r)\<rparr>
     \<and> res = xr_offset (regions W2 r) \<and> hp W' = hp W2 \<and> keys W' = keys W2
     \<and> xr_offset (regions W' r) = xr_offset (regions W2 r) + round_up s
     \<and> xr_curr (regions W' r) = xr_curr (regions W2 r)
     \<and> xr_last_plus_one (regions W' r) = xr_last_plus_one (regions W2 r)
     \<and> g_lock (xr_caps (regions W' r)) = (if g_rcnt (xr_caps (regions W r)) = 1 then g_lock (xr_caps (regions W2 r)) else 0)"
proof -
  define W1 where "W1 = (if g_rcnt (xr_caps (regions W r)) \<noteq> 1 then upd_caps r (\<lambda>c. c\<lparr>g_lock := tid W\<rparr>) W else W)"
  obtain o1 W2 where p: "xregion_page alloc d r (round_up s) W1 = (o1, W2)" by fastforce
  have "\<exists>u. o1 = Inr u" using assms p
    by (cases o1) (auto simp: xregion_malloc_def Let_def W1_def)
  then obtain u where u: "o1 = Inr u" ..
  have W1: "hp W1 = hp W" "keys W1 = keys W" "tid W1 = tid W"
    "regions W1 r = (regions W r)\<lparr>xr_caps := xr_caps (regions W1 r)\<rparr>" by (simp_all add: W1_def)
  have "res = xr_offset (regions W2 r) \<and> hp W' = hp W2 \<and> keys W' = keys W2
     \<and> xr_offset (regions W' r) = xr_offset (regions W2 r) + round_up s
     \<and> xr_curr (regions W' r) = xr_curr (regions W2 r)
     \<and> xr_last_plus_one (regions W' r) = xr_last_plus_one (regions W2 r)
     \<and> g_lock (xr_caps (regions W' r)) = (if g_rcnt (xr_caps (regions W r)) = 1 then g_lock (xr_caps (regions W2 r)) else 0)"
    using assms p unfolding xregion_malloc_def Let_def W1_def [symmetric] u by (auto split: if_splits)
  then show ?thesis using p u W1 by blast
qed

lemma xregion_malloc_spec:
  assumes ok: "libc_ok alloc" "libc_bounded alloc" and wf: "x_wf (hp W) (regions W r)"
    and sane: "sane_sizes d s" and s: "s \<noteq> 0" and eq: "xregion_malloc alloc d r s W = (Inr res, W')"
  shows "x_page (hp W') (regions W' r)" and "8 dvd unat res" and "unat (xr_curr (regions W' r)) + 8 \<le> unat res"
    and "unat (xr_offset (regions W' r)) = unat res + unat (round_up s)"
    and "set (live (hp W)) \<subseteq> set (live (hp W'))"
proof -
  note ru = sane_sizes_round_up [OF sane]
  have nz: "round_up s \<noteq> 0" using ru(2) s by (metis le_zero_eq unat_0 unat_eq_zero)
  have d: "unat d \<le> 1073741824" using sane by (simp add: sane_sizes_def)
  obtain W1 W2 u where m: "xregion_page alloc d r (round_up s) W1 = (Inr u, W2)" "hp W1 = hp W"
    "regions W1 r = (regions W r)\<lparr>xr_caps := xr_caps (regions W1 r)\<rparr>" "res = xr_offset (regions W2 r)" "hp W' = hp W2"
    "xr_offset (regions W' r) = res + round_up s" "xr_curr (regions W' r) = xr_curr (regions W2 r)"
    "xr_last_plus_one (regions W' r) = xr_last_plus_one (regions W2 r)"
    using xregion_malloc_Inr [OF eq] by blast
  have "x_wf h (x\<lparr>xr_caps := c\<rparr>) = x_wf h x" for h x c by (simp add: x_wf_def x_page_def)
  then have "x_wf (hp W1) (regions W1 r)" using wf m(2,3) by metis
  note P = xregion_page_spec [OF ok this d ru(1) nz m(1)]
  obtain n :: u32 where n: "(xr_curr (regions W2 r), n) \<in> set (live (hp W2))" "8 \<le> unat n" "unat n < 2147483648"
    "unat (xr_last_plus_one (regions W2 r)) = unat (xr_curr (regions W2 r)) + unat n"
    "unat (xr_curr (regions W2 r)) + 8 \<le> unat res" "unat res \<le> unat (xr_last_plus_one (regions W2 r))" "8 dvd unat res"
    using P(1) unfolding x_page_def m(4) [symmetric] by blast
  have lt: "unat (xr_last_plus_one (regions W2 r)) < 4294967296" by simp
  have fit: "unat res + unat (round_up s) \<le> unat (xr_last_plus_one (regions W2 r))" using P(2) n(6) unfolding m(4) by linarith
  then have off: "unat (res + round_up s) = unat res + unat (round_up s)"
    using lt by (intro unat_add_u32) linarith
  show "unat (xr_offset (regions W' r)) = unat res + unat (round_up s)" using off m(6) by simp
  show "8 dvd unat res" by (rule n(7))
  show "unat (xr_curr (regions W' r)) + 8 \<le> unat res" using n(5) m(7) by simp
  show "set (live (hp W)) \<subseteq> set (live (hp W'))" using P(6) m(2,5) by simp
  show "x_page (hp W') (regions W' r)"
    unfolding x_page_def m(5-8) off using n(1-5,7) fit ru(3)
    by (intro exI [of _ n]) (simp add: dvd_add)
qed

subsection \<open>Giving locks back\<close>

lemma uint_eq_sint: "0 \<le> sint (c :: u16) \<Longrightarrow> uint c = sint c"
proof -
  assume "0 \<le> sint c"
  moreover have "sint c < 2 ^ 16" using sint_lt [of c] by simp
  ultimately show "uint c = sint c" unfolding uint_sint by (simp add: take_bit_int_eq_self)
qed

lemma local_add_minus: "0 \<le> sint c \<Longrightarrow> local_add c (- uint c) = 0"
  by (simp add: local_add_def uint_eq_sint)

text \<open>A pass that gives back everything the thread holds never waits and never fails an assertion.\<close>

lemma release_pass:
  assumes entry: "lockop_entry_ok self c wr rd (- uint wr) (- uint rd)" and self: "self \<noteq> 0"
  shows "\<exists>p. lockop_pass self (- uint wr) (- uint rd) False False c wr rd = Inr p \<and> \<not> pr_wq p \<and> \<not> pr_rq p
     \<and> pr_wr p = 0 \<and> pr_rd p = 0 \<and> g_rcnt (pr_caps p) = g_rcnt c
     \<and> writer_cv (pr_caps p) = (if wr \<noteq> 0 then 0 else writer_cv c)
     \<and> g_rd_cnt (pr_caps p) = g_rd_cnt c - (if rd \<noteq> 0 then 1 else 0)"
proof -
  have pos: "0 \<le> sint wr" "0 \<le> sint rd" and w: "writer_ok self c wr rd"
    using entry unfolding lockop_entry_ok_def by auto
  note z = local_add_minus [OF pos(1)] local_add_minus [OF pos(2)]
  define c1 where "c1 = (if wr \<noteq> 0 then c\<lparr>writer_cv := 0\<rparr> else c)"
  define c2 where "c2 = (if rd \<noteq> 0 then c1\<lparr>g_rd_cnt := g_rd_cnt c1 - 1\<rparr> else c1)"
  have 1: "(if - uint wr \<noteq> 0 then lockop_write self (- uint wr) c wr rd else (False, c, wr)) = (False, c1, 0)"
    using z by (simp add: lockop_write_def c1_def uint_0_iff)
  have 2: "(if - uint rd \<noteq> 0 then lockop_read self (- uint rd) c1 rd else (False, c1, rd)) = (False, c2, 0)"
    using z by (simp add: lockop_read_def c2_def uint_0_iff)
  obtain wk c3 where 3: "lockop_wake c2 = (wk, c3)" by fastforce
  have c3: "writer_cv c3 = writer_cv c2" "g_rd_cnt c3 = g_rd_cnt c2" "g_rcnt c3 = g_rcnt c2"
    using 3 by (auto simp: lockop_wake_def split: if_splits)
  have "writer_cv c2 \<noteq> self" using w self unfolding c2_def c1_def writer_ok_def by auto
  then have ok: "writer_ok self c3 0 0" using c3(1) by (simp add: writer_ok_def)
  have "lockop_pass self (- uint wr) (- uint rd) False False c wr rd =
    Inr \<lparr>pr_wq = False, pr_rq = False, pr_wake = wk, pr_caps = c3, pr_wr = 0, pr_rd = 0\<rparr>"
    unfolding lockop_pass_def Let_def lockop_dequeue_def if_False 1 prod.case 2 3 using ok by simp
  then show ?thesis using c3 by (auto simp: c2_def c1_def)
qed

text \<open>Giving back all locks of a key without children, in the whole state.\<close>

lemma xregion_lockop_release:
  assumes k: "keys W tk = k" "sub_keys k = NULL" "0 < lc_rcnt k" and self: "tid W \<noteq> 0"
    and entry: "lockop_asserts tk (- uint (lc_wr_cnt k)) (- uint (lc_rd_cnt k)) W"
  shows "\<exists>c. xregion_lockop env False tk (- uint (lc_wr_cnt k)) (- uint (lc_rd_cnt k)) W =
       Some (Inr (upd_key tk (\<lambda>k. k\<lparr>lc_wr_cnt := 0, lc_rd_cnt := 0\<rparr>) (upd_caps (xt_h k) (\<lambda>_. c) W)))
     \<and> g_rcnt c = g_rcnt (xr_caps (regions W (xt_h k)))
     \<and> writer_cv c = (if lc_wr_cnt k \<noteq> 0 then 0 else writer_cv (xr_caps (regions W (xt_h k))))
     \<and> g_rd_cnt c = g_rd_cnt (xr_caps (regions W (xt_h k))) - (if lc_rd_cnt k \<noteq> 0 then 1 else 0)"
proof (cases "lc_wr_cnt k = 0 \<and> lc_rd_cnt k = 0")
  case True
  have "upd_key tk (\<lambda>k. k\<lparr>lc_wr_cnt := 0, lc_rd_cnt := 0\<rparr>) (upd_caps (xt_h k) (\<lambda>_. xr_caps (regions W (xt_h k))) W) = W"
    using True k(1) by (simp add: upd_key_def upd_caps_def upd_region_def fun_upd_idem)
  moreover have "xregion_lockop env False tk 0 0 W = Some (Inr W)" by (simp add: xregion_lockop.simps)
  ultimately show ?thesis using True by (intro exI [of _ "xr_caps (regions W (xt_h k))"]) simp
next
  case False
  let ?c = "xr_caps (regions W (xt_h k))"
  have e: "lockop_entry_ok (tid W) ?c (lc_wr_cnt k) (lc_rd_cnt k) (- uint (lc_wr_cnt k)) (- uint (lc_rd_cnt k))"
    using entry k(1) unfolding lockop_asserts_def by simp
  obtain p where p: "lockop_pass (tid W) (- uint (lc_wr_cnt k)) (- uint (lc_rd_cnt k)) False False ?c (lc_wr_cnt k) (lc_rd_cnt k) = Inr p"
    "\<not> pr_wq p" "\<not> pr_rq p" "pr_wr p = 0" "pr_rd p = 0" "g_rcnt (pr_caps p) = g_rcnt ?c"
    "writer_cv (pr_caps p) = (if lc_wr_cnt k \<noteq> 0 then 0 else writer_cv ?c)"
    "g_rd_cnt (pr_caps p) = g_rd_cnt ?c - (if lc_rd_cnt k \<noteq> 0 then 1 else 0)"
    using release_pass [OF e self] by blast
  let ?W = "upd_key tk (\<lambda>k. k\<lparr>lc_wr_cnt := 0, lc_rd_cnt := 0\<rparr>) (upd_caps (xt_h k) (\<lambda>_. pr_caps p) W)"
  have loop: "lockop_loop env tk (- uint (lc_wr_cnt k)) (- uint (lc_rd_cnt k)) False False W = Some (Inr ?W)"
    using p(1-5) k(1) by (subst lockop_loop.simps) (simp add: Let_def store_pass_def)
  have kids: "xregion_lockop env True NULL w r W = Some (Inr W)" for w r by (simp add: xregion_lockop.simps)
  have "xregion_lockop env False tk (- uint (lc_wr_cnt k)) (- uint (lc_rd_cnt k)) W = Some (Inr ?W)"
    using False k entry by (subst xregion_lockop.simps) (auto simp: kids loop uint_0_iff)
  then show ?thesis using p(6-8) by blast
qed

subsection \<open>Releasing a region\<close>

primrec key_chain :: "store \<Rightarrow> ptr \<Rightarrow> ptr list \<Rightarrow> bool" where
  "key_chain st p [] \<longleftrightarrow> p = NULL"
| "key_chain st p (k # ks) \<longleftrightarrow> p = k \<and> k \<noteq> NULL \<and> key_chain st (next_key (st k)) ks"

lemma key_chain_cong:
  "(\<And>e. e \<in> set ks \<Longrightarrow> next_key (st' e) = next_key (st e)) \<Longrightarrow> key_chain st' p ks = key_chain st p ks"
  by (induction ks arbitrary: p) simp_all

lemma key_chain_no_NULL: "key_chain st p ks \<Longrightarrow> NULL \<notin> set ks"
  by (induction ks arbitrary: p) auto

lemma find_prev_key_spec:
  "key_chain st p (as @ tk # bs) \<Longrightarrow> tk \<notin> set as \<Longrightarrow>
   find_prev_key tk prev p st = Some (if as = [] then prev else last as)"
proof (induction as arbitrary: p prev)
  case Nil
  then show ?case by (subst find_prev_key.simps) simp
next
  case (Cons a as)
  from Cons.prems have "p = a" "a \<noteq> NULL" "a \<noteq> tk" "key_chain st (next_key (st a)) (as @ tk # bs)" "tk \<notin> set as" by auto
  with Cons.IH [OF this(4,5), of a] show ?case by (subst find_prev_key.simps) simp
qed

text \<open>Taking a cell out of a chain.\<close>

lemma key_chain_splice:
  assumes "key_chain st p (as @ tk # bs)" and "distinct (as @ tk # bs)" and "as \<noteq> []"
    and "\<And>e. e \<in> set (as @ bs) \<Longrightarrow> next_key (st' e) = (if e = last as then next_key (st tk) else next_key (st e))"
  shows "key_chain st' p (as @ bs)"
  using assms
proof (induction as arbitrary: p)
  case Nil
  then show ?case by simp
next
  case (Cons a as)
  show ?case
  proof (cases "as = []")
    case True
    then have "key_chain st (next_key (st tk)) bs" "next_key (st' a) = next_key (st tk)" "p = a" "a \<noteq> NULL"
      using Cons.prems by auto
    moreover have "key_chain st' q bs = key_chain st q bs" for q
      using Cons.prems True by (intro key_chain_cong) auto
    ultimately show ?thesis using True by simp
  next
    case False
    then have "last as \<in> set as" by simp
    then have ne: "a \<noteq> last as" using Cons.prems(2) by auto
    have "key_chain st' (next_key (st a)) (as @ bs)"
      using Cons.prems False by (intro Cons.IH) auto
    then show ?thesis using Cons.prems(1) Cons.prems(4) [of a] ne False by simp
  qed
qed

text \<open>The key is a root or stands in the list of its parent's children.\<close>

definition tree_ok :: "ptr \<Rightarrow> ptr list \<Rightarrow> ptr list \<Rightarrow> store \<Rightarrow> bool" where
  "tree_ok tk as bs st \<longleftrightarrow>
     parent_key (st tk) = NULL \<or>
     key_chain st (sub_keys (st (parent_key (st tk)))) (as @ tk # bs) \<and> distinct (as @ tk # bs) \<and>
     parent_key (st tk) \<notin> set (as @ tk # bs)"

definition same_but_links :: "store \<Rightarrow> store \<Rightarrow> bool" where
  "same_but_links st st' \<longleftrightarrow>
     (\<forall>e. \<exists>s n p. st' e = (st e)\<lparr>sub_keys := s, next_key := n, parent_key := p\<rparr>)"

lemma same_but_linksI:
  assumes "\<And>e. st' e = (st e)\<lparr>sub_keys := sub_keys (st' e), next_key := next_key (st' e), parent_key := parent_key (st' e)\<rparr>"
  shows "same_but_links st st'"
  unfolding same_but_links_def using assms by blast

lemma same_but_linksD:
  assumes "same_but_links st st'"
  shows "xt_h (st' e) = xt_h (st e)" "xt_next (st' e) = xt_next (st e)" "lc_rcnt (st' e) = lc_rcnt (st e)"
    "lc_wr_cnt (st' e) = lc_wr_cnt (st e)" "lc_rd_cnt (st' e) = lc_rd_cnt (st e)"
proof -
  obtain s n p where "st' e = (st e)\<lparr>sub_keys := s, next_key := n, parent_key := p\<rparr>"
    using assms unfolding same_but_links_def by blast
  then show "xt_h (st' e) = xt_h (st e)" "xt_next (st' e) = xt_next (st e)" "lc_rcnt (st' e) = lc_rcnt (st e)"
    "lc_wr_cnt (st' e) = lc_wr_cnt (st e)" "lc_rd_cnt (st' e) = lc_rd_cnt (st e)" by simp_all
qed

lemma unlink_key_spec:
  assumes t: "tree_ok tk as bs (keys W)" and pa: "parent_key (keys W tk) = pa"
  shows "\<exists>st'. unlink_key tk W = Some (W\<lparr>keys := st'\<rparr>) \<and> same_but_links (keys W) st'
     \<and> parent_key (st' tk) = NULL \<and> (pa \<noteq> NULL \<longrightarrow> key_chain st' (sub_keys (st' pa)) (as @ bs))"
proof (cases "pa = NULL")
  case True
  have "same_but_links (keys W) (keys W)" by (rule same_but_linksI) simp
  then show ?thesis using True pa unfolding unlink_key_def by (intro exI [of _ "keys W"]) simp
next
  case False
  let ?st = "keys W"
  from t False pa have c: "key_chain ?st (sub_keys (?st pa)) (as @ tk # bs)" and d: "distinct (as @ tk # bs)"
    and n: "pa \<notin> set (as @ tk # bs)" unfolding tree_ok_def by auto
  have f: "find_prev_key tk NULL (sub_keys (?st pa)) ?st = Some (if as = [] then NULL else last as)"
    using d by (intro find_prev_key_spec [OF c]) simp
  define st1 where "st1 = (if as = [] then ?st(pa := (?st pa)\<lparr>sub_keys := next_key (?st tk)\<rparr>)
     else ?st(last as := (?st (last as))\<lparr>next_key := next_key (?st tk)\<rparr>))"
  define st' where "st' = st1(tk := (st1 tk)\<lparr>parent_key := NULL\<rparr>)"
  have lastne: "last as \<noteq> NULL \<and> last as \<in> set as" if "as \<noteq> []"
    using key_chain_no_NULL [OF c] last_in_set [OF that] by auto
  have u: "unlink_key tk W = Some (W\<lparr>keys := st'\<rparr>)"
    using False pa f lastne unfolding unlink_key_def st'_def st1_def
    by (cases "as = []") (simp_all add: upd_key_def Let_def)
  have l: "same_but_links ?st st'"
    unfolding st'_def st1_def by (rule same_but_linksI) simp
  have "key_chain st' (sub_keys (st' pa)) (as @ bs)"
  proof (cases "as = []")
    case True
    have "key_chain ?st (next_key (?st tk)) bs" using c True by simp
    moreover have "key_chain st' q bs = key_chain ?st q bs" for q
      using d n True by (intro key_chain_cong) (auto simp: st'_def st1_def)
    ultimately show ?thesis using True n by (simp add: st'_def st1_def)
  next
    case False
    have "pa \<noteq> last as" "pa \<noteq> tk" "tk \<notin> set (as @ bs)" using False n d lastne by auto
    then have "sub_keys (st' pa) = sub_keys (?st pa)" "\<And>e. e \<in> set (as @ bs) \<Longrightarrow>
        next_key (st' e) = (if e = last as then next_key (?st tk) else next_key (?st e))"
      using False by (auto simp: st'_def st1_def)
    then show ?thesis using key_chain_splice [OF c d False, of st'] by simp
  qed
  then show ?thesis using u l by (intro exI [of _ st']) (simp add: st'_def)
qed

lemma xregion_free_spec:
  assumes "page_chain (hp W) (xr_curr (regions W r)) ps" and "r \<noteq> NULL"
  shows "\<exists>W'. xregion_free r W = Some (Inr W') \<and> keys W' = keys W \<and> tbl W' = tbl W \<and> tid W' = tid W
     \<and> live (hp W') = filter (\<lambda>b. fst b \<notin> set ps \<and> fst b \<noteq> r) (live (hp W))
     \<and> unmapped W' = unmapped W @ xr_mapped (regions W r)"
proof -
  obtain h where h: "free_pages (xr_curr (regions W r)) (hp W) = Some h"
    "live h = filter (\<lambda>b. fst b \<notin> set ps) (live (hp W))"
    using free_pages_Some [OF assms(1)] by blast
  have "live (libc_free r h) = filter (\<lambda>b. fst b \<notin> set ps \<and> fst b \<noteq> r) (live (hp W))"
    using assms(2) h(2) by (auto simp: libc_free_def intro: filter_cong)
  then show ?thesis using h(1) assms(2) by (simp add: xregion_free_def Let_def)
qed

text \<open>The end of the release: the key is out of the tree, the region is freed with the last thread.\<close>

lemma drop_region_spec:
  assumes t: "tree_ok tk as bs (keys W)" and pa: "parent_key (keys W tk) = pa" and z: "xt_h (keys W tk) = z" "z \<noteq> NULL"
    and ps: "page_chain (hp W) (xr_curr (regions W z)) ps"
  shows "\<exists>W'. drop_region tk W = Some (Inr W') \<and> tbl W' = tbl W
     \<and> (\<forall>e. e \<noteq> tk \<longrightarrow> xt_h (keys W' e) = xt_h (keys W e) \<and> xt_next (keys W' e) = xt_next (keys W e))
     \<and> lc_rcnt (keys W' tk) = 0 \<and> lc_wr_cnt (keys W' tk) = lc_wr_cnt (keys W tk) \<and> lc_rd_cnt (keys W' tk) = lc_rd_cnt (keys W tk)
     \<and> parent_key (keys W' tk) = NULL \<and> (pa \<noteq> NULL \<longrightarrow> key_chain (keys W') (sub_keys (keys W' pa)) (as @ bs))
     \<and> (if g_rcnt (xr_caps (regions W z)) = 1
        then live (hp W') = filter (\<lambda>b. fst b \<notin> set ps \<and> fst b \<noteq> z) (live (hp W))
           \<and> unmapped W' = unmapped W @ xr_mapped (regions W z) \<and> xt_h (keys W' tk) = NULL
        else hp W' = hp W \<and> unmapped W' = unmapped W
           \<and> xr_caps (regions W' z) = (xr_caps (regions W z))\<lparr>g_rcnt := g_rcnt (xr_caps (regions W z)) - 1\<rparr>)"
proof -
  obtain st where u: "unlink_key tk W = Some (W\<lparr>keys := st\<rparr>)" "same_but_links (keys W) st"
    "parent_key (st tk) = NULL" "pa \<noteq> NULL \<longrightarrow> key_chain st (sub_keys (st pa)) (as @ bs)"
    using unlink_key_spec [OF t pa] by blast
  note st = same_but_linksD [OF u(2)]
  define W1 where "W1 = upd_caps z (\<lambda>c. c\<lparr>g_rcnt := g_rcnt c - 1\<rparr>) (upd_key tk (\<lambda>k. k\<lparr>lc_rcnt := 0\<rparr>) (W\<lparr>keys := st\<rparr>))"
  have k1: "key_chain (keys W1) p ks = key_chain st p ks" "sub_keys (keys W1 e) = sub_keys (st e)" for p ks e
    by (rule key_chain_cong, simp add: W1_def) (simp add: W1_def)
  have ps1: "page_chain (hp W1) (xr_curr (regions W1 z)) ps" using ps by (simp add: W1_def)
  obtain W2 where f: "xregion_free z W1 = Some (Inr W2)" "keys W2 = keys W1" "tbl W2 = tbl W1"
    "live (hp W2) = filter (\<lambda>b. fst b \<notin> set ps \<and> fst b \<noteq> z) (live (hp W1))"
    "unmapped W2 = unmapped W1 @ xr_mapped (regions W1 z)"
    using xregion_free_spec [OF ps1 z(2)] by blast
  define W3 where "W3 = (if g_rcnt (xr_caps (regions W z)) = 1 then upd_key tk (\<lambda>k. k\<lparr>xt_h := NULL\<rparr>) W2 else W1)"
  have k3: "key_chain (keys W3) p ks = key_chain st p ks" "sub_keys (keys W3 e) = sub_keys (st e)" for p ks e
    by (subst k1(1) [symmetric], rule key_chain_cong, simp add: W3_def f(2)) (simp add: W3_def f(2) k1(2))
  have "drop_region tk W = Some (Inr W3)"
    using u(1) z(1) st f(1) unfolding drop_region_def W3_def W1_def by (simp add: Let_def)
  moreover have "pa \<noteq> NULL \<longrightarrow> key_chain (keys W3) (sub_keys (keys W3 pa)) (as @ bs)"
    using u(4) unfolding k3 .
  ultimately show ?thesis
    using u(3) st f(2-5) by (intro exI [of _ W3]) (simp add: W3_def W1_def)
qed

lemma tree_ok_cong:
  assumes "\<And>e. sub_keys (st' e) = sub_keys (st e) \<and> next_key (st' e) = next_key (st e) \<and> parent_key (st' e) = parent_key (st e)"
  shows "tree_ok tk as bs st' = tree_ok tk as bs st"
proof -
  have "key_chain st' p ks = key_chain st p ks" for p ks using assms by (intro key_chain_cong) blast
  then show ?thesis using assms unfolding tree_ok_def by simp
qed

lemma same_but_nextD:
  assumes "same_but_next A st st'"
  shows "xt_h (st' e) = xt_h (st e) \<and> lc_wr_cnt (st' e) = lc_wr_cnt (st e) \<and> lc_rd_cnt (st' e) = lc_rd_cnt (st e)
    \<and> lc_rcnt (st' e) = lc_rcnt (st e) \<and> sub_keys (st' e) = sub_keys (st e) \<and> next_key (st' e) = next_key (st e)
    \<and> parent_key (st' e) = parent_key (st e)"
proof -
  obtain n where "st' e = (st e)\<lparr>xt_next := n\<rparr>" using assms unfolding same_but_next_def by blast
  then show ?thesis by simp
qed

definition released :: "ptr \<Rightarrow> ptr \<Rightarrow> ptr list \<Rightarrow> world \<Rightarrow> world \<Rightarrow> bool" where
  "released tk z ps W W' \<longleftrightarrow>
     lc_rcnt (keys W' tk) = 0 \<and> lc_wr_cnt (keys W' tk) = 0 \<and> lc_rd_cnt (keys W' tk) = 0 \<and> parent_key (keys W' tk) = NULL \<and>
     (if g_rcnt (xr_caps (regions W z)) = 1
      then live (hp W') = filter (\<lambda>b. fst b \<notin> set ps \<and> fst b \<noteq> z) (live (hp W)) \<and>
           unmapped W' = unmapped W @ xr_mapped (regions W z)
      else hp W' = hp W \<and> unmapped W' = unmapped W \<and>
           g_rcnt (xr_caps (regions W' z)) = g_rcnt (xr_caps (regions W z)) - 1 \<and>
           writer_cv (xr_caps (regions W' z)) =
             (if lc_wr_cnt (keys W tk) \<noteq> 0 then 0 else writer_cv (xr_caps (regions W z))) \<and>
           g_rd_cnt (xr_caps (regions W' z)) =
             g_rd_cnt (xr_caps (regions W z)) - (if lc_rd_cnt (keys W tk) \<noteq> 0 then 1 else 0))"

lemma xregion_refcnt_release:
  assumes ref: "ht_refines (tbl W) (keys W) m" and tk: "m z = Some tk" "z \<noteq> NULL"
    and leaf: "sub_keys (keys W tk) = NULL" and cnt: "0 < lc_rcnt (keys W tk)" "0 < g_rcnt (xr_caps (regions W z))"
    and self: "tid W \<noteq> 0"
    and entry: "lockop_asserts tk (- uint (lc_wr_cnt (keys W tk))) (- uint (lc_rd_cnt (keys W tk))) W"
    and tree: "tree_ok tk as bs (keys W)" "parent_key (keys W tk) = pa"
    and ps: "page_chain (hp W) (xr_curr (regions W z)) ps"
  shows "\<exists>W'. xregion_refcnt env mem False tk (- uint (lc_rcnt (keys W tk))) W = Some (Inr (False, W'))
     \<and> ht_refines (tbl W') (keys W') (m(z := None)) \<and> released tk z ps W W'
     \<and> (pa \<noteq> NULL \<longrightarrow> key_chain (keys W') (sub_keys (keys W' pa)) (as @ bs))"
proof -
  have z: "xt_h (keys W tk) = z" by (rule ht.refines_key [OF ref tk(1)])
  obtain r h st where rm: "hashtable_remove mem (tbl W) z (keys W) = Some (Inr (r, h, st))"
    "ht_refines h st (m(z := None))" "same_but_next (ran m) (keys W) st"
    using hashtable_remove_spec [OF ref tk(1), of mem] by blast
  note same = same_but_nextD [OF rm(3)]
  let ?W1 = "W\<lparr>tbl := h, keys := st\<rparr>" and ?k = "st tk"
  have entry1: "lockop_asserts tk (- uint (lc_wr_cnt ?k)) (- uint (lc_rd_cnt ?k)) ?W1"
    using entry same [of tk] unfolding lockop_asserts_def by simp
  obtain c where lk: "xregion_lockop env False tk (- uint (lc_wr_cnt ?k)) (- uint (lc_rd_cnt ?k)) ?W1 =
      Some (Inr (upd_key tk (\<lambda>k. k\<lparr>lc_wr_cnt := 0, lc_rd_cnt := 0\<rparr>) (upd_caps z (\<lambda>_. c) ?W1)))"
    and c: "g_rcnt c = g_rcnt (xr_caps (regions W z))"
      "writer_cv c = (if lc_wr_cnt (keys W tk) \<noteq> 0 then 0 else writer_cv (xr_caps (regions W z)))"
      "g_rd_cnt c = g_rd_cnt (xr_caps (regions W z)) - (if lc_rd_cnt (keys W tk) \<noteq> 0 then 1 else 0)"
    using xregion_lockop_release [of ?W1 tk ?k env] entry1 same [of tk] leaf cnt self z by auto
  define W2 where "W2 = upd_key tk (\<lambda>k. k\<lparr>lc_wr_cnt := 0, lc_rd_cnt := 0\<rparr>) (upd_caps z (\<lambda>_. c) ?W1)"
  have "tree_ok tk as bs (keys W2) = tree_ok tk as bs (keys W)"
    using same by (intro tree_ok_cong) (simp add: W2_def)
  then have t2: "tree_ok tk as bs (keys W2)" using tree(1) by simp
  have 2: "parent_key (keys W2 tk) = pa" "xt_h (keys W2 tk) = z" "page_chain (hp W2) (xr_curr (regions W2 z)) ps"
    using same [of tk] tree(2) z ps by (simp_all add: W2_def)
  obtain W' where d: "drop_region tk W2 = Some (Inr W')" and t: "tbl W' = tbl W2"
    and k: "\<forall>e. e \<noteq> tk \<longrightarrow> xt_h (keys W' e) = xt_h (keys W2 e) \<and> xt_next (keys W' e) = xt_next (keys W2 e)"
    and l: "lc_rcnt (keys W' tk) = 0" "lc_wr_cnt (keys W' tk) = lc_wr_cnt (keys W2 tk)" "lc_rd_cnt (keys W' tk) = lc_rd_cnt (keys W2 tk)"
      "parent_key (keys W' tk) = NULL"
    and ch: "pa \<noteq> NULL \<longrightarrow> key_chain (keys W') (sub_keys (keys W' pa)) (as @ bs)"
    and fr: "if g_rcnt (xr_caps (regions W2 z)) = 1
        then live (hp W') = filter (\<lambda>b. fst b \<notin> set ps \<and> fst b \<noteq> z) (live (hp W2))
           \<and> unmapped W' = unmapped W2 @ xr_mapped (regions W2 z) \<and> xt_h (keys W' tk) = NULL
        else hp W' = hp W2 \<and> unmapped W' = unmapped W2
           \<and> xr_caps (regions W' z) = (xr_caps (regions W2 z))\<lparr>g_rcnt := g_rcnt (xr_caps (regions W2 z)) - 1\<rparr>"
    using drop_region_spec [OF t2 2(1,2) tk(2) 2(3)] by blast
  have nr: "tk \<notin> ran (m(z := None))"
    using z by (auto simp: ran_def dest: ht.refines_key [OF ref] split: if_splits)
  have "ht_refines h (keys W') (m(z := None))"
    using k nr by (intro ht_refines_frame [OF rm(2)]) (auto simp: W2_def)
  moreover have "xregion_refcnt env mem False tk (- uint (lc_rcnt (keys W tk))) W = Some (Inr (False, W'))"
  proof -
    have e: "xregion_refcnt env mem True NULL 0 ?W1 = Some (Inr (False, ?W1))" by (simp add: xregion_refcnt.simps)
    show ?thesis
      using cnt z leaf same [of tk] rm(1) e lk d
      by (subst xregion_refcnt.simps) (simp add: hremove_def W2_def)
  qed
  moreover have "released tk z ps W W'"
    using l fr c unfolding released_def by (simp add: W2_def split: if_splits)
  ultimately show ?thesis using ch t by (intro exI [of _ W']) (simp add: W2_def)
qed

subsection \<open>Properties\<close>

text \<open>A thread with one region at 8192, whose key is at 4096, and an allocator with one free block.\<close>

definition one_region :: "hashtable \<Rightarrow> store \<Rightarrow> world" where
  "one_region h st =
     \<lparr>tid = 1, tbl = h, keys = st, regions = (\<lambda>_. initial_handle 1 4096),
      hp = \<lparr>live = [(8192, 56)], bytes = (\<lambda>_. 0)\<rparr>, unmapped = []\<rparr>"

definition second_block_libc :: libc where
  "second_block_libc h n = (if live h = [(8192, 56)] \<and> n \<le> 1048576 then 16384 else NULL)"

lemma libc_ok_second_block: "libc_ok second_block_libc" "libc_bounded second_block_libc"
proof -
  have "no_wrap 16384 n" if "n \<le> 1048576" for n :: u32
    using that by (simp add: no_wrap_def word_le_nat_alt)
  then show "libc_ok second_block_libc"
    unfolding libc_ok_def second_block_libc_def by (simp add: disjoint_blocks_def)
  show "libc_bounded second_block_libc"
    by (simp add: libc_bounded_def second_block_libc_def word_le_nat_alt)
qed

lemma table_with_key:
  assumes "xt_h (st 4096) = 8192"
  shows "\<exists>h st'. ht_refines h st' [8192 \<mapsto> 4096] \<and> primeindex h = 0 \<and> same_but_next {4096} st st'"
proof -
  obtain h where h: "create_hashtable True 10 = Some h" "ht_refines h st Map.empty" "primeindex h = 0"
    using create_10 by blast
  have "\<not> upper_loadlimit h < entrycount h + 1"
    using h(1) by (auto simp: create_hashtable_def primes_def load_limit_def max_load_factor_def)
  then have i: "hashtable_insert True h 4096 st = Some (True, hashtable_link h 4096 st)"
    by (simp add: hashtable_insert_def)
  obtain h' st' where l: "hashtable_link h 4096 st = (h', st')" by fastforce
  then have "primeindex h' = 0" using h(3) by (auto simp: hashtable_link_def cache_push_def Let_def)
  moreover have "ht_refines h' st' [8192 \<mapsto> 4096]" "same_but_next {4096} st st'"
    using hashtable_insert_spec [OF h(2), of 4096 True] i l assms by auto
  ultimately show ?thesis by blast
qed

text \<open>C10: creating a region enters its key in the key table of the thread, so that the handle is
  found again, keeps all other keys, links the key under the parent's, and gives the thread
  one reference and one write lock more than it has on the parent.\<close>

theorem new_xregion_correct:
  assumes "ht_refines (tbl W) (keys W) m" and "libc_ok alloc"
    and "alloc (hp W) sizeof_XRegionHandle = z" "100 < z" and "dom m \<subseteq> fst ` set (live (hp W))"
    and "100 < tkey" "tkey \<notin> ran m" and "parent_ok parent pk m W" and "tkey \<noteq> pk"
    and "mem" "primeindex (tbl W) < 25"
  shows "\<exists>W' h. new_xregion alloc mem parent tkey W = Some (Inr (z, W'))
     \<and> ht_refines (tbl W') (keys W') (m(z \<mapsto> tkey)) \<and> get_tkey z W' = Some (Inr (tkey, W'\<lparr>tbl := h\<rparr>))
     \<and> lc_rcnt (keys W' tkey) = 1 \<and> parent_key (keys W' tkey) = pk
     \<and> lc_wr_cnt (keys W' tkey) = (if parent = NULL then 0 else lc_wr_cnt (keys W pk)) + 1
     \<and> writer_cv (xr_caps (regions W' z)) = tid W \<and> g_rcnt (xr_caps (regions W' z)) = 1"
proof -
  obtain W' where n: "new_xregion alloc mem parent tkey W = Some (Inr (z, W'))"
    "ht_refines (tbl W') (keys W') (m(z \<mapsto> tkey))" "regions W' = (regions W)(z := initial_handle (tid W) tkey)"
    "lc_rcnt (keys W' tkey) = 1" "parent_key (keys W' tkey) = pk"
    "lc_wr_cnt (keys W' tkey) = (if parent = NULL then 0 else lc_wr_cnt (keys W pk)) + 1"
    using new_xregion_spec [OF assms] by blast
  have "shortcut_ok z tkey W'" using n(3) by (simp add: shortcut_ok_def initial_handle_def)
  then obtain h where "get_tkey z W' = Some (Inr (tkey, W'\<lparr>tbl := h\<rparr>))"
    using get_tkey_hit [OF n(2) _ assms(4,6)] by auto
  then show ?thesis using n by (intro exI [of _ W'] exI [of _ h]) (simp add: initial_handle_def)
qed

theorem new_xregion_correct_witness:
  "\<exists>h st W' h'. ht_refines h st [8192 \<mapsto> 4096]
     \<and> new_xregion second_block_libc True 8192 12288 (one_region h st) = Some (Inr (16384, W'))
     \<and> get_tkey 16384 W' = Some (Inr (12288, W'\<lparr>tbl := h'\<rparr>)) \<and> parent_key (keys W' 12288) = 4096"
proof -
  obtain h st where t: "ht_refines h st [8192 \<mapsto> 4096]" "primeindex h = 0"
    using table_with_key [of sample_store] by auto
  have "parent_ok 8192 4096 [8192 \<mapsto> 4096] (one_region h st)"
    by (simp add: parent_ok_def shortcut_ok_def one_region_def initial_handle_def)
  then show ?thesis
    using new_xregion_correct [of "one_region h st" "[8192 \<mapsto> 4096]" second_block_libc 16384 12288 8192 4096 True]
      t libc_ok_second_block(1)
    by (fastforce simp: one_region_def second_block_libc_def sizeof_XRegionHandle_def)
qed

text \<open>C36: a region created under a parent on which the thread holds read locks starts with that
  many read locks in its local count and none in the global one, so that the first lock operation
  on it fails the assertion at its entry and ends the process.\<close>

theorem new_xregion_reader_child_aborts:
  assumes "ht_refines (tbl W) (keys W) m" and "libc_ok alloc"
    and "alloc (hp W) sizeof_XRegionHandle = z" "100 < z" and "dom m \<subseteq> fst ` set (live (hp W))"
    and "100 < tkey" "tkey \<notin> ran m" and "parent_ok parent pk m W" and "tkey \<noteq> pk"
    and "mem" "primeindex (tbl W) < 25"
    and "parent \<noteq> NULL" and "lc_rd_cnt (keys W pk) \<noteq> 0" and "w \<noteq> 0 \<or> r \<noteq> 0"
  shows "\<exists>W'. new_xregion alloc mem parent tkey W = Some (Inr (z, W'))
     \<and> xregion_lockop env False tkey w r W' = Some (Inl (Errquit ''__xregion_lockop: entry''))"
proof -
  obtain W' where n: "new_xregion alloc mem parent tkey W = Some (Inr (z, W'))"
    "regions W' = (regions W)(z := initial_handle (tid W) tkey)" "tid W' = tid W" "xt_h (keys W' tkey) = z"
    "lc_rcnt (keys W' tkey) = 1" "sub_keys (keys W' tkey) = NULL"
    "lc_rd_cnt (keys W' tkey) = lc_rd_cnt (keys W pk)"
    using new_xregion_spec [OF assms(1-11)] assms(12) by auto
  have "\<not> lockop_asserts tkey w r W'"
    using n assms(13) by (simp add: lockop_asserts_def lockop_entry_ok_def writer_ok_def initial_handle_def)
  moreover have "xregion_lockop env True NULL w r W' = Some (Inr W')" by (simp add: xregion_lockop.simps)
  ultimately have "xregion_lockop env False tkey w r W' = Some (Inl (Errquit ''__xregion_lockop: entry''))"
    using n(5,6) assms(14) by (subst xregion_lockop.simps) auto
  then show ?thesis using n(1) by blast
qed

theorem new_xregion_reader_child_aborts_witness:
  "\<exists>h st W'. lc_rd_cnt (keys (one_region h st) 4096) = 1
     \<and> new_xregion second_block_libc True 8192 12288 (one_region h st) = Some (Inr (16384, W'))
     \<and> xregion_lockop id False 12288 (- 1) 0 W' = Some (Inl (Errquit ''__xregion_lockop: entry''))"
proof -
  define st0 where "st0 = sample_store(4096 := (sample_store 4096)\<lparr>lc_wr_cnt := 1, lc_rd_cnt := 1\<rparr>)"
  obtain h st where t: "ht_refines h st [8192 \<mapsto> 4096]" "primeindex h = 0" "same_but_next {4096} st0 st"
    using table_with_key [of st0] by (auto simp: st0_def)
  have rd: "lc_rd_cnt (st 4096) = 1" using same_but_nextD [OF t(3), of 4096] by (simp add: st0_def)
  have "parent_ok 8192 4096 [8192 \<mapsto> 4096] (one_region h st)"
    by (simp add: parent_ok_def shortcut_ok_def one_region_def initial_handle_def)
  then show ?thesis
    using new_xregion_reader_child_aborts [of "one_region h st" "[8192 \<mapsto> 4096]" second_block_libc 16384 12288 8192 4096 True "- 1" 0 id]
      t libc_ok_second_block(1) rd
    by (fastforce simp: one_region_def second_block_libc_def sizeof_XRegionHandle_def)
qed

text \<open>an allocation from a shared region that returns gives an aligned block after the
  header of the current page, inside a live block of the heap, keeps the region well formed,
  and frees nothing.\<close>

theorem xregion_malloc_in_page:
  assumes "libc_ok alloc" "libc_bounded alloc" and "x_wf (hp W) (regions W r)" and "sane_sizes d s" and "s \<noteq> 0"
    and "xregion_malloc alloc d r s W = (Inr res, W')"
  shows "x_wf (hp W') (regions W' r) \<and> 8 dvd unat res \<and> set (live (hp W)) \<subseteq> set (live (hp W'))
     \<and> (\<exists>n. (xr_curr (regions W' r), n) \<in> set (live (hp W')) \<and> unat (xr_curr (regions W' r)) + 8 \<le> unat res
          \<and> unat res + unat s \<le> unat (xr_curr (regions W' r)) + unat n)"
proof -
  note S = xregion_malloc_spec [OF assms]
  have "unat s \<le> unat (round_up s)" by (rule sane_sizes_round_up(2) [OF assms(4)])
  then show ?thesis using S unfolding x_wf_def x_page_def by fastforce
qed

theorem xregion_malloc_in_page_witness:
  "\<exists>h st res W'. xregion_malloc second_block_libc 512 8192 20 (one_region h st) = (Inr res, W')
     \<and> 8 dvd unat res \<and> unat (xr_curr (regions W' 8192)) + 8 \<le> unat res"
proof -
  let ?W = "one_region undefined undefined"
  have "\<exists>res W'. xregion_malloc second_block_libc 512 8192 20 ?W = (Inr res, W')"
    by (simp add: xregion_malloc_def xregion_page_def one_region_def initial_handle_def second_block_libc_def Let_def
        GC_malloc_atomic_def libc_malloc_def round_up_def CYC_MIN_ALIGNMENT_def sizeof_RegionPage_def)
  then obtain res W' where x: "xregion_malloc second_block_libc 512 8192 20 ?W = (Inr res, W')" by blast
  moreover have "x_wf (hp ?W) (regions ?W 8192)" by (simp add: x_wf_def one_region_def initial_handle_def)
  moreover have "sane_sizes 512 20" by (simp add: sane_sizes_def)
  ultimately show ?thesis
    using xregion_malloc_in_page [OF libc_ok_second_block, of ?W 8192 512 20] by fastforce
qed

text \<open>C37: when an allocation from a region that other threads share throws, the thread still
  holds the latch of the region, which no handler of the exception can give back, and nothing was
  allocated.\<close>

theorem xregion_malloc_throw_keeps_latch:
  assumes "g_rcnt (xr_caps (regions W r)) \<noteq> 1" and "xregion_malloc alloc d r s W = (Inl (Throw e), W')"
  shows "e = Bad_alloc \<and> g_lock (xr_caps (regions W' r)) = tid W \<and> hp W' = hp W"
  using assms
  by (auto simp: xregion_malloc_def xregion_page_def Let_def GC_malloc_atomic_def libc_malloc_def split: if_splits)

theorem xregion_malloc_throw_keeps_latch_witness:
  "\<exists>W W'. xregion_malloc (\<lambda>_ _. NULL) 512 8192 20 W = (Inl (Throw Bad_alloc), W') \<and> tid W = 1
     \<and> g_lock (xr_caps (regions W' 8192)) = 1"
proof -
  let ?W = "upd_caps 8192 (\<lambda>c. c\<lparr>g_rcnt := 2\<rparr>) (one_region undefined undefined)"
  obtain W' where "xregion_malloc (\<lambda>_ _. NULL) 512 8192 20 ?W = (Inl (Throw Bad_alloc), W')"
    by (simp add: xregion_malloc_def xregion_page_def one_region_def initial_handle_def Let_def
        GC_malloc_atomic_def libc_malloc_def round_up_def CYC_MIN_ALIGNMENT_def)
  with xregion_malloc_throw_keeps_latch [OF _ this] show ?thesis
    by (intro exI [of _ ?W] exI [of _ W']) (simp add: one_region_def)
qed



end
