(* ===== verification/Exn_Stack.thy ===== *)
theory Exn_Stack
  imports Region_Pages
begin

section \<open>Exceptions and the stack of frames\<close>

text \<open>
  The frame stack of a thread and the exceptions of the runtime: lib/runtime_exception.c, \<open>_push_frame\<close>
  and \<open>_npop_frame\<close> of lib/runtime_stack.c, and the region frames of lib/runtime_memory.c
  (\<open>_push_region\<close>, \<open>_pop_region\<close>, \<open>__free_region\<close>).

  A frame (struct \<open>_RuntimeStack\<close>) is part of a handler or of a region handle and is linked to the frame
  below it, so the frames are a store from addresses to records, and the region handles a store of their
  own; \<open>cast_stack_rgn\<close> and \<open>cast_rgn_stack\<close> go from one to the other.  The function pointer
  \<open>cleanup\<close> is null or \<open>__free_region\<close>, the only two values the runtime stores there.

  A \<open>longjmp\<close> leaves the function, so the result of \<open>_throw_fn\<close> is the handler it jumps to, with the
  state at that moment.  The function a program installs for uncaught exceptions is outside the
  repository: \<open>call\<close> is what calling a function pointer does.

  What the lemmas show: a throw releases exactly the regions above the nearest handler, and leaves the
  stack below it as it was (\<open>unwind_spec\<close>); \<open>_npop_frame\<close> does the same for a given number of
  frames, or ends the process if there are fewer (\<open>npop_spec\<close>, \<open>npop_underflow\<close>).
\<close>

subsection \<open>The state of a thread\<close>

datatype cleanup_fn = No_cleanup | Free_region_cleanup

record frame =
  ftag :: u32
  fnext :: ptr
  cleanup :: cleanup_fn

record tstate =
  current_frame :: ptr
  frames :: "ptr \<Rightarrow> frame"
  rgns :: "ptr \<Rightarrow> region_handle"
  thp :: heap
  top_handler :: ptr
  exn_thrown :: "exn option"
  exn_filename :: string
  exn_lineno :: u32
  uncaught_fun :: ptr
  in_uncaught_fun :: bool

definition stack_offset :: u32 where
  "stack_offset = 4"

definition cast_stack_rgn :: "ptr \<Rightarrow> ptr" where
  "cast_stack_rgn x = x - stack_offset"

definition cast_rgn_stack :: "ptr \<Rightarrow> ptr" where
  "cast_rgn_stack x = x + stack_offset"

definition upd_frame :: "ptr \<Rightarrow> (frame \<Rightarrow> frame) \<Rightarrow> tstate \<Rightarrow> tstate" where
  "upd_frame p f S = S\<lparr>frames := (frames S)(p := f (frames S p))\<rparr>"

subsection \<open>Pushing and popping frames\<close>

definition push_frame :: "ptr \<Rightarrow> tstate \<Rightarrow> tstate" where
  "push_frame frame S =
     (let S = upd_frame frame (\<lambda>f. f\<lparr>fnext := current_frame S\<rparr>) S in S\<lparr>current_frame := frame\<rparr>)"

text \<open>\<open>__free_region\<close>, the cleanup of a region frame.\<close>

definition free_region_frame :: "ptr \<Rightarrow> tstate \<Rightarrow> tstate ores" where
  "free_region_frame rts S =
     (let r = cast_stack_rgn rts
      in bind_ores (free_region (rgns S r) (thp S)) (\<lambda>(v, h). Some (Inr (S\<lparr>rgns := (rgns S)(r := v), thp := h\<rparr>))))"

definition run_cleanup :: "ptr \<Rightarrow> tstate \<Rightarrow> tstate ores" where
  "run_cleanup p S =
     (case cleanup (frames S p) of No_cleanup \<Rightarrow> Some (Inr S) | Free_region_cleanup \<Rightarrow> free_region_frame p S)"

text \<open>\<open>for (i = n; i <= n; i--)\<close> over unsigned values: the loop ends when \<open>i\<close> wraps around.\<close>

partial_function (option) npop_loop :: "u32 \<Rightarrow> u32 \<Rightarrow> ptr \<Rightarrow> tstate \<Rightarrow> tstate ores" where
  "npop_loop n i cf S =
     (if i \<le> n
      then if cf = NULL then Some (Inl (Errquit ''internal error: empty frame stack''))
           else bind_ores (run_cleanup cf S) (\<lambda>S. npop_loop n (i - 1) (fnext (frames S cf)) S)
      else Some (Inr (S\<lparr>current_frame := cf\<rparr>)))"

definition npop_frame :: "u32 \<Rightarrow> tstate \<Rightarrow> tstate ores" where
  "npop_frame n S = npop_loop n n (current_frame S) S"

definition push_region :: "ptr \<Rightarrow> tstate \<Rightarrow> tstate" where
  "push_region r S =
     push_frame (cast_rgn_stack r)
       (upd_frame (cast_rgn_stack r) (\<lambda>f. f\<lparr>ftag := 1, cleanup := Free_region_cleanup\<rparr>) S)"

definition pop_region :: "tstate \<Rightarrow> tstate ores" where
  "pop_region S =
     (let f = current_frame S
      in if f = NULL \<or> ftag (frames S f) \<noteq> 1 then Some (Inl (Errquit ''internal error: _pop_region''))
         else npop_frame 0 S)"

definition push_handler :: "ptr \<Rightarrow> tstate \<Rightarrow> tstate" where
  "push_handler h S = push_frame h (upd_frame h (\<lambda>f. f\<lparr>ftag := 0, cleanup := No_cleanup\<rparr>) S)"

definition npop_handler :: "u32 \<Rightarrow> tstate \<Rightarrow> tstate ores" where
  "npop_handler n S = npop_frame n S"

definition pop_handler :: "tstate \<Rightarrow> tstate ores" where
  "pop_handler S = npop_handler 0 S"

subsection \<open>Throwing\<close>

partial_function (option) unwind_loop :: "ptr \<Rightarrow> tstate \<Rightarrow> (ptr \<times> tstate) ores" where
  "unwind_loop cf S =
     (if cf \<noteq> NULL \<and> ftag (frames S cf) \<noteq> 0
      then bind_ores (run_cleanup cf S) (\<lambda>S. unwind_loop (fnext (frames S cf)) S)
      else Some (Inr (cf, S)))"

text \<open>The handlers compared in \<open>_throw_fn\<close> are arrays: the comparison is that of their addresses.\<close>

definition throw_fn :: "(ptr \<Rightarrow> tstate \<Rightarrow> tstate ores) \<Rightarrow> exn \<Rightarrow> string \<Rightarrow> u32 \<Rightarrow> tstate \<Rightarrow> (ptr \<times> tstate) ores" where
  "throw_fn call e filename lineno S =
     bind_ores (unwind_loop (current_frame S) S) (\<lambda>(cf, S).
     if cf = NULL then Some (Inl (Errquit ''_throw_fn: no handler found - top handler not installed ?''))
     else let S = S\<lparr>current_frame := fnext (frames S cf)\<rparr>;
              S = S\<lparr>exn_thrown := Some e, exn_filename := filename, exn_lineno := lineno\<rparr>
          in if cf = top_handler S \<and> \<not> in_uncaught_fun S
             then let S = S\<lparr>in_uncaught_fun := True\<rparr>
                  in bind_ores (if uncaught_fun S \<noteq> NULL then call (uncaught_fun S) S else Some (Inr S)) (\<lambda>S.
                     Some (Inr (cf, S)))
             else Some (Inr (cf, S)))"

text \<open>\<open>_rethrow\<close> needs an exception that was thrown before only for its position.\<close>

definition rethrow :: "(ptr \<Rightarrow> tstate \<Rightarrow> tstate ores) \<Rightarrow> exn \<Rightarrow> tstate \<Rightarrow> (ptr \<times> tstate) ores" where
  "rethrow call e S = throw_fn call e (exn_filename S) (exn_lineno S) S"

definition Cyc_Core_rethrow :: "(ptr \<Rightarrow> tstate \<Rightarrow> tstate ores) \<Rightarrow> exn \<Rightarrow> tstate \<Rightarrow> (ptr \<times> tstate) ores" where
  "Cyc_Core_rethrow call e S = rethrow call e S"

definition throw_exn :: "(ptr \<Rightarrow> tstate \<Rightarrow> tstate ores) \<Rightarrow> exn \<Rightarrow> tstate \<Rightarrow> (ptr \<times> tstate) ores" where
  "throw_exn call e S = throw_fn call e ''?'' 0 S"

definition throw_null_fn :: "(ptr \<Rightarrow> tstate \<Rightarrow> tstate ores) \<Rightarrow> string \<Rightarrow> u32 \<Rightarrow> tstate \<Rightarrow> (ptr \<times> tstate) ores" where
  "throw_null_fn call filename lineno S = throw_fn call Null_Exception filename lineno S"

definition throw_arraybounds_fn :: "(ptr \<Rightarrow> tstate \<Rightarrow> tstate ores) \<Rightarrow> string \<Rightarrow> u32 \<Rightarrow> tstate \<Rightarrow> (ptr \<times> tstate) ores" where
  "throw_arraybounds_fn call filename lineno S = throw_fn call Array_bounds filename lineno S"

definition throw_badalloc_fn :: "(ptr \<Rightarrow> tstate \<Rightarrow> tstate ores) \<Rightarrow> string \<Rightarrow> u32 \<Rightarrow> tstate \<Rightarrow> (ptr \<times> tstate) ores" where
  "throw_badalloc_fn call filename lineno S = throw_fn call Bad_alloc filename lineno S"

definition throw_match_fn :: "(ptr \<Rightarrow> tstate \<Rightarrow> tstate ores) \<Rightarrow> string \<Rightarrow> u32 \<Rightarrow> tstate \<Rightarrow> (ptr \<times> tstate) ores" where
  "throw_match_fn call filename lineno S = throw_fn call Match_Exception filename lineno S"

definition throw_stack_fn :: "(ptr \<Rightarrow> tstate \<Rightarrow> tstate ores) \<Rightarrow> tstate \<Rightarrow> (ptr \<times> tstate) ores" where
  "throw_stack_fn call S = throw_fn call Stack_overflow ''?'' (- 1) S"

text \<open>A fault that is not serious is a stack overflow: the handler is left for \<open>_throw_stack_fn\<close>.\<close>

definition exn_segv_handler :: "(ptr \<Rightarrow> tstate \<Rightarrow> tstate ores) \<Rightarrow> u32 \<Rightarrow> tstate \<Rightarrow> (ptr \<times> tstate) ores" where
  "exn_segv_handler call serious S =
     (if serious \<noteq> 0 then Some (Inl (Errquit ''Caught segfault but its not stack overflow!''))
      else throw_stack_fn call S)"

definition exn_stackoverflow_handler :: "(ptr \<Rightarrow> tstate \<Rightarrow> tstate ores) \<Rightarrow> tstate \<Rightarrow> (ptr \<times> tstate) ores" where
  "exn_stackoverflow_handler call S = throw_stack_fn call S"

subsection \<open>The top handler and the exception record\<close>

definition Cyc_Core_get_exn_thrown :: "tstate \<Rightarrow> exn option" where
  "Cyc_Core_get_exn_thrown S = exn_thrown S"

definition Cyc_Core_get_exn_filename :: "tstate \<Rightarrow> string" where
  "Cyc_Core_get_exn_filename S = exn_filename S"

definition Cyc_Core_get_exn_lineno :: "tstate \<Rightarrow> int" where
  "Cyc_Core_get_exn_lineno S = sint (exn_lineno S)"

text \<open>The tag of an exception value is the name it was declared with.\<close>

fun Cyc_Core_get_exn_name :: "exn \<Rightarrow> string" where
  "Cyc_Core_get_exn_name Null_Exception = ''Cyc_Null_Exception''"
| "Cyc_Core_get_exn_name Array_bounds = ''Cyc_Array_bounds''"
| "Cyc_Core_get_exn_name Match_Exception = ''Cyc_Match_Exception''"
| "Cyc_Core_get_exn_name Bad_alloc = ''Cyc_Bad_alloc''"
| "Cyc_Core_get_exn_name Stack_overflow = ''Cyc_Stack_overflow''"
| "Cyc_Core_get_exn_name List_mismatch = ''List_mismatch''"
| "Cyc_Core_get_exn_name Nth = ''Nth''"
| "Cyc_Core_get_exn_name Not_found = ''Not_found''"
| "Cyc_Core_get_exn_name Absent = ''Absent''"
| "Cyc_Core_get_exn_name Present = ''Present''"
| "Cyc_Core_get_exn_name Empty = ''Empty''"
| "Cyc_Core_get_exn_name (Failure _) = ''Failure''"
| "Cyc_Core_get_exn_name (Invalid_argument _) = ''Invalid_argument''"

definition Cyc_Core_set_uncaught_exn_fun :: "ptr \<Rightarrow> tstate \<Rightarrow> tstate" where
  "Cyc_Core_set_uncaught_exn_fun f S = S\<lparr>uncaught_fun := f\<rparr>"

text \<open>\<open>_set_top_handler\<close> returns twice: the first time it installs the handler and returns null.\<close>

definition set_top_handler :: "tstate \<Rightarrow> tstate" where
  "set_top_handler S =
     (let top = top_handler S;
          S = upd_frame top (\<lambda>f. f\<lparr>cleanup := No_cleanup, ftag := 0, fnext := current_frame S\<rparr>) S
      in S\<lparr>current_frame := top\<rparr>)"

text \<open>The second time, after the jump, it returns the name of the exception.\<close>

definition top_handler_caught :: "tstate \<Rightarrow> string option" where
  "top_handler_caught S = map_option Cyc_Core_get_exn_name (exn_thrown S)"

subsection \<open>Well-formed stacks\<close>

text \<open>The frames from \<open>p\<close> down are \<open>fs\<close>.\<close>

fun frame_chain :: "(ptr \<Rightarrow> frame) \<Rightarrow> ptr \<Rightarrow> ptr list \<Rightarrow> bool" where
  "frame_chain m p [] \<longleftrightarrow> p = NULL"
| "frame_chain m p (f # fs) \<longleftrightarrow> p = f \<and> f \<noteq> NULL \<and> frame_chain m (fnext (m f)) fs"

lemma frame_chain_append:
  "frame_chain m p (fs @ g # gs) \<Longrightarrow> frame_chain m g (g # gs)"
  by (induction fs arbitrary: p) auto

text \<open>A frame is a handler or the frame of a well-formed region; \<open>pg\<close> gives the pages of each region.\<close>

definition frame_ok :: "(ptr \<Rightarrow> ptr list) \<Rightarrow> tstate \<Rightarrow> ptr \<Rightarrow> bool" where
  "frame_ok pg S f \<longleftrightarrow>
     ftag (frames S f) = 0 \<and> cleanup (frames S f) = No_cleanup \<and> pg f = []
   \<or> ftag (frames S f) = 1 \<and> cleanup (frames S f) = Free_region_cleanup \<and> region_wf (thp S) (rgns S (cast_stack_rgn f)) (pg f)"

definition stack_ok :: "(ptr \<Rightarrow> ptr list) \<Rightarrow> tstate \<Rightarrow> ptr list \<Rightarrow> bool" where
  "stack_ok pg S fs \<longleftrightarrow> heap_wf (thp S) \<and> (\<forall>f \<in> set fs. frame_ok pg S f) \<and> distinct fs
     \<and> (\<forall>f \<in> set fs. \<forall>g \<in> set fs. f \<noteq> g \<longrightarrow> set (pg f) \<inter> set (pg g) = {})"

text \<open>The regions of the frames \<open>fs\<close> have been released, and nothing else.\<close>

definition released_frames :: "(ptr \<Rightarrow> ptr list) \<Rightarrow> ptr list \<Rightarrow> tstate \<Rightarrow> tstate \<Rightarrow> bool" where
  "released_frames pg fs S S' \<longleftrightarrow>
     (\<exists>rg h. S' = S\<lparr>rgns := rg, thp := h\<rparr> \<and> bytes h = bytes (thp S)
        \<and> set (live h) = {b \<in> set (live (thp S)). fst b \<notin> (\<Union>f \<in> set fs. set (pg f))}
        \<and> (\<forall>r. r \<notin> cast_stack_rgn ` set fs \<longrightarrow> rg r = rgns S r))"

lemma released_framesI:
  assumes "S' = S\<lparr>rgns := rg, thp := h\<rparr>" "bytes h = bytes (thp S)"
    "set (live h) = {b \<in> set (live (thp S)). fst b \<notin> (\<Union>f \<in> set fs. set (pg f))}"
    "\<And>r. r \<notin> cast_stack_rgn ` set fs \<Longrightarrow> rg r = rgns S r"
  shows "released_frames pg fs S S'"
  unfolding released_frames_def using assms by blast

lemma cast_stack_rgn_inj [simp]: "cast_stack_rgn f = cast_stack_rgn g \<longleftrightarrow> f = g"
  by (simp add: cast_stack_rgn_def)

lemma page_chain_bytes: "bytes h' = bytes h \<Longrightarrow> page_chain h' p ps = page_chain h p ps"
  by (induction ps arbitrary: p) (auto simp: page_next_def load32_def)

text \<open>A region keeps its pages when blocks that are not its pages are freed.\<close>

lemma region_wf_others:
  assumes "region_wf h r ps" and "bytes h' = bytes h" and "set (live h') = {b \<in> set (live h). fst b \<notin> A}" and "A \<inter> set ps = {}"
  shows "region_wf h' r ps"
proof -
  have c: "page_chain h (curr r) ps" using assms(1) by (simp add: region_wf_def)
  have "curr r \<in> set ps" if "curr r \<noteq> NULL" using c that by (cases ps) auto
  then have "bump_in_page h' r" if "curr r \<noteq> NULL" "bump_in_page h r"
    using that assms(3,4) by (auto simp: bump_in_page_def)
  moreover have "\<forall>p \<in> set ps. owns_page h' p"
    using assms(1,3,4) by (fastforce simp: region_wf_def owns_page_def)
  ultimately show ?thesis using assms(1) page_chain_bytes [OF assms(2)] by (auto simp: region_wf_def)
qed

lemma run_cleanup_spec:
  assumes "stack_ok pg S (f # fs)"
  shows "\<exists>S'. run_cleanup f S = Some (Inr S') \<and> released_frames pg [f] S S' \<and> stack_ok pg S' fs"
proof -
  from assms have hw: "heap_wf (thp S)" and ok: "frame_ok pg S f" and fs: "f \<notin> set fs" by (auto simp: stack_ok_def)
  from ok [unfolded frame_ok_def] show ?thesis
  proof (elim disjE conjE)
    assume c: "cleanup (frames S f) = No_cleanup" "pg f = []"
    have "released_frames pg [f] S S"
      by (rule released_framesI [where rg = "rgns S" and h = "thp S"]) (simp_all add: c)
    then show ?thesis using c assms by (auto simp: run_cleanup_def stack_ok_def)
  next
    assume c: "cleanup (frames S f) = Free_region_cleanup" and wf: "region_wf (thp S) (rgns S (cast_stack_rgn f)) (pg f)"
    obtain r' h' where F: "free_region (rgns S (cast_stack_rgn f)) (thp S) = Some (Inr (r', h'))" "heap_wf h'"
      "set (live h') = {b \<in> set (live (thp S)). fst b \<notin> set (pg f)}" "bytes h' = bytes (thp S)"
      using free_region_spec [OF wf hw] by blast
    define S' where "S' = S\<lparr>rgns := (rgns S)(cast_stack_rgn f := r'), thp := h'\<rparr>"
    have "run_cleanup f S = Some (Inr S')" using c F(1) by (simp add: run_cleanup_def free_region_frame_def Let_def S'_def)
    moreover have "released_frames pg [f] S S'" 
      by (rule released_framesI [where rg = "(rgns S)(cast_stack_rgn f := r')" and h = h']) (use F(3,4) in \<open>auto simp: S'_def\<close>)
    moreover have "frame_ok pg S' g" if "g \<in> set fs" for g
    proof -
      have g: "frame_ok pg S g" "g \<noteq> f" "set (pg f) \<inter> set (pg g) = {}" using assms that fs by (auto simp: stack_ok_def)
      then show ?thesis using region_wf_others [OF _ F(4,3)] by (auto simp: frame_ok_def S'_def)
    qed
    then have "stack_ok pg S' fs" using assms F(2) by (auto simp: stack_ok_def S'_def)
    ultimately show ?thesis by blast
  qed
qed

lemma released_frames_trans:
  assumes "released_frames pg fs S S'" and "released_frames pg gs S' S''"
  shows "released_frames pg (fs @ gs) S S''"
proof -
  obtain rg h where 1: "S' = S\<lparr>rgns := rg, thp := h\<rparr>" "bytes h = bytes (thp S)"
    "set (live h) = {b \<in> set (live (thp S)). fst b \<notin> (\<Union>f \<in> set fs. set (pg f))}"
    "\<forall>r. r \<notin> cast_stack_rgn ` set fs \<longrightarrow> rg r = rgns S r" using assms(1) by (auto simp: released_frames_def)
  obtain rg' h' where 2: "S'' = S'\<lparr>rgns := rg', thp := h'\<rparr>" "bytes h' = bytes h"
    "set (live h') = {b \<in> set (live h). fst b \<notin> (\<Union>f \<in> set gs. set (pg f))}"
    "\<forall>r. r \<notin> cast_stack_rgn ` set gs \<longrightarrow> rg' r = rg r" using assms(2) 1(1) by (auto simp: released_frames_def)
  show ?thesis
    by (rule released_framesI [where rg = rg' and h = h']) (use 1 2 in \<open>auto simp: image_Un\<close>)
qed

lemma released_frames_sel: "released_frames pg fs S S' \<Longrightarrow> frames S' = frames S \<and> current_frame S' = current_frame S"
  by (auto simp: released_frames_def)

lemma released_frames_refl [simp]: "released_frames pg [] S S"
  by (rule released_framesI [where rg = "rgns S" and h = "thp S"]) simp_all

lemma stack_ok_tl: "stack_ok pg S (f # fs) \<Longrightarrow> stack_ok pg S fs"
  by (auto simp: stack_ok_def)

lemma run_cleanup_step:
  assumes "stack_ok pg S (f # fs)" and "frame_chain (frames S) f (f # fs)"
  obtains S' where "run_cleanup f S = Some (Inr S')" "released_frames pg [f] S S'" "stack_ok pg S' fs"
    "frame_chain (frames S') (fnext (frames S' f)) fs"
  using run_cleanup_spec [OF assms(1)] assms(2) released_frames_sel by fastforce

text \<open>Unwinding over the region frames \<open>rs\<close> down to the handler \<open>h\<close>, or to the end of the stack.\<close>

lemma unwind_spec:
  assumes "frame_chain (frames S) p (rs @ hs)" and "stack_ok pg S (rs @ hs)" and "\<forall>f \<in> set rs. ftag (frames S f) \<noteq> 0"
    and "hs = [] \<or> ftag (frames S (hd hs)) = 0"
  shows "\<exists>S'. unwind_loop p S = Some (Inr (if hs = [] then NULL else hd hs, S')) \<and> released_frames pg rs S S' \<and> stack_ok pg S' hs"
  using assms
proof (induction rs arbitrary: p S)
  case Nil
  then have "unwind_loop p S = Some (Inr (if hs = [] then NULL else hd hs, S))" by (cases hs) (auto simp: unwind_loop.simps)
  then show ?case using Nil.prems(2) by auto
next
  case (Cons f rs)
  then have p: "p = f" "f \<noteq> NULL" "ftag (frames S f) \<noteq> 0" by auto
  from run_cleanup_step [of pg S f "rs @ hs"] Cons.prems(1,2) p obtain S1 where S1: "run_cleanup f S = Some (Inr S1)"
    "released_frames pg [f] S S1" "stack_ok pg S1 (rs @ hs)" "frame_chain (frames S1) (fnext (frames S1 f)) (rs @ hs)" by auto
  have fr: "frames S1 = frames S" using released_frames_sel [OF S1(2)] by blast
  have "unwind_loop p S = unwind_loop (fnext (frames S1 f)) S1" using p S1(1) by (subst unwind_loop.simps) simp
  moreover obtain S' where "unwind_loop (fnext (frames S1 f)) S1 = Some (Inr (if hs = [] then NULL else hd hs, S'))"
    "released_frames pg rs S1 S'" "stack_ok pg S' hs"
    using Cons.IH [OF S1(4,3)] Cons.prems(3,4) fr by auto
  ultimately show ?case using released_frames_trans [OF S1(2)] by fastforce
qed

lemma npop_loop_spec:
  assumes "frame_chain (frames S) p (rs @ hs)" and "stack_ok pg S (rs @ hs)" and "i \<le> n" and "length rs = Suc (unat i)" and "n \<noteq> - 1"
  shows "\<exists>S' q. npop_loop n i p S = Some (Inr (S'\<lparr>current_frame := q\<rparr>)) \<and> frame_chain (frames S') q hs
     \<and> released_frames pg rs S S' \<and> stack_ok pg S' hs"
  using assms
proof (induction rs arbitrary: p S i)
  case (Cons f rs)
  then have p: "p = f" "f \<noteq> NULL" by auto
  from run_cleanup_step [of pg S f "rs @ hs"] Cons.prems(1,2) p obtain S1 where S1: "run_cleanup f S = Some (Inr S1)"
    "released_frames pg [f] S S1" "stack_ok pg S1 (rs @ hs)" "frame_chain (frames S1) (fnext (frames S1 f)) (rs @ hs)" by auto
  have step: "npop_loop n i p S = npop_loop n (i - 1) (fnext (frames S1 f)) S1"
    using p S1(1) Cons.prems(3) by (subst npop_loop.simps) simp
  show ?case
  proof (cases "i = 0")
    case True
    then have "rs = []" using Cons.prems(4) by simp
    moreover have "\<not> i - 1 \<le> n" using True Cons.prems(5) by (simp add: word_order.extremum_unique)
    then have "npop_loop n (i - 1) (fnext (frames S1 f)) S1 = Some (Inr (S1\<lparr>current_frame := fnext (frames S1 f)\<rparr>))"
      by (subst npop_loop.simps) simp
    ultimately show ?thesis using step S1 by auto
  next
    case False
    then have "i - 1 \<le> n" "length rs = Suc (unat (i - 1))"
      using Cons.prems(3,4) by (auto simp: unat_minus_one word_le_nat_alt unat_eq_0 [symmetric])
    from Cons.IH [OF S1(4,3) this Cons.prems(5)] show ?thesis using step released_frames_trans [OF S1(2)] by fastforce
  qed
qed simp

lemma npop_loop_underflow:
  assumes "frame_chain (frames S) p rs" and "stack_ok pg S rs" and "i \<le> n" and "length rs \<le> unat i"
  shows "npop_loop n i p S = Some (Inl (Errquit ''internal error: empty frame stack''))"
  using assms
proof (induction rs arbitrary: p S i)
  case Nil
  then show ?case by (subst npop_loop.simps) simp
next
  case (Cons f rs)
  then have p: "p = f" "f \<noteq> NULL" by auto
  from run_cleanup_step [of pg S f rs] Cons.prems(1,2) p obtain S1 where S1: "run_cleanup f S = Some (Inr S1)"
    "stack_ok pg S1 rs" "frame_chain (frames S1) (fnext (frames S1 f)) rs" by auto
  have "i \<noteq> 0" using Cons.prems(4) by auto
  then have "i - 1 \<le> n" "length rs \<le> unat (i - 1)"
    using Cons.prems(3,4) by (auto simp: unat_minus_one word_le_nat_alt)
  from Cons.IH [OF S1(3,2) this] show ?case using p S1(1) Cons.prems(3) by (subst npop_loop.simps) simp
qed

lemma throw_no_handler:
  assumes "frame_chain (frames S) (current_frame S) rs" and "stack_ok pg S rs" and "\<forall>f \<in> set rs. ftag (frames S f) \<noteq> 0"
  shows "throw_fn call e filename lineno S = Some (Inl (Errquit ''_throw_fn: no handler found - top handler not installed ?''))"
  using unwind_spec [of S "current_frame S" rs "[]" pg] assms by (auto simp: throw_fn_def)

lemma stack_ok_cong:
  assumes "stack_ok pg S fs" and "frames S' = frames S" "rgns S' = rgns S" "thp S' = thp S"
  shows "stack_ok pg S' fs"
  using assms by (simp add: stack_ok_def frame_ok_def)

text \<open>\<open>push_region\<close> and \<open>push_handler\<close> keep the stack well formed.\<close>

lemma push_handler_ok:
  assumes "stack_ok pg S fs" and "frame_chain (frames S) (current_frame S) fs" and "h \<noteq> NULL" "h \<notin> set fs" "pg h = []"
  shows "stack_ok pg (push_handler h S) (h # fs) \<and> frame_chain (frames (push_handler h S)) (current_frame (push_handler h S)) (h # fs)"
proof -
  have "frame_chain m p gs \<Longrightarrow> h \<notin> set gs \<Longrightarrow> frame_chain (m(h := v)) p gs" for m p gs v
    by (induction gs arbitrary: p) auto
  then show ?thesis using assms by (auto simp: push_handler_def push_frame_def upd_frame_def stack_ok_def frame_ok_def Let_def)
qed

subsection \<open>Properties\<close>

text \<open>C8: a throw ends in the nearest handler.  Exactly the pages of the regions above it are released, the
  frames below it are the new stack and stay well formed, and the exception is recorded with its position.\<close>

theorem exn_throw_unwinds:
  assumes "frame_chain (frames S) (current_frame S) (rs @ h # rest)" and "stack_ok pg S (rs @ h # rest)"
    and "\<forall>f \<in> set rs. ftag (frames S f) \<noteq> 0" and "ftag (frames S h) = 0"
    and "h \<noteq> top_handler S \<or> uncaught_fun S = NULL"
  shows "\<exists>S'. throw_fn call e filename lineno S = Some (Inr (h, S')) \<and> frame_chain (frames S') (current_frame S') rest
     \<and> stack_ok pg S' rest \<and> exn_thrown S' = Some e \<and> exn_filename S' = filename \<and> exn_lineno S' = lineno
     \<and> set (live (thp S')) = {b \<in> set (live (thp S)). fst b \<notin> (\<Union>f \<in> set rs. set (pg f))}"
proof -
  obtain S1 where 1: "unwind_loop (current_frame S) S = Some (Inr (h, S1))" "released_frames pg rs S S1" "stack_ok pg S1 (h # rest)"
    using unwind_spec [of S "current_frame S" rs "h # rest" pg] assms(1-4) by auto
  have f: "frames S1 = frames S" "top_handler S1 = top_handler S" "uncaught_fun S1 = uncaught_fun S"
    "set (live (thp S1)) = {b \<in> set (live (thp S)). fst b \<notin> (\<Union>f \<in> set rs. set (pg f))}"
    using 1(2) by (auto simp: released_frames_def)
  have c: "frame_chain (frames S) h (h # rest)" by (rule frame_chain_append [OF assms(1)])
  define S2 where "S2 = S1\<lparr>current_frame := fnext (frames S1 h), exn_thrown := Some e, exn_filename := filename, exn_lineno := lineno\<rparr>"
  define S3 where "S3 = (if h = top_handler S2 \<and> \<not> in_uncaught_fun S2 then S2\<lparr>in_uncaught_fun := True\<rparr> else S2)"
  have "throw_fn call e filename lineno S = Some (Inr (h, S3))"
    using 1(1) c assms(5) f by (auto simp: throw_fn_def S2_def S3_def Let_def)
  moreover have "stack_ok pg S3 rest"
    by (rule stack_ok_cong [OF stack_ok_tl [OF 1(3)]]) (auto simp: S3_def S2_def)
  moreover have "frame_chain (frames S3) (current_frame S3) rest" using c f(1) by (auto simp: S3_def S2_def)
  moreover have "exn_thrown S3 = Some e" "exn_filename S3 = filename" "exn_lineno S3 = lineno" "thp S3 = thp S1"
    by (simp_all add: S3_def S2_def)
  ultimately show ?thesis using f(4) by auto
qed

text \<open>A thread with a region of one page above a handler.\<close>

definition one_page :: tstate where
  "one_page = \<lparr>current_frame = NULL, frames = (\<lambda>_. \<lparr>ftag = 0, fnext = NULL, cleanup = No_cleanup\<rparr>),
     rgns = (\<lambda>_. \<lparr>is_xrgn = 0, curr = 4096, offset = 4104, last_plus_one = 5128, used_bytes = 1024, wasted_bytes = 0\<rparr>),
     thp = \<lparr>live = [(4096, 1032)], bytes = (\<lambda>_. 0)\<rparr>, top_handler = 64, exn_thrown = None, exn_filename = ''?'',
     exn_lineno = 0, uncaught_fun = NULL, in_uncaught_fun = False\<rparr>"

definition region_over_handler :: tstate where
  "region_over_handler = push_region 200 (push_handler 100 one_page)"

definition page_of :: "ptr \<Rightarrow> ptr list" where
  "page_of f = (if f = 204 then [4096] else [])"

lemmas one_page_eval = region_over_handler_def one_page_def push_region_def push_handler_def push_frame_def upd_frame_def
  cast_rgn_stack_def cast_stack_rgn_def stack_offset_def Let_def page_of_def

lemma region_over_handler_ok:
  "frame_chain (frames region_over_handler) (current_frame region_over_handler) [204, 100]"
  "stack_ok page_of region_over_handler [204, 100]"
  "ftag (frames region_over_handler 204) = 1" "ftag (frames region_over_handler 100) = 0"
  by (simp_all add: one_page_eval stack_ok_def frame_ok_def region_wf_def bump_in_page_def owns_page_def heap_wf_def
      no_wrap_def page_next_def load32_def word_le_nat_alt)

lemma no_block_left [simp]: "{b. b = (4096 :: u32, 1032 :: u32) \<and> fst b \<noteq> 4096} = {}"
  by auto

theorem exn_throw_unwinds_witness:
  "stack_ok page_of region_over_handler ([204] @ [100]) \<and>
   (\<exists>S'. throw_fn (\<lambda>_ S. Some (Inr S)) Bad_alloc ''f'' 7 region_over_handler = Some (Inr (100, S'))
      \<and> current_frame S' = NULL \<and> exn_thrown S' = Some Bad_alloc \<and> set (live (thp S')) = {})"
proof -
  have "uncaught_fun region_over_handler = NULL" "live (thp region_over_handler) = [(4096, 1032)]" by (simp_all add: one_page_eval)
  with exn_throw_unwinds [of region_over_handler "[204]" 100 "[]" page_of "\<lambda>_ S. Some (Inr S)" Bad_alloc "''f''" 7]
  show ?thesis using region_over_handler_ok by (auto simp: page_of_def)
qed

text \<open>\<open>_npop_frame\<close> with an argument below the largest one pops exactly \<open>n + 1\<close> frames and releases exactly
  the regions among them; on a stack with fewer frames it ends the process.\<close>

theorem exn_npop_exact:
  assumes "frame_chain (frames S) (current_frame S) fs" and "stack_ok pg S fs" and "n \<noteq> - 1"
  shows "if unat n < length fs
     then \<exists>S'. npop_frame n S = Some (Inr S') \<and> frame_chain (frames S') (current_frame S') (drop (Suc (unat n)) fs)
        \<and> stack_ok pg S' (drop (Suc (unat n)) fs)
        \<and> set (live (thp S')) = {b \<in> set (live (thp S)). fst b \<notin> (\<Union>f \<in> set (take (Suc (unat n)) fs). set (pg f))}
     else npop_frame n S = Some (Inl (Errquit ''internal error: empty frame stack''))"
proof (cases "unat n < length fs")
  case True
  let ?rs = "take (Suc (unat n)) fs" and ?hs = "drop (Suc (unat n)) fs"
  have "length ?rs = Suc (unat n)" using True by simp
  then obtain S1 q where 1: "npop_frame n S = Some (Inr (S1\<lparr>current_frame := q\<rparr>))" "frame_chain (frames S1) q ?hs"
    "released_frames pg ?rs S S1" "stack_ok pg S1 ?hs"
    using npop_loop_spec [of S "current_frame S" ?rs ?hs pg n n] assms by (auto simp: npop_frame_def)
  then have "stack_ok pg (S1\<lparr>current_frame := q\<rparr>) ?hs" by (intro stack_ok_cong [OF 1(4)]) simp_all
  moreover have "set (live (thp S1)) = {b \<in> set (live (thp S)). fst b \<notin> (\<Union>f \<in> set ?rs. set (pg f))}"
    using 1(3) by (auto simp: released_frames_def)
  ultimately show ?thesis using True 1(1,2) by auto
next
  case False
  then show ?thesis using npop_loop_underflow [OF assms(1,2), of n n] by (simp add: npop_frame_def)
qed

theorem exn_npop_exact_witness:
  "(\<exists>S'. npop_frame 0 region_over_handler = Some (Inr S') \<and> current_frame S' = 100 \<and> set (live (thp S')) = {})
   \<and> npop_frame 2 region_over_handler = Some (Inl (Errquit ''internal error: empty frame stack''))"
proof -
  have "live (thp region_over_handler) = [(4096, 1032)]" by (simp add: one_page_eval)
  then show ?thesis
    using exn_npop_exact [OF region_over_handler_ok(1,2), of 0] exn_npop_exact [OF region_over_handler_ok(1,2), of 2]
    by (auto simp: page_of_def)
qed

end
