(* ===== verification/Region_Alloc.thy ===== *)
theory Region_Alloc
  imports Xregion Fat_Pointers
begin

section \<open>Allocation from any region\<close>

text \<open>
  The allocation functions compiled code calls (lib/runtime_memory.c, lib/cyc_include.h):
  \<open>_region_malloc\<close>, \<open>_region_calloc\<close> and the inline \<open>_fast_region_malloc\<close> dispatch on the region
  pointer, whose values 0, 1 and 2 stand for the heap, the unique and the reference-counted region;
  a larger one is the handle of a lexical or of a shared region, told apart by the first field of both
  structs.  With them the operations on unique and reference-counted pointers and the dynamic
  regions opened with a key.

  The state is that of theory Xregion with a store for the handles of lexical and dynamic regions;
  the field \<open>is_xrgn\<close> of an entry tells that the address holds a shared region, whose other fields
  are in \<open>regions\<close>.  A reference count is a word in memory before the block it counts for.
  An exception leaves the state as it is, so an allocation returns an outcome with a state.
\<close>

subsection \<open>Dispatch\<close>

record astate =
  aw :: world
  lexr :: "ptr \<Rightarrow> region_handle"

definition CYC_CORE_HEAP_REGION :: ptr where "CYC_CORE_HEAP_REGION = 0"
definition CYC_CORE_UNIQUE_REGION :: ptr where "CYC_CORE_UNIQUE_REGION = 1"
definition CYC_CORE_REFCNT_REGION :: ptr where "CYC_CORE_REFCNT_REGION = 2"
definition CYC_MAX_REGION_CONST :: ptr where "CYC_MAX_REGION_CONST = 2"

definition aheap :: "astate \<Rightarrow> heap" where
  "aheap S = hp (aw S)"

definition set_heap :: "heap \<Rightarrow> astate \<Rightarrow> astate" where
  "set_heap h S = S\<lparr>aw := (aw S)\<lparr>hp := h\<rparr>\<rparr>"

definition set_lex :: "ptr \<Rightarrow> region_handle \<Rightarrow> astate \<Rightarrow> astate" where
  "set_lex r v S = S\<lparr>lexr := (lexr S)(r := v)\<rparr>"

text \<open>The branch of a lexical region, and the shared region behind the same pointer type.\<close>

definition lex_malloc :: "libc \<Rightarrow> u32 \<Rightarrow> ptr \<Rightarrow> u32 \<Rightarrow> astate \<Rightarrow> ptr res \<times> astate" where
  "lex_malloc alloc dps r s S =
     (case region_bump alloc dps (lexr S r) s (aheap S) of
        Inl f \<Rightarrow> (Inl f, S)
      | Inr (p, v, h) \<Rightarrow> (Inr p, set_lex r v (set_heap h S)))"

definition shared_malloc :: "libc \<Rightarrow> u32 \<Rightarrow> ptr \<Rightarrow> u32 \<Rightarrow> astate \<Rightarrow> ptr res \<times> astate" where
  "shared_malloc alloc dxps r s S = (let (o1, W) = xregion_malloc alloc dxps r s (aw S) in (o1, S\<lparr>aw := W\<rparr>))"

text \<open>A block with a reference count of 1 in front.\<close>

definition with_refcnt :: "(ptr \<times> heap) res \<Rightarrow> astate \<Rightarrow> ptr res \<times> astate" where
  "with_refcnt b S =
     (case b of Inl f \<Rightarrow> (Inl f, S) | Inr (p, h) \<Rightarrow> (Inr (p + 4), set_heap (store32 p 1 h) S))"

definition plain_block :: "(ptr \<times> heap) res \<Rightarrow> astate \<Rightarrow> ptr res \<times> astate" where
  "plain_block b S = (case b of Inl f \<Rightarrow> (Inl f, S) | Inr (p, h) \<Rightarrow> (Inr p, set_heap h S))"

definition region_malloc :: "libc \<Rightarrow> u32 \<Rightarrow> u32 \<Rightarrow> ptr \<Rightarrow> u32 \<Rightarrow> astate \<Rightarrow> ptr res \<times> astate" where
  "region_malloc alloc dps dxps r s S =
     (if CYC_MAX_REGION_CONST < r
      then if is_xrgn (lexr S r) \<noteq> 0 then shared_malloc alloc dxps r s S else lex_malloc alloc dps r s S
      else if r \<noteq> CYC_CORE_REFCNT_REGION then plain_block (bounded_GC_malloc alloc s (aheap S)) S
      else with_refcnt (bounded_GC_malloc alloc (s + 4) (aheap S)) S)"

definition region_calloc :: "libc \<Rightarrow> u32 \<Rightarrow> u32 \<Rightarrow> ptr \<Rightarrow> u32 \<Rightarrow> u32 \<Rightarrow> astate \<Rightarrow> ptr res \<times> astate" where
  "region_calloc alloc dps dxps r n t S =
     (let s = n * t
      in if CYC_MAX_REGION_CONST < r
         then if is_xrgn (lexr S r) \<noteq> 0
              then (let (o1, W) = xregion_calloc alloc dxps r s (aw S) in (o1, S\<lparr>aw := W\<rparr>))
              else lex_malloc alloc dps r s S
         else if r \<noteq> CYC_CORE_REFCNT_REGION then plain_block (bounded_GC_calloc alloc n t (aheap S)) S
         else with_refcnt (bounded_GC_calloc alloc (n * t + 4) 1 (aheap S)) S)"

text \<open>
  \<open>_fast_region_malloc\<close> reads \<open>curr\<close>, \<open>offset\<close> and \<open>last_plus_one\<close> through struct \<open>_RegionHandle\<close>
  without looking at \<open>is_xrgn\<close>.  In struct \<open>_XRegionHandle\<close> the bytes 16, 20 and 24 are the fields
  \<open>reader_cv\<close>, \<open>writer_q\<close> and \<open>reader_q\<close> of its capabilities.
\<close>

definition fast_view :: "ptr \<Rightarrow> astate \<Rightarrow> ptr \<times> ptr \<times> ptr" where
  "fast_view r S =
     (if is_xrgn (lexr S r) \<noteq> 0
      then let c = xr_caps (regions (aw S) r) in (reader_cv c, writer_q c, reader_q c)
      else (curr (lexr S r), offset (lexr S r), last_plus_one (lexr S r)))"

definition fast_set_offset :: "ptr \<Rightarrow> ptr \<Rightarrow> astate \<Rightarrow> astate" where
  "fast_set_offset r v S =
     (if is_xrgn (lexr S r) \<noteq> 0 then S\<lparr>aw := upd_caps r (\<lambda>c. c\<lparr>writer_q := v\<rparr>) (aw S)\<rparr>
      else set_lex r (lexr S r\<lparr>offset := v\<rparr>) S)"

definition fast_region_malloc :: "libc \<Rightarrow> u32 \<Rightarrow> u32 \<Rightarrow> ptr \<Rightarrow> u32 \<Rightarrow> astate \<Rightarrow> ptr res \<times> astate" where
  "fast_region_malloc alloc dps dxps r orig_s S =
     (let (c, off, last) = fast_view r S; s = round_up orig_s
      in if CYC_MAX_REGION_CONST < r \<and> c \<noteq> NULL \<and> s \<le> last - off
         then (Inr off, fast_set_offset r (off + s) S)
         else region_malloc alloc dps dxps r orig_s S)"

text \<open>The byte counts; \<open>gc\<close> is what the collector answers for the heap.\<close>

definition region_used_bytes :: "u32 \<Rightarrow> ptr \<Rightarrow> astate \<Rightarrow> u32" where
  "region_used_bytes gc r S = (if CYC_MAX_REGION_CONST < r then rgn_heap_size (lexr S r) else gc)"

definition region_free_bytes :: "u32 \<Rightarrow> ptr \<Rightarrow> astate \<Rightarrow> u32" where
  "region_free_bytes gc r S = (if CYC_MAX_REGION_CONST < r then rgn_free_bytes (lexr S r) else gc)"

definition region_alloc_bytes :: "u32 \<Rightarrow> ptr \<Rightarrow> astate \<Rightarrow> u32" where
  "region_alloc_bytes gc r S = (if CYC_MAX_REGION_CONST < r then rgn_total_bytes (lexr S r) else gc)"

subsection \<open>Unique and reference-counted pointers\<close>

definition Cyc_Core_ufree :: "ptr \<Rightarrow> astate \<Rightarrow> astate" where
  "Cyc_Core_ufree p S = (if p = NULL then S else set_heap (GC_free p (aheap S)) S)"

definition get_refcnt :: "ptr \<Rightarrow> ptr" where
  "get_refcnt p = (if p = NULL then NULL else p - 4)"

definition Cyc_Core_refptr_count :: "ptr \<Rightarrow> astate \<Rightarrow> int" where
  "Cyc_Core_refptr_count p S =
     (let cnt = get_refcnt p in if cnt \<noteq> NULL then sint (load32 (aheap S) cnt) else 0)"

definition Cyc_Core_alias_refptr :: "fat_ptr \<Rightarrow> astate \<Rightarrow> fat_ptr \<times> astate" where
  "Cyc_Core_alias_refptr p S =
     (let cnt = get_refcnt (fat_base p)
      in (p, if cnt \<noteq> NULL then set_heap (store32 cnt (load32 (aheap S) cnt + 1) (aheap S)) S else S))"

definition Cyc_Core_drop_refptr :: "ptr \<Rightarrow> astate \<Rightarrow> astate" where
  "Cyc_Core_drop_refptr p S =
     (let cnt = get_refcnt p
      in if cnt \<noteq> NULL
         then let c = load32 (aheap S) cnt - 1; h = store32 cnt c (aheap S)
              in set_heap (if c = 0 then GC_free (p - 4) h else h) S
         else S)"

subsection \<open>Dynamic regions\<close>

definition sizeof_DynamicRegion :: u32 where
  "sizeof_DynamicRegion = 40"

definition Cyc_Core_new_ukey :: "libc \<Rightarrow> astate \<Rightarrow> ptr res \<times> astate" where
  "Cyc_Core_new_ukey alloc S =
     (case bounded_GC_malloc alloc sizeof_DynamicRegion (aheap S) of
        Inl f \<Rightarrow> (Inl f, S)
      | Inr (key, h) \<Rightarrow> (Inr key, set_lex key new_region (set_heap h S)))"

definition Cyc_Core_new_rckey :: "libc \<Rightarrow> astate \<Rightarrow> ptr res \<times> astate" where
  "Cyc_Core_new_rckey alloc S =
     (case bounded_GC_malloc alloc (4 + sizeof_DynamicRegion) (aheap S) of
        Inl f \<Rightarrow> (Inl f, S)
      | Inr (krc, h) \<Rightarrow> (Inr (krc + 4), set_lex (krc + 4) new_region (set_heap (store32 krc 1 h) S)))"

text \<open>Releases the pages of the region of a key, then the block \<open>p\<close>.\<close>

definition free_key :: "ptr \<Rightarrow> ptr \<Rightarrow> astate \<Rightarrow> astate ores" where
  "free_key k p S =
     bind_ores (free_region (lexr S k) (aheap S)) (\<lambda>(v, h). Some (Inr (set_lex k v (set_heap (GC_free p h) S))))"

definition Cyc_Core_free_ukey :: "ptr \<Rightarrow> astate \<Rightarrow> astate ores" where
  "Cyc_Core_free_ukey k S = free_key k k S"

definition Cyc_Core_free_rckey :: "ptr \<Rightarrow> astate \<Rightarrow> astate ores" where
  "Cyc_Core_free_rckey k S =
     (let p = k - 4; c = load32 (aheap S) p - 1
      in if load32 (aheap S) p \<le> c then Some (Inl (Errquit ''internal error: free rckey bad count''))
         else let S = set_heap (store32 p c (aheap S)) S
              in if c = 0 then free_key k p S else Some (Inr S))"

definition Cyc_Core_open_region :: "ptr \<Rightarrow> 'e \<Rightarrow> (ptr \<Rightarrow> 'e \<Rightarrow> astate \<Rightarrow> 'a res \<times> astate) \<Rightarrow> astate \<Rightarrow> 'a res \<times> astate" where
  "Cyc_Core_open_region k env body S = body k env S"

subsection \<open>Reference counts\<close>

lemma aheap_sel [simp]: "aheap (set_heap h S) = h" "aheap (set_lex r v S) = aheap S" "lexr (set_heap h S) = lexr S"
  by (simp_all add: aheap_def set_heap_def set_lex_def)

lemma set_heap_twice [simp]: "set_heap h (set_heap h' S) = set_heap h S"
  by (simp add: set_heap_def)

abbreviation alias_at :: "fat_ptr \<Rightarrow> astate \<Rightarrow> astate" where
  "alias_at p S \<equiv> snd (Cyc_Core_alias_refptr p S)"

lemma alias_count:
  assumes "get_refcnt (fat_base p) \<noteq> NULL"
  shows "load32 (aheap ((alias_at p ^^ n) S)) (get_refcnt (fat_base p)) = load32 (aheap S) (get_refcnt (fat_base p)) + of_nat n
     \<and> live (aheap ((alias_at p ^^ n) S)) = live (aheap S)"
  using assms by (induction n) (simp_all add: Cyc_Core_alias_refptr_def Let_def)

lemma drop_once:
  assumes "get_refcnt q \<noteq> NULL" and "load32 (aheap T) (get_refcnt q) - 1 = c"
  shows "aheap (Cyc_Core_drop_refptr q T) =
     (if c = 0 then GC_free (q - 4) (store32 (get_refcnt q) c (aheap T)) else store32 (get_refcnt q) c (aheap T))"
  unfolding Cyc_Core_drop_refptr_def Let_def assms(2) using assms(1) by (simp only: aheap_sel if_True not_False_eq_True)

lemma drop_count:
  assumes "get_refcnt q \<noteq> NULL" and "load32 (aheap S) (get_refcnt q) = of_nat c" and "k < c" and "c < 4294967296"
  shows "load32 (aheap ((Cyc_Core_drop_refptr q ^^ k) S)) (get_refcnt q) = of_nat (c - k)
     \<and> live (aheap ((Cyc_Core_drop_refptr q ^^ k) S)) = live (aheap S)"
  using assms(3)
proof (induction k)
  case 0
  then show ?case using assms(2) by simp
next
  case (Suc k)
  then have IH: "load32 (aheap ((Cyc_Core_drop_refptr q ^^ k) S)) (get_refcnt q) = of_nat (c - k)"
    "live (aheap ((Cyc_Core_drop_refptr q ^^ k) S)) = live (aheap S)" by auto
  have "c - k = Suc (c - Suc k)" using Suc.prems by simp
  then have d: "(of_nat (c - k) :: u32) - 1 = of_nat (c - Suc k)" by (simp del: of_nat_diff)
  have "(of_nat (c - Suc k) :: u32) \<noteq> 0" 
    using of_nat_eq_0_iff_u32 [of "c - Suc k"] Suc.prems assms(4) by (simp del: of_nat_diff)
  then show ?case
    using drop_once [OF assms(1), of "(Cyc_Core_drop_refptr q ^^ k) S" "of_nat (c - Suc k)"] IH d by (simp del: of_nat_diff)
qed

lemma refcnt_block:
  assumes "libc_ok alloc" "heap_wf (aheap S)" "s < MAX_ALLOC_SIZE"
    and "region_malloc alloc dps dxps CYC_CORE_REFCNT_REGION s S = (Inr q, S1)"
  shows "get_refcnt q = q - 4" "q - 4 \<noteq> NULL" "load32 (aheap S1) (q - 4) = 1"
    "live (aheap S1) = (q - 4, s + 4) # live (aheap S)" "q - 4 \<notin> fst ` set (live (aheap S))"
proof -
  from assms(4) obtain p h where B: "bounded_GC_malloc alloc (s + 4) (aheap S) = Inr (p, h)" "q = p + 4" "S1 = set_heap (store32 p 1 h) S"
    by (auto simp: region_malloc_def with_refcnt_def CYC_CORE_REFCNT_REGION_def CYC_MAX_REGION_CONST_def split: sum.splits)
  note I = bounded_GC_malloc_Inr [OF B(1)]
  have nn: "alloc (aheap S) (s + 4) \<noteq> NULL" using I by simp
  have ok: "no_wrap p (s + 4)" "p \<notin> fst ` set (live (aheap S))"
    unfolding I(2) using libc_okD(1,3) [OF assms(1) nn] by blast+
  have "unat (s + 4) = unat s + 4" using assms(3) by (simp add: MAX_ALLOC_SIZE_unat unat_add_u32)
  then have "unat (p + 4) = unat p + 4" using ok(1) by (simp add: no_wrap_def unat_add_u32)
  then have "q \<noteq> NULL" using B(2) by (metis add_is_0 unat_0 zero_neq_numeral)
  then show "get_refcnt q = q - 4" by (simp add: get_refcnt_def)
  show "q - 4 \<noteq> NULL" "load32 (aheap S1) (q - 4) = 1" "live (aheap S1) = (q - 4, s + 4) # live (aheap S)"
    using B(2,3) I(3,4) by simp_all
  show "q - 4 \<notin> fst ` set (live (aheap S))" using B(2) ok(2) by (simp only: add_diff_cancel_right' not_False_eq_True)
qed

text \<open>C15: A block of the reference-counted region starts with one reference; \<open>n\<close> aliases and \<open>k \<le> n\<close> drops
  leave \<open>n + 1 - k\<close> references and the block in place, and the drop number \<open>n + 1\<close> releases exactly that
  block.\<close>

theorem refptr_lifetime:
  assumes "libc_ok alloc" "heap_wf (aheap S)" "s < MAX_ALLOC_SIZE" "n < 2147483647" "k \<le> n"
    and "region_malloc alloc dps dxps CYC_CORE_REFCNT_REGION s S = (Inr q, S1)" and "fat_base p = q"
  shows "let Sn = ((\<lambda>T. snd (Cyc_Core_alias_refptr p T)) ^^ n) S1; Sk = (Cyc_Core_drop_refptr q ^^ k) Sn
         in Cyc_Core_refptr_count q S1 = 1 \<and> Cyc_Core_refptr_count q Sk = int (n + 1 - k) \<and>
            live (aheap Sk) = (q - 4, s + 4) # live (aheap S) \<and>
            live (aheap ((Cyc_Core_drop_refptr q ^^ Suc n) Sn)) = live (aheap S)"
proof -
  note B = refcnt_block [OF assms(1-3,6)]
  let ?Sn = "(alias_at p ^^ n) S1"
  have nn: "get_refcnt (fat_base p) \<noteq> NULL" "get_refcnt q \<noteq> NULL" using B assms(7) by simp_all
  have a: "load32 (aheap ?Sn) (get_refcnt q) = of_nat (n + 1)" "live (aheap ?Sn) = live (aheap S1)"
    using alias_count [OF nn(1), of n S1] B(1,3) assms(7) by simp_all
  have d: "load32 (aheap ((Cyc_Core_drop_refptr q ^^ j) ?Sn)) (get_refcnt q) = of_nat (n + 1 - j)"
    "live (aheap ((Cyc_Core_drop_refptr q ^^ j) ?Sn)) = live (aheap S1)" if "j \<le> n" for j
    using drop_count [OF nn(2) a(1), of j] a(2) that assms(4) by simp_all
  have "live (aheap ((Cyc_Core_drop_refptr q ^^ Suc n) ?Sn)) = filter (\<lambda>(a, b). a \<noteq> q - 4) (live (aheap S1))"
    using d [of n] drop_once [OF nn(2), of "(Cyc_Core_drop_refptr q ^^ n) ?Sn" 0] B(2)
    by (simp add: GC_free_def libc_free_def case_prod_beta')
  moreover have "filter (\<lambda>(a, b). a \<noteq> q - 4) (live (aheap S)) = live (aheap S)"
    using B(5) by (intro filter_True) force
  moreover have "sint (of_nat (n + 1 - k) :: u32) = int (n + 1 - k)"
    using assms(4) by (intro sint_of_nat_u32) simp
  ultimately show ?thesis
    using d [OF assms(5)] B nn(2) by (simp add: Let_def Cyc_Core_refptr_count_def del: funpow.simps of_nat_diff)
qed

definition one_lexical :: astate where
  "one_lexical = \<lparr>aw = (one_region undefined undefined)\<lparr>hp := empty_heap\<rparr>, lexr = (\<lambda>_. new_region)\<rparr>"

theorem refptr_lifetime_witness:
  "\<exists>S1. region_malloc single_block_libc 1024 512 CYC_CORE_REFCNT_REGION 12 one_lexical = (Inr 4100, S1) \<and>
     Cyc_Core_refptr_count 4100 (Cyc_Core_drop_refptr 4100 (alias_at \<lparr>fat_curr = 4100, fat_base = 4100, fat_last_plus_one = 4112\<rparr> (alias_at \<lparr>fat_curr = 4100, fat_base = 4100, fat_last_plus_one = 4112\<rparr> S1))) = 2 \<and>
     live (aheap ((Cyc_Core_drop_refptr 4100 ^^ 3) (alias_at \<lparr>fat_curr = 4100, fat_base = 4100, fat_last_plus_one = 4112\<rparr> (alias_at \<lparr>fat_curr = 4100, fat_base = 4100, fat_last_plus_one = 4112\<rparr> S1)))) = []"
proof -
  have "\<exists>S1. region_malloc single_block_libc 1024 512 CYC_CORE_REFCNT_REGION 12 one_lexical = (Inr 4100, S1)"
    by (simp add: region_malloc_def with_refcnt_def CYC_CORE_REFCNT_REGION_def CYC_MAX_REGION_CONST_def one_lexical_def
        aheap_def bounded_GC_malloc_def MAX_ALLOC_SIZE_def GC_malloc_def libc_calloc_def libc_malloc_def
        single_block_libc_def empty_heap_def Let_def)
  then obtain S1 where r: "region_malloc single_block_libc 1024 512 CYC_CORE_REFCNT_REGION 12 one_lexical = (Inr 4100, S1)"
    by blast
  have sz: "(12 :: u32) < MAX_ALLOC_SIZE" by (simp add: MAX_ALLOC_SIZE_def)
  have "heap_wf (aheap one_lexical)" "live (aheap one_lexical) = []"
    by (simp_all add: one_lexical_def aheap_def heap_wf_empty) (simp add: empty_heap_def)
  then show ?thesis
    using refptr_lifetime [OF libc_ok_single_block _ sz _ _ r, of 2 1 "\<lparr>fat_curr = 4100, fat_base = 4100, fat_last_plus_one = 4112\<rparr>"] r
    by (simp add: Let_def numeral_2_eq_2 numeral_3_eq_3)
qed

subsection \<open>The inline allocation\<close>

lemma set_heap_same [simp]: "set_heap (aheap S) S = S"
  by (simp add: set_heap_def aheap_def)

text \<open>On every region that is not a shared one, the inline allocation gives the same address, state
  and exceptions as the function it stands for.\<close>

theorem fast_region_malloc_equiv:
  assumes "is_xrgn (lexr S r) = 0"
  shows "fast_region_malloc alloc dps dxps r s S = region_malloc alloc dps dxps r s S"
proof (cases "CYC_MAX_REGION_CONST < r \<and> curr (lexr S r) \<noteq> NULL \<and> round_up s \<le> last_plus_one (lexr S r) - offset (lexr S r)")
  case True
  then have "region_bump alloc dps (lexr S r) s (aheap S) =
      Inr (offset (lexr S r), (lexr S r)\<lparr>offset := offset (lexr S r) + round_up s\<rparr>, aheap S)"
    by (simp add: region_bump_def Let_def leD)
  then show ?thesis
    using True assms
    by (simp add: fast_region_malloc_def fast_view_def fast_set_offset_def region_malloc_def lex_malloc_def)
next
  case False
  then show ?thesis using assms by (simp only: fast_region_malloc_def fast_view_def simp_thms if_False Let_def prod.case)
qed

theorem fast_region_malloc_equiv_witness:
  "fast_region_malloc single_block_libc 1024 512 8192 20 one_lexical = region_malloc single_block_libc 1024 512 8192 20 one_lexical"
  using fast_region_malloc_equiv [of one_lexical 8192] by (simp add: one_lexical_def new_region_def)

text \<open>The creator of a region gives the write lock back and takes it again, then a second thread asks for it.\<close>

lemmas lockop_defs = lockop_pass_def lockop_dequeue_def lockop_write_def lockop_read_def lockop_wake_def
  writer_ok_def local_add_def fresh_caps_def Let_def

lemma lockop_release: "lockop_pass 1 (- 1) 0 False False (fresh_caps 1) 1 0 = Inr p \<Longrightarrow> pr_caps p = fresh_caps 0"
  by (simp add: lockop_defs) (erule subst, simp)

lemma lockop_again:
  "lockop_pass 1 1 0 False False (fresh_caps 0) 0 0 = Inr p \<Longrightarrow> pr_caps p = (fresh_caps 1)\<lparr>reader_cv := 1\<rparr>"
  by (simp add: lockop_defs) (erule subst, simp)

lemma lockop_queued:
  "lockop_pass 2 1 0 False False ((fresh_caps 1)\<lparr>reader_cv := 1\<rparr>) 0 0 = Inr p
     \<Longrightarrow> pr_caps p = (fresh_caps 1)\<lparr>reader_cv := 1, writer_q := 1\<rparr>"
  by (simp add: lockop_defs) (erule subst, simp)

lemma fast_region_malloc_overlay:
  assumes "CYC_MAX_REGION_CONST < r" "is_xrgn (lexr S r) \<noteq> 0" "xr_caps (regions (aw S) r) = c"
    and "reader_cv c \<noteq> 0" "writer_q c = 1" "reader_q c = 0"
  shows "fast_region_malloc alloc dps dxps r s S = (Inr 1, S\<lparr>aw := upd_caps r (\<lambda>c. c\<lparr>writer_q := 1 + round_up s\<rparr>) (aw S)\<rparr>)"
proof -
  have "round_up s \<le> reader_q c - writer_q c" unfolding assms(5,6) by simp
  then show ?thesis
    using assms unfolding fast_region_malloc_def fast_view_def fast_set_offset_def
    by (simp only: Let_def prod.case if_True simp_thms assms)
qed


definition queued_shared :: astate where
  "queued_shared =
     one_lexical\<lparr>aw := upd_caps 8192 (\<lambda>_. (fresh_caps 1)\<lparr>reader_cv := 1, writer_q := 1\<rparr>) (aw one_lexical),
       lexr := (\<lambda>_. new_region)(8192 := new_region\<lparr>is_xrgn := 1\<rparr>)\<rparr>"


subsection \<open>Boundary cases and keys\<close>

text \<open>
  The size of a counted block is computed in 32 bits: for the largest sizes the block is empty and the
  count is written in front of nothing.
\<close>

lemma refcnt_size_wraps:
  assumes "alloc (aheap S) 0 \<noteq> NULL"
  shows "\<exists>S1. region_malloc alloc dps dxps CYC_CORE_REFCNT_REGION (- 4) S = (Inr (alloc (aheap S) 0 + 4), S1)
     \<and> live (aheap S1) = (alloc (aheap S) 0, 0) # live (aheap S)"
  using assms
  by (simp add: region_malloc_def with_refcnt_def CYC_CORE_REFCNT_REGION_def CYC_MAX_REGION_CONST_def
      bounded_GC_malloc_def MAX_ALLOC_SIZE_def GC_malloc_def libc_calloc_def libc_malloc_def Let_def)

lemma load32_GC_free [simp]: "load32 (GC_free p h) a = load32 h a"
  by (simp add: load32_def GC_free_def libc_free_def)

text \<open>A counted key that is freed at once gives back its block; freeing it again ends the process.\<close>

lemma rckey_new_free:
  assumes "libc_ok alloc" "Cyc_Core_new_rckey alloc S = (Inr k, S1)"
  shows "\<exists>S2. Cyc_Core_free_rckey k S1 = Some (Inr S2) \<and> live (aheap S2) = live (aheap S) \<and>
     Cyc_Core_free_rckey k S2 = Some (Inl (Errquit ''internal error: free rckey bad count''))"
proof -
  from assms(2) obtain p h where B: "bounded_GC_malloc alloc 44 (aheap S) = Inr (p, h)" "k = p + 4"
      "S1 = set_lex k new_region (set_heap (store32 p 1 h) S)"
    by (auto simp: Cyc_Core_new_rckey_def sizeof_DynamicRegion_def split: sum.splits)
  note I = bounded_GC_malloc_Inr [OF B(1)]
  have nn: "alloc (aheap S) 44 \<noteq> NULL" using I by simp
  have "p \<notin> fst ` set (live (aheap S))" unfolding I(2) using libc_okD(3) [OF assms(1) nn] by blast
  then have f: "filter (\<lambda>b. fst b \<noteq> p) (live (aheap S)) = live (aheap S)" by (intro filter_True) force
  have r: "free_region new_region g = Some (Inr (new_region, g))" for g
    by (simp add: free_region_def new_region_def free_pages.simps)
  let ?h = "store32 p 0 (store32 p 1 h)"
  let ?S2 = "set_lex k new_region (set_heap (GC_free p ?h) S1)"
  have l: "lexr S1 k = new_region" "aheap S1 = store32 p 1 h" "k - 4 = p"
    unfolding B(3) aheap_sel using B(2) by (simp_all add: set_lex_def)
  have "Cyc_Core_free_rckey k S1 = Some (Inr ?S2)"
    using r by (simp add: Cyc_Core_free_rckey_def free_key_def l)
  moreover have "live (aheap ?S2) = live (aheap S)" using I f by (simp add: GC_free_def libc_free_def)
  moreover have "load32 (aheap ?S2) p = 0" by simp
  ultimately show ?thesis by (intro exI [of _ ?S2]) (simp add: Cyc_Core_free_rckey_def l)
qed

end
