(* ===== verification/Spawn.thy ===== *)
theory Spawn
  imports Xregion "HOL-Library.Multiset"
begin

section \<open>Starting a thread\<close>

text \<open>
  The part of lib/runtime_stack.c that starts a thread: \<open>merge_caps\<close> adds up the capabilities a
  spawn passes to the new thread, \<open>__get_stack_size\<close> computes the size of its descriptor,
  \<open>__treecopy\<close> builds the key tree and the key table of the new thread and takes the capabilities from the
  parent, \<open>__init_new_thread_stack\<close> and \<open>_xspawn\<close> put these together, and
  \<open>_thread_internal2\<close> is what the new thread runs.

  \<open>qsort\<close> of the C library is the argument \<open>qs\<close>.  The results of the \<open>pthread\<close> calls are the record
  \<open>pthread_env\<close>.  The fields \<open>tid\<close> and \<open>tbl\<close> of a world are those of the thread that runs; the other
  fields are shared.
\<close>

subsection \<open>Capabilities\<close>

record cap =
  cp_h :: ptr
  cp_rc :: u32
  cp_wc :: u32
  cp_lc :: u32

text \<open>
  \<open>(int) -(c1->h - c2->h)\<close>, a difference of pointers to struct \<open>_XRegionHandle\<close>; it is undefined,
  \<open>None\<close>, when the distance is not a multiple of the size of that struct.
\<close>

definition caps_cmp :: "cap \<Rightarrow> cap \<Rightarrow> int option" where
  "caps_cmp c1 c2 =
     (let d = sint (cp_h c1 - cp_h c2); w = uint sizeof_XRegionHandle
      in if w dvd d then Some (- (d div w)) else None)"

fun find_keys :: "cap list \<Rightarrow> world \<Rightarrow> (cap list \<times> world) ores" where
  "find_keys [] W = Some (Inr ([], W))"
| "find_keys (c # cs) W =
     bind_ores (get_tkey (cp_h c) W) (\<lambda>(k, W).
     bind_ores (find_keys cs W) (\<lambda>(cs, W). Some (Inr (c\<lparr>cp_h := k\<rparr> # cs, W))))"

definition add_cap :: "cap \<Rightarrow> cap \<Rightarrow> cap" where
  "add_cap a b = a\<lparr>cp_rc := cp_rc a + cp_rc b, cp_wc := cp_wc a + cp_wc b, cp_lc := cp_lc a + cp_lc b\<rparr>"

text \<open>The loop over the sorted array; \<open>it\<close> and \<open>next\<close> are indices into the same array.\<close>

function merge_loop :: "nat \<Rightarrow> nat \<Rightarrow> nat \<Rightarrow> nat \<Rightarrow> cap list \<Rightarrow> nat \<times> cap list" where
  "merge_loop i it next n c =
     (if i < length c
      then if cp_h (c ! it) = cp_h (c ! i) then merge_loop (Suc i) it next n (c[it := add_cap (c ! it) (c ! i)])
           else merge_loop (Suc i) i (Suc next) (Suc n) (c[next := c ! it])
      else (n, c[next := c ! it]))"
  by pat_completeness auto
termination by (relation "measure (\<lambda>(i, _, _, _, c). length c - i)") auto

declare merge_loop.simps [simp del]

definition merge_caps :: "(cap list \<Rightarrow> cap list) \<Rightarrow> cap list \<Rightarrow> world \<Rightarrow> (nat \<times> cap list \<times> world) ores" where
  "merge_caps qs c W =
     (if length c = 0 then Some (Inr (0, c, W))
      else bind_ores (find_keys c W) (\<lambda>(c, W).
           let (n, c) = merge_loop 1 0 0 1 (qs c) in Some (Inr (n, c, W))))"

subsection \<open>The descriptor of a thread\<close>

record ssinfo =
  real_size :: u32
  begin_offset :: u32
  end_offset :: u32

record thread_stack =
  ts_thread :: ptr
  ts_tid :: u32
  ts_h :: "hashtable option"
  ts_info :: ssinfo

definition sizeof_ThreadStack :: u32 where
  "sizeof_ThreadStack = 24"

definition sizeof_XTreeHandle :: u32 where
  "sizeof_XTreeHandle = 28"

definition ALIGN_SZ :: "u32 \<Rightarrow> u32" where
  "ALIGN_SZ x = (x AND NOT 7) + 8"

text \<open>The function also estimates the size of a stack from \<open>desired_stack_size\<close> and drops the estimate.\<close>

definition get_stack_size :: "u32 \<Rightarrow> u32 \<Rightarrow> u32 \<Rightarrow> ssinfo" where
  "get_stack_size caps_len arg_len desired_stack_size =
     (let default_allocation = ALIGN_SZ (sizeof_ThreadStack + arg_len + sizeof_XTreeHandle * caps_len + 16)
      in \<lparr>real_size = default_allocation, begin_offset = default_allocation, end_offset = default_allocation\<rparr>)"

subsection \<open>Copying the key tree\<close>

definition key_at :: "ptr \<Rightarrow> nat \<Rightarrow> ptr" where
  "key_at n i = n + sizeof_XTreeHandle * of_nat i"

definition zero_key :: xtree_handle where
  "zero_key = \<lparr>xt_h = NULL, xt_next = NULL, parent_key = NULL, sub_keys = NULL, next_key = NULL,
     lc_rcnt = 0, lc_wr_cnt = 0, lc_rd_cnt = 0\<rparr>"

primrec zero_keys :: "ptr \<Rightarrow> nat \<Rightarrow> world \<Rightarrow> world" where
  "zero_keys n 0 W = W"
| "zero_keys n (Suc i) W = upd_key (key_at n i) (\<lambda>_. zero_key) (zero_keys n i W)"

text \<open>\<open>for (idx = 0; idx < len && th(o,idx) != parent; idx++);\<close>\<close>

fun find_parent :: "cap list \<Rightarrow> ptr \<Rightarrow> nat \<Rightarrow> nat" where
  "find_parent [] parent idx = idx"
| "find_parent (c # cs) parent idx = (if cp_h c \<noteq> parent then find_parent cs parent (Suc idx) else idx)"

text \<open>The global counters of the region of the key.\<close>

definition transfer_region :: "u32 \<Rightarrow> cap \<Rightarrow> ptr \<Rightarrow> world \<Rightarrow> world ores" where
  "transfer_region t c z W =
     (let W = upd_caps z (\<lambda>k. k\<lparr>g_rcnt := g_rcnt k + 1\<rparr>) W;
          W = upd_region z (\<lambda>r. r\<lparr>single_thread_key := NULL\<rparr>) W
      in bind_ores
           (if cp_wc c \<noteq> 0
            then if tid W = writer_cv (xr_caps (regions W z)) then Some (Inr (upd_caps z (\<lambda>k. k\<lparr>writer_cv := t\<rparr>) W))
                 else Some (Inl (Errquit ''_treecopy: writer_cv''))
            else Some (Inr W))
           (\<lambda>W. Some (Inr (if cp_lc c \<noteq> 0 then upd_caps z (\<lambda>k. k\<lparr>g_rd_cnt := g_rd_cnt k + 1\<rparr>) W else W))))"

definition link_copy :: "cap list \<Rightarrow> ptr \<Rightarrow> nat \<Rightarrow> ptr \<Rightarrow> world \<Rightarrow> world" where
  "link_copy os n i parent W =
     (let idx = (if parent \<noteq> NULL then find_parent os parent 0 else length os)
      in if idx < length os
         then let W = upd_key (key_at n i) (\<lambda>k. k\<lparr>parent_key := key_at n idx\<rparr>) W;
                  W = upd_key (key_at n i) (\<lambda>k. k\<lparr>next_key := sub_keys (keys W (key_at n idx))\<rparr>) W
              in upd_key (key_at n idx) (\<lambda>k. k\<lparr>sub_keys := key_at n i\<rparr>) W
         else upd_key (key_at n i) (\<lambda>k. k\<lparr>parent_key := NULL\<rparr>) W)"

definition copy_key :: "bool \<Rightarrow> u32 \<Rightarrow> cap list \<Rightarrow> ptr \<Rightarrow> nat \<Rightarrow> cap \<Rightarrow> hashtable \<Rightarrow> world \<Rightarrow> (hashtable \<times> world) ores" where
  "copy_key mem t os n i c h W =
     (let k = cp_h c; z = xt_h (keys W k);
          W = upd_key (key_at n i)
                (\<lambda>e. e\<lparr>lc_rcnt := ucast (cp_rc c), lc_wr_cnt := ucast (cp_wc c), lc_rd_cnt := ucast (cp_lc c), xt_h := z\<rparr>) W
      in case hashtable_insert mem h (key_at n i) (keys W) of
           None \<Rightarrow> None
         | Some (_, h, st) \<Rightarrow>
             bind_ores (transfer_region t c z (W\<lparr>keys := st\<rparr>)) (\<lambda>W.
               Some (Inr (h, link_copy os n i (parent_key (keys W k)) W))))"

fun copy_keys :: "bool \<Rightarrow> u32 \<Rightarrow> cap list \<Rightarrow> ptr \<Rightarrow> nat \<Rightarrow> cap list \<Rightarrow> hashtable \<Rightarrow> world \<Rightarrow> (hashtable \<times> world) ores" where
  "copy_keys mem t os n i [] h W = Some (Inr (h, W))"
| "copy_keys mem t os n i (c # cs) h W =
     bind_ores (copy_key mem t os n i c h W) (\<lambda>(h, W). copy_keys mem t os n (Suc i) cs h W)"

text \<open>The second loop, from the last entry to the first.\<close>

fun release_caps :: "(world \<Rightarrow> world) \<Rightarrow> bool \<Rightarrow> cap list \<Rightarrow> world \<Rightarrow> world ores" where
  "release_caps env mem [] W = Some (Inr W)"
| "release_caps env mem (c # cs) W =
     bind_ores (release_caps env mem cs W) (\<lambda>W.
       xregion_cap_th env mem (- sint (cp_rc c)) (- sint (cp_wc c)) (- sint (cp_lc c)) (cp_h c) W)"

definition treecopy :: "(world \<Rightarrow> world) \<Rightarrow> bool \<Rightarrow> cap list \<Rightarrow> ptr \<Rightarrow> u32 \<Rightarrow> hashtable \<Rightarrow> world \<Rightarrow> (hashtable \<times> world) ores" where
  "treecopy env mem os n t h W =
     bind_ores (copy_keys mem t os n 0 os h (zero_keys n (length os) W)) (\<lambda>(h, W).
     bind_ores (release_caps env mem os W) (\<lambda>W. Some (Inr (h, W))))"

subsection \<open>The new thread\<close>

record spawn_state =
  sw :: world
  next_id :: u32
  started :: u32
  stacks :: "ptr \<Rightarrow> thread_stack"

definition copy_bytes :: "ptr \<Rightarrow> ptr \<Rightarrow> u32 \<Rightarrow> heap \<Rightarrow> heap" where
  "copy_bytes dst src n h = h\<lparr>bytes := (\<lambda>a. if in_range dst n a then bytes h (src + (a - dst)) else bytes h a)\<rparr>"

text \<open>
  \<open>__init_new_thread_stack\<close>.  The result of \<open>GC_malloc\<close> is not tested: the first store through a null
  pointer is a segmentation fault, for which \<open>_exn_segv_handler\<close> ends the process, and so is the first
  insertion into a table that could not be created.
\<close>

abbreviation segfault :: "'a ores" where
  "segfault \<equiv> Some (Inl (Errquit ''Caught segfault but its not stack overflow!''))"

definition init_new_thread_stack ::
    "libc \<Rightarrow> (cap list \<Rightarrow> cap list) \<Rightarrow> (world \<Rightarrow> world) \<Rightarrow> bool \<Rightarrow> u32 \<Rightarrow> cap list \<Rightarrow> ptr \<Rightarrow> ptr \<Rightarrow> u32 \<Rightarrow>
     spawn_state \<Rightarrow> (ptr \<times> spawn_state) ores" where
  "init_new_thread_stack alloc qs env mem stack_space c f targ arg_len S =
     bind_ores (merge_caps qs c (sw S)) (\<lambda>(len, c, W).
       let ss = get_stack_size (of_nat len) arg_len stack_space;
           (i, h) = GC_malloc alloc (real_size ss) (hp W)
       in if i = NULL then segfault
          else let (t, nt) = next_tid (next_id S);
                   tb = create_hashtable mem 25;
                   W = W\<lparr>hp := copy_bytes (i + sizeof_ThreadStack) targ arg_len h\<rparr>;
                   r = i + sizeof_ThreadStack + arg_len;
                   d = (\<lambda>tb. \<lparr>ts_thread = f, ts_tid = t, ts_h = tb, ts_info = ss\<rparr>)
               in case tb of
                    None \<Rightarrow>
                      if len = 0 then Some (Inr (i, S\<lparr>sw := W, next_id := nt, stacks := (stacks S)(i := d None)\<rparr>))
                      else segfault
                  | Some tb \<Rightarrow>
                      bind_ores (treecopy env mem (take len c) r t tb W) (\<lambda>(tb, W).
                        Some (Inr (i, S\<lparr>sw := W, next_id := nt, stacks := (stacks S)(i := d (Some tb))\<rparr>))))"

record pthread_env =
  pt_attr_init :: u32
  pt_attr_setdetachstate :: u32
  pt_attr_setstacksize :: u32
  pt_create :: u32
  pt_attr_destroy :: u32

definition pthread_check :: "u32 \<Rightarrow> unit ores" where
  "pthread_check s = (if s \<noteq> 0 then Some (Inl (Errquit ''internal error: _xspawn aborting'')) else Some (Inr ()))"

definition xspawn ::
    "libc \<Rightarrow> (cap list \<Rightarrow> cap list) \<Rightarrow> (world \<Rightarrow> world) \<Rightarrow> bool \<Rightarrow> pthread_env \<Rightarrow> u32 \<Rightarrow> cap list \<Rightarrow> ptr \<Rightarrow> ptr \<Rightarrow> u32 \<Rightarrow>
     spawn_state \<Rightarrow> (ptr \<times> spawn_state) ores" where
  "xspawn alloc qs env mem pt stack_space cs thread arg arg_len S =
     bind_ores (pthread_check (pt_attr_init pt)) (\<lambda>_.
     bind_ores (pthread_check (pt_attr_setdetachstate pt)) (\<lambda>_.
     bind_ores (init_new_thread_stack alloc qs env mem stack_space cs thread arg arg_len S) (\<lambda>(si, S).
     let S = S\<lparr>started := started S + 1\<rparr>
     in bind_ores (if 0 < stack_space then pthread_check (pt_attr_setstacksize pt) else Some (Inr ())) (\<lambda>_.
        bind_ores (pthread_check (pt_create pt)) (\<lambda>_.
        bind_ores (pthread_check (pt_attr_destroy pt)) (\<lambda>_. Some (Inr (si, S))))))))"

text \<open>
  \<open>_init_thread_context\<close> fills the thread-local record; the table is null, \<open>None\<close>, when it could not be
  created.
\<close>

definition init_thread_context :: "bool \<Rightarrow> u32 \<Rightarrow> hashtable option \<Rightarrow> world \<Rightarrow> hashtable option \<times> world" where
  "init_thread_context mem ident h W =
     (let h = (case h of None \<Rightarrow> create_hashtable mem 25 | Some tb \<Rightarrow> Some tb); W = W\<lparr>tid := ident\<rparr>
      in (h, case h of None \<Rightarrow> W | Some tb \<Rightarrow> W\<lparr>tbl := tb\<rparr>))"

text \<open>
  \<open>_thread_internal2\<close>.  \<open>run f a h W\<close> is the world after the function \<open>f\<close> of the program has run on the
  argument block at \<open>a\<close>; an exception it does not catch ends in the handler of the thread and has
  the same effect.  The first component tells that the main thread is woken.
\<close>

definition thread_internal2 ::
    "(ptr \<Rightarrow> ptr \<Rightarrow> hashtable option \<Rightarrow> world \<Rightarrow> world) \<Rightarrow> bool \<Rightarrow> ptr \<Rightarrow> spawn_state \<Rightarrow> (bool \<times> spawn_state) res" where
  "thread_internal2 run mem i S =
     (if i = NULL then Inl (Errquit ''_thread_internal2: null arg'')
      else let d = stacks S i;
               (h, W) = init_thread_context mem (ts_tid d) (ts_h d) (sw S);
               W = run (ts_thread d) (i + sizeof_ThreadStack) h W
           in Inr (started S = 1, S\<lparr>sw := W\<lparr>hp := GC_free i (hp W)\<rparr>, started := started S - 1\<rparr>))"

subsection \<open>Merging\<close>

text \<open>The reference: neighbours with the same key become one entry.\<close>

fun group_caps :: "cap list \<Rightarrow> cap list" where
  "group_caps (c # d # cs) = (if cp_h c = cp_h d then group_caps (add_cap c d # cs) else c # group_caps (d # cs))"
| "group_caps cs = cs"

definition cap_total :: "(cap \<Rightarrow> u32) \<Rightarrow> ptr \<Rightarrow> cap list \<Rightarrow> u32" where
  "cap_total f k cs = sum_list (map f (filter (\<lambda>c. cp_h c = k) cs))"

lemma merge_loop_groups:
  assumes "next \<le> it" "it < i" "i \<le> length c"
  shows "\<exists>c'. merge_loop i it next (Suc next) c = (next + length (group_caps (c ! it # drop i c)), c') \<and>
     take (next + length (group_caps (c ! it # drop i c))) c' = take next c @ group_caps (c ! it # drop i c)"
  using assms
proof (induction "length c - i" arbitrary: i it "next" c)
  case 0
  then have i: "i = length c" by simp
  then have "take (Suc next) (c[next := c ! it]) = take next c @ [c ! it]"
    using 0 by (subst take_Suc_conv_app_nth) simp_all
  then show ?case using i by (subst merge_loop.simps) simp
next
  case (Suc m)
  then have lt: "i < length c" by simp
  have d: "drop i c = c ! i # drop (Suc i) c" using lt by (simp add: Cons_nth_drop_Suc)
  show ?case
  proof (cases "cp_h (c ! it) = cp_h (c ! i)")
    case True
    let ?c = "c[it := add_cap (c ! it) (c ! i)]"
    have "merge_loop i it next (Suc next) c = merge_loop (Suc i) it next (Suc next) ?c"
      using lt True by (subst merge_loop.simps) simp
    moreover have "m = length ?c - Suc i" "next \<le> it" "it < Suc i" "Suc i \<le> length ?c" using Suc.hyps(2) Suc.prems lt by simp_all
    note IH = Suc.hyps(1) [OF this]
    moreover have "?c ! it = add_cap (c ! it) (c ! i)" "drop (Suc i) ?c = drop (Suc i) c" "take next ?c = take next c"
      using Suc.prems by simp_all
    moreover have "group_caps (c ! it # drop i c) = group_caps (add_cap (c ! it) (c ! i) # drop (Suc i) c)"
      using True by (simp add: d)
    ultimately show ?thesis by (simp only:)
  next
    case False
    let ?c = "c[next := c ! it]"
    have "merge_loop i it next (Suc next) c = merge_loop (Suc i) i (Suc next) (Suc (Suc next)) ?c"
      using lt False by (subst merge_loop.simps) simp
    moreover have "take (Suc next) ?c = take next c @ [c ! it]"
      using Suc.prems lt by (subst take_Suc_conv_app_nth) simp_all
    moreover have "m = length ?c - Suc i" "Suc next \<le> i" "i < Suc i" "Suc i \<le> length ?c" using Suc.hyps(2) Suc.prems lt by simp_all
    note IH = Suc.hyps(1) [OF this]
    moreover have "?c ! i = c ! i" "drop (Suc i) ?c = drop (Suc i) c" using Suc.prems by simp_all
    moreover have "group_caps (c ! it # drop i c) = c ! it # group_caps (c ! i # drop (Suc i) c)" using False by (simp add: d)
    ultimately show ?thesis by (simp only: length_Cons append_assoc append_Cons append_Nil add_Suc add_Suc_right)
  qed
qed

lemma add_cap_sel [simp]:
  "cp_h (add_cap a b) = cp_h a" "cp_rc (add_cap a b) = cp_rc a + cp_rc b" "cp_wc (add_cap a b) = cp_wc a + cp_wc b"
  "cp_lc (add_cap a b) = cp_lc a + cp_lc b"
  by (simp_all add: add_cap_def)

lemma group_caps_keys: "cp_h ` set (group_caps cs) = cp_h ` set cs"
  by (induction cs rule: group_caps.induct) auto

lemma group_caps_total:
  assumes "\<And>a b. f (add_cap a b) = f a + f b"
  shows "cap_total f k (group_caps cs) = cap_total f k cs"
  by (induction cs rule: group_caps.induct) (simp_all add: cap_total_def assms ac_simps)

lemma group_caps_sorted:
  "sorted_wrt (\<lambda>a b. cp_h b \<le> cp_h a) cs \<Longrightarrow> sorted_wrt (\<lambda>a b. cp_h b < cp_h a) (group_caps cs)"
proof (induction cs rule: group_caps.induct)
  case (1 c d cs)
  show ?case
  proof (cases "cp_h c = cp_h d")
    case True
    then show ?thesis using 1 by simp
  next
    case False
    have "cp_h x < cp_h c" if "x \<in> set (group_caps (d # cs))" for x
    proof -
      have "cp_h x \<in> cp_h ` set (d # cs)" using that group_caps_keys [of "d # cs"] by blast
      then have "cp_h x \<le> cp_h d" using 1(3) by auto
      also have "cp_h d < cp_h c" using 1(3) False by auto
      finally show ?thesis .
    qed
    then show ?thesis using 1 False by simp
  qed
qed simp_all

text \<open>Keys on one stack, at distances the comparison is defined for.\<close>

definition stack_keys :: "cap list \<Rightarrow> bool" where
  "stack_keys cs \<longleftrightarrow>
     (\<forall>a \<in> set cs. \<forall>b \<in> set cs.
        56 dvd int (unat (cp_h a)) - int (unat (cp_h b)) \<and> \<bar>int (unat (cp_h a)) - int (unat (cp_h b))\<bar> < 2147483648)"

lemma sint_of_int_u32: "\<bar>k\<bar> < 2147483648 \<Longrightarrow> sint (of_int k :: u32) = k"
  using signed_take_bit_int_eq_self [of 31 k] by (simp add: signed_of_int)

lemma sint_diff_u32:
  fixes a b :: u32
  assumes "\<bar>int (unat a) - int (unat b)\<bar> < 2147483648"
  shows "sint (a - b) = int (unat a) - int (unat b)"
  using sint_of_int_u32 [OF assms] by simp

lemma div_56_sign: "56 dvd d \<Longrightarrow> - (d div 56) \<le> 0 \<Longrightarrow> 0 \<le> (d :: int)"
  by (elim dvdE) simp

lemma caps_cmp_desc:
  assumes "stack_keys cs" "a \<in> set cs" "b \<in> set cs" "the (caps_cmp a b) \<le> 0"
  shows "cp_h b \<le> cp_h a"
proof -
  let ?d = "int (unat (cp_h a)) - int (unat (cp_h b))"
  have d: "56 dvd ?d" "sint (cp_h a - cp_h b) = ?d"
    using assms(1-3) sint_diff_u32 unfolding stack_keys_def by blast+
  then have "- (?d div 56) \<le> 0" using assms(4) by (simp add: caps_cmp_def sizeof_XRegionHandle_def)
  then have "0 \<le> ?d" by (rule div_56_sign [OF d(1)])
  then show ?thesis by (simp add: word_le_def)
qed



text \<open>Descriptor, arguments and keys fit in the block that is allocated for them.\<close>

lemma get_stack_size_fits:
  assumes "unat arg_len + 28 * unat caps_len < 4294967240"
  shows "unat sizeof_ThreadStack + unat arg_len + unat sizeof_XTreeHandle * unat caps_len
     \<le> unat (real_size (get_stack_size caps_len arg_len d))"
proof -
  let ?x = "sizeof_ThreadStack + arg_len + sizeof_XTreeHandle * caps_len + 16"
  have x: "unat ?x = 40 + unat arg_len + 28 * unat caps_len"
    using assms by (simp add: sizeof_ThreadStack_def sizeof_XTreeHandle_def unat_add_u32 unat_mult_u32)
  have "unat ((?x AND NOT 7) + 8) = 8 * (unat ?x div 8) + 8"
    using assms x by (subst unat_add_u32) (simp_all only: unat_and_not_7, simp_all)
  then show ?thesis using x by (simp add: get_stack_size_def ALIGN_SZ_def Let_def sizeof_ThreadStack_def sizeof_XTreeHandle_def)
qed

subsection \<open>The tree of the new thread\<close>

text \<open>What the copy makes of a region, the parent of a copied key, and the fields of a key other than its links.\<close>

definition moved :: "u32 \<Rightarrow> cap \<Rightarrow> xregion_handle \<Rightarrow> xregion_handle" where
  "moved t c r =
     (let k = xr_caps r
      in r\<lparr>xr_caps := k\<lparr>g_rcnt := g_rcnt k + 1, writer_cv := if cp_wc c \<noteq> 0 then t else writer_cv k,
                        g_rd_cnt := if cp_lc c \<noteq> 0 then g_rd_cnt k + 1 else g_rd_cnt k\<rparr>,
           single_thread_key := NULL\<rparr>)"

definition copied_parent :: "cap list \<Rightarrow> ptr \<Rightarrow> ptr \<Rightarrow> ptr" where
  "copied_parent os n p =
     (let idx = if p \<noteq> NULL then find_parent os p 0 else length os in if idx < length os then key_at n idx else NULL)"

definition key_core :: "xtree_handle \<Rightarrow> ptr \<times> u16 \<times> u16 \<times> u16 \<times> ptr" where
  "key_core k = (xt_h k, lc_rcnt k, lc_wr_cnt k, lc_rd_cnt k, parent_key k)"

definition new_keys :: "cap list \<Rightarrow> ptr \<Rightarrow> ptr set" where
  "new_keys os n = key_at n ` {..<length os}"

lemma transfer_region_spec:
  assumes "cp_wc c \<noteq> 0 \<Longrightarrow> writer_cv (xr_caps (regions W z)) = tid W"
  shows "transfer_region t c z W = Some (Inr (upd_region z (moved t c) W))"
proof -
  have swap: "r\<lparr>single_thread_key := a, xr_caps := b\<rparr> = r\<lparr>xr_caps := b, single_thread_key := a\<rparr>" for r :: xregion_handle and a b
    by (cases r) simp
  show ?thesis
    using assms
    by (cases "cp_wc c = 0"; cases "cp_lc c = 0")
      (simp_all add: transfer_region_def upd_caps_def upd_region_def moved_def Let_def swap)
qed

lemma link_copy_spec:
  assumes "i < length os" and "parent_key (keys W (key_at n i)) = NULL"
  shows "regions (link_copy os n i p W) = regions W" "tid (link_copy os n i p W) = tid W"
    "e \<noteq> key_at n i \<Longrightarrow> key_core (keys (link_copy os n i p W) e) = key_core (keys W e)"
    "e \<notin> new_keys os n \<Longrightarrow> keys (link_copy os n i p W) e = keys W e"
    "xt_next (keys (link_copy os n i p W) e) = xt_next (keys W e)" "xt_h (keys (link_copy os n i p W) e) = xt_h (keys W e)"
    "key_core (keys (link_copy os n i p W) (key_at n i)) =
       key_core ((keys W (key_at n i))\<lparr>parent_key := copied_parent os n p\<rparr>)"
  using assms by (auto simp: link_copy_def copied_parent_def Let_def key_core_def new_keys_def)

lemma hashtable_insert_room:
  assumes "entrycount h + 1 \<le> upper_loadlimit h" "hashtable_insert mem h kv st = Some (r, h', st')"
  shows "r" "entrycount h' = entrycount h + 1" "upper_loadlimit h' = upper_loadlimit h"
  using assms by (auto simp: hashtable_insert_def hashtable_link_def cache_push_def Let_def split: if_splits)

lemma copy_key_spec:
  assumes ref: "ht_refines h (keys W) m" "m z = None" "ran m \<subseteq> new_keys os n - {key_at n i}"
    and k: "z = xt_h (keys W (cp_h c))" "cp_h c \<notin> new_keys os n" "key_at n i \<noteq> NULL" "i < length os"
    and zero: "parent_key (keys W (key_at n i)) = NULL"
    and room: "entrycount h + 1 \<le> upper_loadlimit h"
    and wr: "cp_wc c \<noteq> 0 \<Longrightarrow> writer_cv (xr_caps (regions W z)) = tid W"
  shows "\<exists>h' W'. copy_key mem t os n i c h W = Some (Inr (h', W')) \<and> ht_refines h' (keys W') (m(z \<mapsto> key_at n i)) \<and>
     entrycount h' = entrycount h + 1 \<and> upper_loadlimit h' = upper_loadlimit h \<and>
     regions W' = (regions W)(z := moved t c (regions W z)) \<and> tid W' = tid W \<and>
     key_core (keys W' (key_at n i)) =
       (z, ucast (cp_rc c), ucast (cp_wc c), ucast (cp_lc c), copied_parent os n (parent_key (keys W (cp_h c)))) \<and>
     (\<forall>e. e \<noteq> key_at n i \<longrightarrow> key_core (keys W' e) = key_core (keys W e)) \<and>
     (\<forall>e. e \<notin> new_keys os n \<longrightarrow> keys W' e = keys W e)"
proof -
  let ?k = "key_at n i"
  have kn: "?k \<in> new_keys os n" using k(4) by (simp add: new_keys_def)
  define W1 where "W1 = upd_key ?k
     (\<lambda>e. e\<lparr>lc_rcnt := ucast (cp_rc c), lc_wr_cnt := ucast (cp_wc c), lc_rd_cnt := ucast (cp_lc c), xt_h := z\<rparr>) W"
  have W1: "keys W1 ?k = (keys W ?k)\<lparr>lc_rcnt := ucast (cp_rc c), lc_wr_cnt := ucast (cp_wc c), lc_rd_cnt := ucast (cp_lc c), xt_h := z\<rparr>"
    "\<And>e. e \<noteq> ?k \<Longrightarrow> keys W1 e = keys W e" "regions W1 = regions W" "tid W1 = tid W" by (simp_all add: W1_def)
  have W1m: "keys W1 e = keys W e" if "e \<in> ran m" for e using that ref(3) by (intro W1(2)) auto
  have ref1: "ht_refines h (keys W1) m" by (rule ht_refines_frame [OF ref(1)]) (simp add: W1m)
  have z1: "xt_h (keys W1 ?k) = z" by (simp add: W1(1))
  obtain r h' st where ins: "hashtable_insert mem h ?k (keys W1) = Some (r, h', st)"
    and same: "same_but_next (insert ?k (ran m)) (keys W1) st" and t: "if r then ht_refines h' st (m(z \<mapsto> ?k)) else True"
    using hashtable_insert_spec [OF ref1 ref(2) [folded z1] k(3), of mem, unfolded z1] by (auto split: if_splits)
  note rm = hashtable_insert_room [OF room ins]
  define W2 where "W2 = upd_region z (moved t c) (W1\<lparr>keys := st\<rparr>)"
  have tr: "transfer_region t c z (W1\<lparr>keys := st\<rparr>) = Some (Inr W2)"
    unfolding W2_def using wr by (intro transfer_region_spec) (simp add: W1)
  have W2: "keys W2 = st" "regions W2 = (regions W)(z := moved t c (regions W z))" "tid W2 = tid W"
    by (simp_all add: W2_def W1 upd_region_def)
  define W3 where "W3 = link_copy os n i (parent_key (keys W2 (cp_h c))) W2"
  have core: "key_core (st e) = key_core (keys W1 e)" "parent_key (st e) = parent_key (keys W1 e)" for e
    using same_but_nextD [OF same, of e] by (simp_all add: key_core_def)
  have ck: "cp_h c \<noteq> ?k" using k(2) kn by auto
  have pk: "parent_key (keys W2 (cp_h c)) = parent_key (keys W (cp_h c))" using ck by (simp add: W2 core(2) W1(2))
  have pn: "parent_key (keys W2 ?k) = NULL" using zero by (simp add: W2 core(2) W1(1))
  note L = link_copy_spec [OF k(4) pn, where p = "parent_key (keys W2 (cp_h c))", folded W3_def]
  have "copy_key mem t os n i c h W = Some (Inr (h', W3))"
    unfolding copy_key_def Let_def k(1) [symmetric] W1_def [symmetric] by (simp only: ins tr option.case prod.case bind_ores_simps W3_def)
  moreover have "ht_refines h' (keys W3) (m(z \<mapsto> ?k))"
    by (rule ht_refines_frame [where st = st]) (use t rm(1) in \<open>simp_all add: L(5,6) W2(1)\<close>)
  moreover have "key_core (keys W3 ?k) =
      (z, ucast (cp_rc c), ucast (cp_wc c), ucast (cp_lc c), copied_parent os n (parent_key (keys W (cp_h c))))"
    unfolding L(7) pk W2(1) using core(1) [of ?k] pk [unfolded W2(1)] unfolding W1(1) by (simp add: key_core_def)
  moreover have "key_core (keys W3 e) = key_core (keys W e)" if "e \<noteq> ?k" for e
    using L(3) [OF that] core(1) [of e] unfolding W2(1) W1(2) [OF that] by simp
  moreover have "keys W3 e = keys W e" if "e \<notin> new_keys os n" for e
  proof -
    have "e \<notin> insert ?k (ran m)" "e \<noteq> ?k" using that kn ref(3) by auto
    then show ?thesis using L(4) [OF that] same_but_next_other [OF same, of e] W1(2) [of e] unfolding W2(1) by simp
  qed
  moreover have "regions W3 = (regions W)(z := moved t c (regions W z))" "tid W3 = tid W" using L(1,2) W2 by simp_all
  ultimately show ?thesis using rm(2,3) by blast
qed

text \<open>The regions of the keys that are passed, and the map of the table of the new thread after \<open>i\<close> entries.\<close>

definition passed_regions :: "cap list \<Rightarrow> world \<Rightarrow> ptr list" where
  "passed_regions os W = map (\<lambda>c. xt_h (keys W (cp_h c))) os"

primrec child_map :: "ptr list \<Rightarrow> ptr \<Rightarrow> nat \<Rightarrow> ptr \<rightharpoonup> ptr" where
  "child_map zs n 0 = Map.empty"
| "child_map zs n (Suc i) = (child_map zs n i)(zs ! i \<mapsto> key_at n i)"

definition copied_core :: "cap list \<Rightarrow> ptr \<Rightarrow> world \<Rightarrow> nat \<Rightarrow> ptr \<times> u16 \<times> u16 \<times> u16 \<times> ptr" where
  "copied_core os n W j =
     (let c = os ! j
      in (passed_regions os W ! j, ucast (cp_rc c), ucast (cp_wc c), ucast (cp_lc c),
          copied_parent os n (parent_key (keys W (cp_h c)))))"

text \<open>What holds of the entries up to \<open>i\<close>.\<close>

definition copied :: "cap list \<Rightarrow> ptr \<Rightarrow> u32 \<Rightarrow> world \<Rightarrow> nat \<Rightarrow> world \<Rightarrow> bool" where
  "copied os n t W0 i W \<longleftrightarrow>
     tid W = tid W0 \<and> (\<forall>e. e \<notin> new_keys os n \<longrightarrow> keys W e = keys W0 e) \<and>
     (\<forall>j < i. key_core (keys W (key_at n j)) = copied_core os n W0 j) \<and>
     (\<forall>j < i. regions W (passed_regions os W0 ! j) = moved t (os ! j) (regions W0 (passed_regions os W0 ! j))) \<and>
     (\<forall>z. z \<notin> set (take i (passed_regions os W0)) \<longrightarrow> regions W z = regions W0 z)"

definition copy_ready :: "cap list \<Rightarrow> ptr \<Rightarrow> world \<Rightarrow> bool" where
  "copy_ready os n W \<longleftrightarrow>
     distinct (passed_regions os W) \<and> length os \<le> 105 \<and> n \<noteq> NULL \<and> unat n + 28 * length os < 4294967296 \<and>
     (\<forall>c \<in> set os. cp_h c \<notin> new_keys os n) \<and>
     (\<forall>c \<in> set os. cp_wc c \<noteq> 0 \<longrightarrow> writer_cv (xr_caps (regions W (xt_h (keys W (cp_h c))))) = tid W)"

lemma unat_of_nat_u32: "i < 4294967296 \<Longrightarrow> unat (of_nat i :: u32) = i"
  by (simp add: unsigned_of_nat take_bit_nat_eq_self)

lemma unat_key_at:
  assumes "unat n + 28 * i < 4294967296"
  shows "unat (key_at n i) = unat n + 28 * i"
proof -
  have "unat (of_nat i :: u32) = i" using assms by (intro unat_of_nat_u32) linarith
  then show ?thesis
    using assms unat_mult_u32 [of 28 "of_nat i"] unat_add_u32 [of n "28 * of_nat i"]
    by (simp add: key_at_def sizeof_XTreeHandle_def)
qed

lemma key_at_inj:
  assumes "copy_ready os n W" "i < length os" "j < length os" "key_at n i = key_at n j"
  shows "i = j"
proof -
  have "unat n + 28 * i < 4294967296" "unat n + 28 * j < 4294967296" using assms(1-3) unfolding copy_ready_def by auto
  note eq = unat_key_at [OF this(1)] unat_key_at [OF this(2)]
  have "unat n + 28 * i = unat n + 28 * j" unfolding eq [symmetric] assms(4) ..
  then show ?thesis by simp
qed

lemma key_at_nonnull:
  assumes "copy_ready os n W" "i < length os"
  shows "key_at n i \<noteq> NULL"
proof -
  have "unat n + 28 * i < 4294967296" "unat n \<noteq> 0"
    using assms word_gt_0_u32 [of n] unfolding copy_ready_def by simp_all
  then show ?thesis using unat_key_at [of n i] by auto
qed

lemma child_map_ran: "ran (child_map zs n i) \<subseteq> key_at n ` {..<i}"
  by (induction i) (auto simp: ran_def lessThan_Suc split: if_splits)

lemma child_map_dom: "i \<le> length zs \<Longrightarrow> dom (child_map zs n i) = set (take i zs)"
  by (induction i) (auto simp: take_Suc_conv_app_nth)

lemma child_map_nth: "distinct zs \<Longrightarrow> j < i \<Longrightarrow> i \<le> length zs \<Longrightarrow> child_map zs n i (zs ! j) = Some (key_at n j)"
  by (induction i) (auto simp: less_Suc_eq nth_eq_iff_index_eq)

lemma zero_keys_sel:
  "keys (zero_keys n i W) e = (if e \<in> key_at n ` {..<i} then zero_key else keys W e)"
  "regions (zero_keys n i W) = regions W" "tid (zero_keys n i W) = tid W" "tbl (zero_keys n i W) = tbl W"
  by (induction i) (auto simp: lessThan_Suc)

lemma copy_step:
  assumes rdy: "copy_ready os n W0" and inv: "copied os n t W0 i W" and i: "i < length os"
    and ref: "ht_refines h (keys W) (child_map (passed_regions os W0) n i)"
    and tab: "entrycount h = of_nat i" "upper_loadlimit h = 106"
    and zero: "\<forall>j. i \<le> j \<and> j < length os \<longrightarrow> parent_key (keys W (key_at n j)) = NULL"
  shows "\<exists>h' W'. copy_key mem t os n i (os ! i) h W = Some (Inr (h', W')) \<and> copied os n t W0 (Suc i) W' \<and>
     ht_refines h' (keys W') (child_map (passed_regions os W0) n (Suc i)) \<and>
     entrycount h' = of_nat (Suc i) \<and> upper_loadlimit h' = 106 \<and>
     (\<forall>j. Suc i \<le> j \<and> j < length os \<longrightarrow> parent_key (keys W' (key_at n j)) = NULL)"
proof -
  let ?zs = "passed_regions os W0" and ?c = "os ! i"
  let ?z = "?zs ! i"
  have c: "?c \<in> set os" using i by simp
  have D: "distinct ?zs" "length os \<le> 105" "cp_h ?c \<notin> new_keys os n" using rdy c unfolding copy_ready_def by auto
  have len: "length ?zs = length os" by (simp add: passed_regions_def)
  note I = inv [unfolded copied_def]
  have fresh: "?z \<notin> set (take i ?zs)" using D(1) i len by (auto simp: in_set_conv_nth nth_eq_iff_index_eq)
  have kc: "keys W (cp_h ?c) = keys W0 (cp_h ?c)" using I D(3) by blast
  have z: "?z = xt_h (keys W (cp_h ?c))" using i unfolding kc by (simp add: passed_regions_def)
  have rz: "regions W ?z = regions W0 ?z" using I fresh by blast
  have none: "child_map ?zs n i ?z = None" using child_map_dom [of i ?zs n] fresh i len by auto
  have ran: "ran (child_map ?zs n i) \<subseteq> new_keys os n - {key_at n i}"
  proof -
    have "key_at n i \<noteq> key_at n j" if "j < i" for j using key_at_inj [OF rdy i, of j] that i by auto
    then have "key_at n i \<notin> key_at n ` {..<i}" by blast
    then show ?thesis using child_map_ran [of ?zs n i] i unfolding new_keys_def by force
  qed
  have room: "entrycount h + 1 \<le> upper_loadlimit h"
  proof -
    have "unat (of_nat i + 1 :: u32) = Suc i" using D(2) i unat_of_nat_u32 [of "Suc i"] by (simp add: add.commute)
    then show ?thesis using D(2) i unfolding tab word_le_nat_alt by simp
  qed
  have wr: "writer_cv (xr_caps (regions W ?z)) = tid W" if "cp_wc ?c \<noteq> 0"
    using rdy c that I z rz kc unfolding copy_ready_def by auto
  from copy_key_spec [OF ref none ran z D(3) key_at_nonnull [OF rdy i] i _ room wr, of mem t] zero i
  obtain h' W' where R: "copy_key mem t os n i ?c h W = Some (Inr (h', W'))"
    "ht_refines h' (keys W') (child_map ?zs n (Suc i))" "entrycount h' = entrycount h + 1" "upper_loadlimit h' = 106"
    "regions W' = (regions W)(?z := moved t ?c (regions W ?z))" "tid W' = tid W"
    "key_core (keys W' (key_at n i)) = copied_core os n W0 i"
    "\<And>e. e \<noteq> key_at n i \<Longrightarrow> key_core (keys W' e) = key_core (keys W e)"
    "\<And>e. e \<notin> new_keys os n \<Longrightarrow> keys W' e = keys W e"
    unfolding copied_core_def Let_def tab kc by auto
  have "copied os n t W0 (Suc i) W'"
    unfolding copied_def
  proof (intro conjI allI impI)
    show "key_core (keys W' (key_at n j)) = copied_core os n W0 j" if "j < Suc i" for j
    proof (cases "j = i")
      case False
      then have "key_at n j \<noteq> key_at n i" "j < i" using that key_at_inj [OF rdy _ i, of j] i by auto
      then show ?thesis using R(8) I by simp
    qed (simp add: R(7))
    show "regions W' (?zs ! j) = moved t (os ! j) (regions W0 (?zs ! j))" if "j < Suc i" for j
    proof (cases "j = i")
      case False
      then have "?zs ! j \<noteq> ?z" using that i len D(1) by (simp add: nth_eq_iff_index_eq)
      then show ?thesis using False that I by (simp add: R(5))
    qed (simp add: R(5) rz)
    show "regions W' x = regions W0 x" if "x \<notin> set (take (Suc i) ?zs)" for x
      using that I i len by (simp add: R(5) take_Suc_conv_app_nth)
  qed (use R(6,9) I in auto)
  moreover have "parent_key (keys W' (key_at n j)) = NULL" if "Suc i \<le> j \<and> j < length os" for j
  proof -
    have "key_at n j \<noteq> key_at n i" using key_at_inj [OF rdy _ i, of j] that by auto
    then show ?thesis using R(8) [of "key_at n j"] zero that by (simp add: key_core_def)
  qed
  ultimately show ?thesis using R tab by (intro exI [of _ h'] exI [of _ W']) simp
qed

lemma copy_loop:
  assumes rdy: "copy_ready os n W0" and "copied os n t W0 i W" and "i \<le> length os" and "cs = drop i os"
    and "ht_refines h (keys W) (child_map (passed_regions os W0) n i)"
    and "entrycount h = of_nat i" "upper_loadlimit h = 106"
    and "\<forall>j. i \<le> j \<and> j < length os \<longrightarrow> parent_key (keys W (key_at n j)) = NULL"
  shows "\<exists>h' W'. copy_keys mem t os n i cs h W = Some (Inr (h', W')) \<and> copied os n t W0 (length os) W' \<and>
     ht_refines h' (keys W') (child_map (passed_regions os W0) n (length os))"
  using assms(2-)
proof (induction cs arbitrary: i h W)
  case Nil
  then show ?case by simp
next
  case (Cons c cs)
  then have i: "i < length os" by (metis drop_all list.distinct(1) not_le)
  then have c: "c = os ! i" "cs = drop (Suc i) os" using Cons.prems(3) by (simp_all add: Cons_nth_drop_Suc [symmetric])
  from copy_step [OF rdy Cons.prems(1) i Cons.prems(4-7), of mem]
  obtain h' W' where S: "copy_key mem t os n i c h W = Some (Inr (h', W'))" "copied os n t W0 (Suc i) W'"
     "ht_refines h' (keys W') (child_map (passed_regions os W0) n (Suc i))"
     "entrycount h' = of_nat (Suc i)" "upper_loadlimit h' = 106"
     "\<forall>j. Suc i \<le> j \<and> j < length os \<longrightarrow> parent_key (keys W' (key_at n j)) = NULL" unfolding c by blast
  from Cons.IH [OF S(2) _ c(2) S(3-6)] i S(1) show ?case by auto
qed

lemma passed_zero:
  assumes "copy_ready os n W"
  shows "passed_regions os (zero_keys n (length os) W) = passed_regions os W"
    "copied_core os n (zero_keys n (length os) W) j = copied_core os n W j \<or> length os \<le> j"
    "copy_ready os n (zero_keys n (length os) W)"
proof -
  have k: "keys (zero_keys n (length os) W) (cp_h c) = keys W (cp_h c)" if "c \<in> set os" for c
    using that assms unfolding copy_ready_def new_keys_def zero_keys_sel by auto
  show p: "passed_regions os (zero_keys n (length os) W) = passed_regions os W" by (simp add: passed_regions_def k)
  show "copied_core os n (zero_keys n (length os) W) j = copied_core os n W j \<or> length os \<le> j"
    using k [of "os ! j"] unfolding copied_core_def p Let_def by (cases "j < length os") auto
  show "copy_ready os n (zero_keys n (length os) W)"
    using assms k unfolding copy_ready_def p by (simp add: zero_keys_sel(2,3))
qed

lemma copy_tree_spec:
  assumes "copy_ready os n W" and "create_hashtable True 25 = Some h"
  shows "\<exists>h' W' m. copy_keys mem t os n 0 os h (zero_keys n (length os) W) = Some (Inr (h', W')) \<and>
     ht_refines h' (keys W') m \<and> dom m = set (passed_regions os W) \<and>
     (\<forall>j < length os. m (passed_regions os W ! j) = Some (key_at n j) \<and>
        key_core (keys W' (key_at n j)) = copied_core os n W j \<and>
        regions W' (passed_regions os W ! j) = moved t (os ! j) (regions W (passed_regions os W ! j))) \<and>
     (\<forall>z. z \<notin> set (passed_regions os W) \<longrightarrow> regions W' z = regions W z) \<and>
     (\<forall>e. e \<notin> new_keys os n \<longrightarrow> keys W' e = keys W e) \<and> tid W' = tid W"
proof -
  let ?W = "zero_keys n (length os) W" and ?zs = "passed_regions os W"
  note Z = passed_zero [OF assms(1)]
  have len: "length ?zs = length os" by (simp add: passed_regions_def)
  have "\<exists>g. create_hashtable True 25 = Some g \<and> ht_refines g (keys ?W) Map.empty"
    using create_hashtable_spec [of 25 "keys ?W"] by auto
  then have h: "ht_refines h (keys ?W) (child_map (passed_regions os ?W) n 0)" using assms(2) by simp
  have tab: "entrycount h = of_nat 0" "upper_loadlimit h = 106"
    using assms(2) by (auto simp: create_hashtable_def primes_def load_limit_def max_load_factor_def)
  have start: "copied os n t ?W 0 ?W" "\<forall>j. 0 \<le> j \<and> j < length os \<longrightarrow> parent_key (keys ?W (key_at n j)) = NULL"
    by (simp_all add: copied_def zero_keys_sel zero_key_def)
  obtain h' W' where R: "copy_keys mem t os n 0 os h ?W = Some (Inr (h', W'))" "copied os n t ?W (length os) W'"
    "ht_refines h' (keys W') (child_map ?zs n (length os))"
    using copy_loop [OF Z(3) start(1) _ _ h tab start(2), of os mem] unfolding Z(1) by auto
  note I = R(2) [unfolded copied_def Z(1) zero_keys_sel(2,3)]
  have "dom (child_map ?zs n (length os)) = set ?zs" using child_map_dom [of "length os" ?zs n] len by simp
  moreover have "child_map ?zs n (length os) (?zs ! j) = Some (key_at n j)" if "j < length os" for j
    using child_map_nth [of ?zs j "length os" n] that len assms(1) unfolding copy_ready_def by simp
  moreover have "key_core (keys W' (key_at n j)) = copied_core os n W j" if "j < length os" for j
    using I Z(2) [of j] that by auto
  moreover have "keys W' e = keys W e" if "e \<notin> new_keys os n" for e
    using I that zero_keys_sel(1) [of n "length os" W e] unfolding new_keys_def by auto
  ultimately show ?thesis
    using R(1,3) I len by (intro exI [of _ h'] exI [of _ W'] exI [of _ "child_map ?zs n (length os)"]) auto
qed



text \<open>The release of one key of the old thread that stays alive.\<close>

lemma uint_of_int_u16: "0 \<le> x \<Longrightarrow> x < 65536 \<Longrightarrow> uint (of_int x :: u16) = x"
  by (simp add: unsigned_of_int take_bit_int_eq_self)

lemma ucast_back: "sint (x :: u32) = uint (y :: u16) \<Longrightarrow> ucast x = y"
proof -
  assume "sint x = uint y"
  moreover have "of_int (sint x) = x" by simp
  ultimately have "x = of_int (uint y)" by simp
  then have x: "x = ucast y" by simp
  show "ucast x = y" unfolding x by (rule bit_word_eqI) (simp add: bit_simps)
qed

lemma release_one:
  assumes k: "keys W (cp_h c) = k" "sub_keys k = NULL" and "tid W \<noteq> 0" and "writer_cv (xr_caps (regions W (xt_h k))) \<noteq> tid W"
    and wr: "0 < sint (lc_wr_cnt k)" "sint (cp_wc c) = uint (lc_wr_cnt k)" and rd: "cp_lc c = 0" "lc_rd_cnt k = 0"
    and rc: "0 < sint (cp_rc c)" "sint (cp_rc c) < uint (lc_rcnt k)" and "g_rcnt (xr_caps (regions W (xt_h k))) \<noteq> 0"
  shows "\<exists>W'. release_caps env mem [c] W = Some (Inr W') \<and> writer_cv (xr_caps (regions W' (xt_h k))) = 0 \<and>
     (\<forall>e. e \<noteq> cp_h c \<longrightarrow> keys W' e = keys W e)"
proof -
  let ?n = "of_int (uint (lc_rcnt k) - sint (cp_rc c)) :: u16"
  let ?W = "upd_key (cp_h c) (\<lambda>k. k\<lparr>lc_rcnt := of_int (uint (lc_rcnt k) - sint (cp_rc c))\<rparr>) W"
  let ?k = "k\<lparr>lc_rcnt := ?n\<rparr>"
  have n: "uint ?n = uint (lc_rcnt k) - sint (cp_rc c)"
    using rc uint_bounded [of "lc_rcnt k"] by (intro uint_of_int_u16) simp_all
  have rc0: "lc_rcnt k \<noteq> 0" using rc by auto
  have "xregion_refcnt env mem False (cp_h c) (- sint (cp_rc c)) W = Some (Inr (True, ?W))"
    using k rc rc0 assms(11) by (subst xregion_refcnt.simps) (simp add: word_gt_0)
  moreover have "lockop_asserts (cp_h c) (- uint (lc_wr_cnt ?k)) (- uint (lc_rd_cnt ?k)) ?W"
    using k wr rd assms(4) uint_eq_sint [of "lc_wr_cnt k"] by (simp add: lockop_asserts_def lockop_entry_ok_def writer_ok_def)
  moreover have "0 < lc_rcnt ?k" using n rc(2) by (simp add: word_less_def)
  moreover have "keys ?W (cp_h c) = ?k" "sub_keys ?k = NULL" "tid ?W \<noteq> 0" using k assms(3) by simp_all
  ultimately obtain c' where
    "xregion_lockop env False (cp_h c) (- uint (lc_wr_cnt ?k)) (- uint (lc_rd_cnt ?k)) ?W =
       Some (Inr (upd_key (cp_h c) (\<lambda>k. k\<lparr>lc_wr_cnt := 0, lc_rd_cnt := 0\<rparr>) (upd_caps (xt_h ?k) (\<lambda>_. c') ?W)))"
    "writer_cv c' = (if lc_wr_cnt ?k \<noteq> 0 then 0 else writer_cv (xr_caps (regions ?W (xt_h ?k))))"
    using xregion_lockop_release [of ?W "cp_h c" ?k env] by blast
  moreover have "lc_wr_cnt k \<noteq> 0" using wr(1) by auto
  ultimately show ?thesis
    using \<open>xregion_refcnt env mem False (cp_h c) (- sint (cp_rc c)) W = Some (Inr (True, ?W))\<close> wr rd
    by (simp add: xregion_cap_th_def uint_0_iff)
qed

text \<open>C32: A thread that passes its write capability on a region to a new thread, and keeps a reference to the region,
  makes the new thread the holder of the write lock and then, when it takes the passed counts from its own key, releases
  the lock: at the end the key of the new thread says that it holds the write lock and the region says that nobody
  does.\<close>

theorem spawn_loses_write_lock:
  assumes "copy_ready [c] n W" "create_hashtable True 25 = Some h" and "keys W (cp_h c) = k" "sub_keys k = NULL"
    and "0 < sint (lc_wr_cnt k)" "sint (cp_wc c) = uint (lc_wr_cnt k)" "cp_lc c = 0" "lc_rd_cnt k = 0"
    and "0 < sint (cp_rc c)" "sint (cp_rc c) < uint (lc_rcnt k)"
    and "tid W \<noteq> 0" "t \<noteq> tid W" and "g_rcnt (xr_caps (regions W (xt_h k))) + 1 \<noteq> 0"
  shows "\<exists>h' W'. treecopy env mem [c] n t h W = Some (Inr (h', W')) \<and>
     lc_wr_cnt (keys W' n) = ucast (cp_wc c) \<and> lc_wr_cnt (keys W' n) \<noteq> 0 \<and>
     writer_cv (xr_caps (regions W' (xt_h k))) = 0"
proof -
  have n0: "key_at n 0 = n" by (simp add: key_at_def)
  have ne: "cp_h c \<noteq> n" using assms(1) n0 unfolding copy_ready_def new_keys_def by auto
  have wc: "cp_wc c \<noteq> 0" using assms(5,6) uint_eq_sint [of "lc_wr_cnt k"] by auto
  obtain h1 W1 where C: "copy_keys mem t [c] n 0 [c] h (zero_keys n (length [c]) W) = Some (Inr (h1, W1))"
    "key_core (keys W1 n) = copied_core [c] n W 0" "regions W1 (xt_h k) = moved t c (regions W (xt_h k))"
    "\<And>e. e \<notin> new_keys [c] n \<Longrightarrow> keys W1 e = keys W e" "tid W1 = tid W"
    using copy_tree_spec [OF assms(1,2), of mem t] n0 by (auto simp: passed_regions_def assms(3))
  have kc: "keys W1 (cp_h c) = k" using C(4) assms(1,3) unfolding copy_ready_def by simp
  have caps: "writer_cv (xr_caps (regions W1 (xt_h k))) = t" "g_rcnt (xr_caps (regions W1 (xt_h k))) \<noteq> 0"
    using wc assms(13) by (simp_all add: C(3) moved_def Let_def)
  obtain W2 where R: "release_caps env mem [c] W1 = Some (Inr W2)" "writer_cv (xr_caps (regions W2 (xt_h k))) = 0"
    "keys W2 n = keys W1 n"
    using release_one [OF kc assms(4) _ _ assms(5-10) caps(2), of env mem] caps(1) assms(11,12) C(5) ne by auto
  have "lc_wr_cnt (keys W1 n) = ucast (cp_wc c)" using C(2) by (simp add: key_core_def copied_core_def Let_def)
  moreover have "ucast (cp_wc c) = lc_wr_cnt k"
    using assms(6) by (rule ucast_back)
  ultimately show ?thesis
    using C(1) R assms(5) by (auto simp: treecopy_def)
qed

theorem spawn_loses_write_lock_witness:
  "\<exists>h W h' W'. create_hashtable True 25 = Some h \<and> writer_cv (xr_caps (regions W 8192)) = tid W \<and>
     treecopy id True [\<lparr>cp_h = 4096, cp_rc = 1, cp_wc = 1, cp_lc = 0\<rparr>] 20480 3 h W = Some (Inr (h', W')) \<and>
     lc_wr_cnt (keys W' 20480) = 1 \<and> writer_cv (xr_caps (regions W' 8192)) = 0"
proof -
  obtain h where h: "create_hashtable True 25 = Some h" by (simp add: create_hashtable_def primes_def)
  let ?c = "\<lparr>cp_h = 4096, cp_rc = 1, cp_wc = 1, cp_lc = 0\<rparr>"
  let ?k = "zero_key\<lparr>xt_h := 8192, lc_rcnt := 2, lc_wr_cnt := 1\<rparr>"
  let ?W = "one_region h (\<lambda>_. ?k)"
  have "copy_ready [?c] 20480 ?W"
    unfolding copy_ready_def by (auto simp: passed_regions_def new_keys_def key_at_def one_region_def initial_handle_def)
  then have "\<exists>h' W'. treecopy id True [?c] 20480 3 h ?W = Some (Inr (h', W')) \<and> lc_wr_cnt (keys W' 20480) = ucast (cp_wc ?c) \<and>
      lc_wr_cnt (keys W' 20480) \<noteq> 0 \<and> writer_cv (xr_caps (regions W' (xt_h ?k))) = 0"
    by (rule spawn_loses_write_lock [OF _ h, where k = ?k]) (simp_all add: one_region_def zero_key_def initial_handle_def)
  then obtain h' W' where "treecopy id True [?c] 20480 3 h ?W = Some (Inr (h', W'))" "lc_wr_cnt (keys W' 20480) = 1"
    "writer_cv (xr_caps (regions W' 8192)) = 0" by auto
  moreover have "writer_cv (xr_caps (regions ?W 8192)) = tid ?W" by (simp add: one_region_def initial_handle_def)
  ultimately show ?thesis using h by blast
qed

end
