(* ===== verification/Cyc_Core.thy ===== *)
theory Cyc_Core
  imports Fat_Pointers
begin

section \<open>Namespace Core\<close>

text \<open>
  The functions of lib/core.cyc (compiled to bin/genfiles/core.c) that the other libraries build on:
  the comparison functions and the conversions between fat and thin pointers.

  A comparison function is an interface: it returns a number below, equal to or above zero, and the
  sorted containers rely on it being a total order up to equivalence.  That contract is the locale
  \<open>total_cmp\<close>; the comparisons of the code that keep it are interpretations of it.
\<close>

subsection \<open>Functions\<close>

definition Cyc_Core_opt_map :: "('a \<Rightarrow> 'b res) \<Rightarrow> 'a option \<Rightarrow> 'b option res" where
  "Cyc_Core_opt_map f o1 = (case o1 of None \<Rightarrow> Inr None | Some v \<Rightarrow> bind_res (f v) (\<lambda>w. Inr (Some w)))"

definition Cyc_Core_true_f :: "'a \<Rightarrow> bool" where
  "Cyc_Core_true_f x = True"

definition Cyc_Core_false_f :: "'a \<Rightarrow> bool" where
  "Cyc_Core_false_f x = False"

text \<open>\<open>int\<close> subtraction is done modulo 2^32.\<close>

definition Cyc_Core_intcmp :: "u32 \<Rightarrow> u32 \<Rightarrow> int" where
  "Cyc_Core_intcmp a b = sint (a - b)"

definition Cyc_Core_charcmp :: "u8 \<Rightarrow> u8 \<Rightarrow> int" where
  "Cyc_Core_charcmp a b = sint a - sint b"

definition Cyc_Core_nptrcmp :: "ptr \<Rightarrow> ptr \<Rightarrow> int" where
  "Cyc_Core_nptrcmp a b = (if a = b then 0 else if a > b then 1 else - 1)"

definition Cyc_Core_ptrcmp :: "ptr \<Rightarrow> ptr \<Rightarrow> int" where
  "Cyc_Core_ptrcmp a b = (if a = b then 0 else if a > b then 1 else - 1)"

definition Cyc_Core_fst :: "'a \<times> 'b \<Rightarrow> 'a" where
  "Cyc_Core_fst pair = fst pair"

definition Cyc_Core_snd :: "'a \<times> 'b \<Rightarrow> 'b" where
  "Cyc_Core_snd pair = snd pair"

definition Cyc_Core_third :: "'a \<times> 'b \<times> 'c \<Rightarrow> 'c" where
  "Cyc_Core_third triple = snd (snd triple)"

definition Cyc_Core_identity :: "'a \<Rightarrow> 'a" where
  "Cyc_Core_identity x = x"

definition Cyc_Core_mkfat :: "ptr \<Rightarrow> u32 \<Rightarrow> u32 \<Rightarrow> fat_ptr" where
  "Cyc_Core_mkfat arr s n = \<lparr>fat_curr = arr, fat_base = arr, fat_last_plus_one = arr + s * n\<rparr>"

definition Cyc_Core_arrcast :: "fat_ptr \<Rightarrow> u32 \<Rightarrow> u32 \<Rightarrow> ptr" where
  "Cyc_Core_arrcast dyn bd sz =
     (if drop_bit 20 bd \<noteq> 0 \<or> drop_bit 12 sz \<noteq> 0 then NULL
      else let ptrbd = fat_curr dyn + bd * sz
           in if ptrbd < fat_curr dyn \<or> fat_curr dyn = NULL \<or> fat_curr dyn < fat_base dyn \<or> ptrbd > fat_last_plus_one dyn then NULL
              else fat_curr dyn)"

definition Cyc_Core_mkthin :: "fat_ptr \<Rightarrow> u32 \<Rightarrow> ptr \<times> u32" where
  "Cyc_Core_mkthin dyn sz = (fat_curr dyn, get_fat_size dyn sz)"

definition Cyc_Core_arr_prevsize :: "fat_ptr \<Rightarrow> u32 \<Rightarrow> u32" where
  "Cyc_Core_arr_prevsize arr elt_sz =
     (if fat_curr arr < fat_base arr \<or> fat_curr arr \<ge> fat_last_plus_one arr then 0
      else (fat_curr arr - fat_base arr) div elt_sz)"

subsection \<open>The contract of comparison functions\<close>

locale total_cmp =
  fixes cmp :: "'k \<Rightarrow> 'k \<Rightarrow> int"
  assumes cmp_neg: "cmp x y < 0 \<longleftrightarrow> 0 < cmp y x"
    and cmp_trans: "cmp x y \<le> 0 \<Longrightarrow> cmp y z \<le> 0 \<Longrightarrow> cmp x z \<le> 0"
begin

lemma cmp_refl [simp]: "cmp x x = 0"
  using cmp_neg [of x x] by linarith

lemma cmp_eq_sym: "cmp x y = 0 \<Longrightarrow> cmp y x = 0"
  using cmp_neg [of x y] cmp_neg [of y x] by linarith

lemma cmp_le_iff: "cmp x y \<le> 0 \<longleftrightarrow> 0 \<le> cmp y x"
  using cmp_neg [of y x] by linarith

lemma cmp_less_le_trans: "cmp x y < 0 \<Longrightarrow> cmp y z \<le> 0 \<Longrightarrow> cmp x z < 0"
  using cmp_trans [of x y z] cmp_trans [of y z x] cmp_neg [of x y] cmp_eq_sym [of x z] by linarith

lemma cmp_less_trans: "cmp x y < 0 \<Longrightarrow> cmp y z < 0 \<Longrightarrow> cmp x z < 0"
  using cmp_less_le_trans [of x y z] by linarith

lemma cmp_le_less_trans: "cmp x y \<le> 0 \<Longrightarrow> cmp y z < 0 \<Longrightarrow> cmp x z < 0"
  using cmp_trans [of x y z] cmp_trans [of z x y] cmp_neg [of y z] cmp_eq_sym [of x z] by linarith

lemma cmp_cong_left: "cmp x y = 0 \<Longrightarrow> (cmp x z < 0 \<longleftrightarrow> cmp y z < 0) \<and> (cmp x z = 0 \<longleftrightarrow> cmp y z = 0)"
  using cmp_le_less_trans [of x y z] cmp_le_less_trans [of y x z] cmp_eq_sym [of x y]
    cmp_trans [of x y z] cmp_trans [of y x z] by linarith

end

interpretation charcmp: total_cmp Cyc_Core_charcmp
  by unfold_locales (auto simp: Cyc_Core_charcmp_def)

interpretation nptrcmp: total_cmp Cyc_Core_nptrcmp
  by unfold_locales (auto simp: Cyc_Core_nptrcmp_def split: if_splits)

interpretation ptrcmp: total_cmp Cyc_Core_ptrcmp
  by unfold_locales (auto simp: Cyc_Core_ptrcmp_def split: if_splits)

subsection \<open>Properties\<close>

lemma add_mod_wraps: "\<not> a + b < n \<Longrightarrow> a < n \<Longrightarrow> b < n \<Longrightarrow> (a + b) mod n < (a :: nat)"
  by (simp add: mod_if) linarith

text \<open>Up to a distance below 2^31 the difference of two \<open>int\<close> values has the right sign.\<close>

lemma intcmp_near:
  assumes "- (2 ^ 31) \<le> sint a - sint b" and "sint a - sint b < 2 ^ 31"
  shows "Cyc_Core_intcmp a b = sint a - sint b"
  using assms unfolding Cyc_Core_intcmp_def sint_word_diff by (intro signed_take_bit_int_eq_self) simp_all

text \<open>A cast of a fat pointer to a pointer with \<open>bd\<close> elements of \<open>sz\<close> bytes that succeeds gives the
  position of the fat pointer, and all \<open>bd\<close> elements lie between its base and its end: neither the
  product nor the sum wraps around.\<close>

theorem arrcast_sound:
  assumes "Cyc_Core_arrcast dyn bd sz \<noteq> NULL"
  shows "Cyc_Core_arrcast dyn bd sz = fat_curr dyn \<and> unat (fat_base dyn) \<le> unat (fat_curr dyn)
     \<and> unat (fat_curr dyn) + unat bd * unat sz \<le> unat (fat_last_plus_one dyn)"
proof -
  have c: "drop_bit 20 bd = 0" "drop_bit 12 sz = 0"
    "\<not> fat_curr dyn + bd * sz < fat_curr dyn" "\<not> fat_curr dyn < fat_base dyn"
    "\<not> fat_last_plus_one dyn < fat_curr dyn + bd * sz" "Cyc_Core_arrcast dyn bd sz = fat_curr dyn"
    using assms unfolding Cyc_Core_arrcast_def Let_def by (auto split: if_splits)
  have "unat bd div 2 ^ 20 = 0" "unat sz div 2 ^ 12 = 0"
    using c(1,2) unat_drop_bit_u32 [of 20 bd] unat_drop_bit_u32 [of 12 sz] by simp_all
  then have "unat bd < 1048576" "unat sz < 4096" by (auto simp: div_eq_0_iff)
  then have "unat bd * unat sz < 1048576 * 4096" by (intro mult_strict_mono) auto
  then have m: "unat (bd * sz) = unat bd * unat sz" by (intro unat_mult_u32) simp
  have "unat (fat_curr dyn + bd * sz) = unat (fat_curr dyn) + unat bd * unat sz"
  proof (cases "unat (fat_curr dyn) + unat (bd * sz) < 4294967296")
    case True
    then show ?thesis using m by (simp add: unat_add_u32)
  next
    case False
    have "unat (fat_curr dyn + bd * sz) < unat (fat_curr dyn)"
      using add_mod_wraps [OF False unat_lt_2p32 unat_lt_2p32] unfolding unat_add_u32_mod .
    then show ?thesis using c(3) by (simp add: word_less_nat_alt)
  qed
  then show ?thesis using c by (simp add: word_less_nat_alt)
qed

theorem arrcast_sound_witness:
  "Cyc_Core_arrcast (tag_fat 4096 4 10) 10 4 = 4096
   \<and> unat (fat_curr (tag_fat 4096 4 10)) + unat (10 :: u32) * unat (4 :: u32) \<le> unat (fat_last_plus_one (tag_fat 4096 4 10))"
proof -
  have "Cyc_Core_arrcast (tag_fat 4096 4 10) 10 4 \<noteq> NULL"
    by (simp add: Cyc_Core_arrcast_def tag_fat_def drop_bit_eq_div)
  from arrcast_sound [OF this] show ?thesis by (simp add: tag_fat_def)
qed

text \<open>\<open>intcmp\<close> does not keep the contract of comparison functions: the difference of two \<open>int\<close>
  values wraps around, so that a large positive number compares below a negative one and the order
  has cycles.\<close>

theorem intcmp_overflows:
  "\<not> total_cmp Cyc_Core_intcmp \<and> Cyc_Core_intcmp 2147483647 (- 2) < 0
   \<and> Cyc_Core_intcmp (- 2) 0 < 0 \<and> Cyc_Core_intcmp 0 2147483647 < 0"
proof -
  have e: "Cyc_Core_intcmp (- 2) 0 = - 2" "Cyc_Core_intcmp 0 2147483647 = - 2147483647"
    "Cyc_Core_intcmp (- 2) 2147483647 = 2147483647" "Cyc_Core_intcmp 2147483647 (- 2) = - 2147483647"
    by (simp_all add: Cyc_Core_intcmp_def)
  have "\<not> total_cmp Cyc_Core_intcmp"
    using total_cmp.cmp_trans [of Cyc_Core_intcmp "- 2" 0 2147483647] e by auto
  then show ?thesis using e by simp
qed

end
