(* ===== verification/Cyc_Dict.thy ===== *)
theory Cyc_Dict
  imports Cyc_Core "HOL-Library.Multiset"
begin

section \<open>The dictionary library\<close>

text \<open>
  Namespace Dict of the Cyclone library (lib/dict.cyc, compiled to bin/genfiles/dict.c): persistent
  dictionaries as red-black trees.

  A tree is never changed once it is reachable, so a pointer to a node is the value it points to:
  \<open>Null\<close> is the null pointer and \<open>T\<close> the struct \<open>Cyc_Dict_T\<close> with its fields in the order of the
  code.  The comparison function of a dictionary is a field of it.  The functions a client passes
  may throw, so they return a value of the fault monad; those called for their effect get and return
  a state.  Where the code compares two trees by address, the result of the comparison is an
  argument.  Memory for new nodes is assumed to be there: a failing allocation throws out of the
  operation and leaves the argument dictionaries as they are.
\<close>

subsection \<open>Trees and dictionaries\<close>

datatype Cyc_Dict_Color = R | B

datatype ('k, 'v) Cyc_Dict_T =
    is_Null: Null
  | T (color: Cyc_Dict_Color) (left: "('k, 'v) Cyc_Dict_T") (right: "('k, 'v) Cyc_Dict_T") (key_val: "'k \<times> 'v")

record ('k, 'v) Cyc_Dict_Dict =
  rel :: "'k \<Rightarrow> 'k \<Rightarrow> int"
  rgn :: ptr
  tree :: "('k, 'v) Cyc_Dict_T"

definition Cyc_Core_heap_region :: ptr where
  "Cyc_Core_heap_region = 0"

definition Cyc_Dict_rempty :: "ptr \<Rightarrow> ('k \<Rightarrow> 'k \<Rightarrow> int) \<Rightarrow> ('k, 'v) Cyc_Dict_Dict" where
  "Cyc_Dict_rempty r cmp = \<lparr>rel = cmp, rgn = r, tree = Null\<rparr>"

definition Cyc_Dict_empty :: "('k \<Rightarrow> 'k \<Rightarrow> int) \<Rightarrow> ('k, 'v) Cyc_Dict_Dict" where
  "Cyc_Dict_empty cmp = Cyc_Dict_rempty Cyc_Core_heap_region cmp"

definition Cyc_Dict_rsingleton :: "ptr \<Rightarrow> ('k \<Rightarrow> 'k \<Rightarrow> int) \<Rightarrow> 'k \<Rightarrow> 'v \<Rightarrow> ('k, 'v) Cyc_Dict_Dict" where
  "Cyc_Dict_rsingleton r cmp key data = \<lparr>rel = cmp, rgn = r, tree = T B Null Null (key, data)\<rparr>"

definition Cyc_Dict_singleton :: "('k \<Rightarrow> 'k \<Rightarrow> int) \<Rightarrow> 'k \<Rightarrow> 'v \<Rightarrow> ('k, 'v) Cyc_Dict_Dict" where
  "Cyc_Dict_singleton cmp key data = Cyc_Dict_rsingleton Cyc_Core_heap_region cmp key data"

definition Cyc_Dict_rshare :: "ptr \<Rightarrow> ('k, 'v) Cyc_Dict_Dict \<Rightarrow> ('k, 'v) Cyc_Dict_Dict" where
  "Cyc_Dict_rshare r d = \<lparr>rel = rel d, rgn = r, tree = tree d\<rparr>"

definition Cyc_Dict_is_empty :: "('k, 'v) Cyc_Dict_Dict \<Rightarrow> bool" where
  "Cyc_Dict_is_empty d = is_Null (tree d)"

subsection \<open>Looking up\<close>

text \<open>
  The loop of all lookups: from the root to the left when the comparison with the key of the node is
  negative, to the right when it is positive; the node where it stops, \<open>Null\<close> if it leaves the tree.
\<close>

primrec find_node :: "('c \<Rightarrow> 'k \<Rightarrow> int) \<Rightarrow> 'c \<Rightarrow> ('k, 'v) Cyc_Dict_T \<Rightarrow> ('k, 'v) Cyc_Dict_T" where
  "find_node cmp key Null = Null"
| "find_node cmp key (T c l r kv) =
     (let i = cmp key (fst kv)
      in if i < 0 then find_node cmp key l else if i > 0 then find_node cmp key r else T c l r kv)"

definition Cyc_Dict_member :: "('k, 'v) Cyc_Dict_Dict \<Rightarrow> 'k \<Rightarrow> bool" where
  "Cyc_Dict_member d key = (\<not> is_Null (find_node (rel d) key (tree d)))"

definition Cyc_Dict_lookup :: "('k, 'v) Cyc_Dict_Dict \<Rightarrow> 'k \<Rightarrow> 'v res" where
  "Cyc_Dict_lookup d key =
     (case find_node (rel d) key (tree d) of Null \<Rightarrow> Inl (Throw Absent) | T c l r kv \<Rightarrow> Inr (snd kv))"

definition Cyc_Dict_lookup_other :: "('k, 'v) Cyc_Dict_Dict \<Rightarrow> ('c \<Rightarrow> 'k \<Rightarrow> int) \<Rightarrow> 'c \<Rightarrow> 'v res" where
  "Cyc_Dict_lookup_other d cmp key =
     (case find_node cmp key (tree d) of Null \<Rightarrow> Inl (Throw Absent) | T c l r kv \<Rightarrow> Inr (snd kv))"

definition Cyc_Dict_lookup_opt :: "('k, 'v) Cyc_Dict_Dict \<Rightarrow> 'k \<Rightarrow> 'v option" where
  "Cyc_Dict_lookup_opt d key =
     (case find_node (rel d) key (tree d) of Null \<Rightarrow> None | T c l r kv \<Rightarrow> Some (snd kv))"

text \<open>The new content of \<open>*ans_place\<close> is the second component.\<close>

definition Cyc_Dict_lookup_bool :: "('k, 'v) Cyc_Dict_Dict \<Rightarrow> 'k \<Rightarrow> 'v \<Rightarrow> bool \<times> 'v" where
  "Cyc_Dict_lookup_bool d key ans =
     (case find_node (rel d) key (tree d) of Null \<Rightarrow> (False, ans) | T c l r kv \<Rightarrow> (True, snd kv))"

subsection \<open>Inserting\<close>

definition red :: "('k, 'v) Cyc_Dict_T \<Rightarrow> bool" where
  "red t = (case t of Null \<Rightarrow> False | T c l r kv \<Rightarrow> c = R)"

text \<open>The five patterns of the code, in their order.\<close>

definition Cyc_Dict_balance ::
    "Cyc_Dict_Color \<times> ('k, 'v) Cyc_Dict_T \<times> ('k, 'v) Cyc_Dict_T \<times> ('k \<times> 'v) \<Rightarrow> ('k, 'v) Cyc_Dict_T" where
  "Cyc_Dict_balance quad =
     (let (c, l, r, kv) = quad
      in if c = B \<and> red l \<and> red (left l)
         then T R (T B (left (left l)) (right (left l)) (key_val (left l))) (T B (right l) r kv) (key_val l)
         else if c = B \<and> red l \<and> red (right l)
         then T R (T B (left l) (left (right l)) (key_val l)) (T B (right (right l)) r kv) (key_val (right l))
         else if c = B \<and> red r \<and> red (left r)
         then T R (T B l (left (left r)) kv) (T B (right (left r)) (right r) (key_val r)) (key_val (left r))
         else if c = B \<and> red r \<and> red (right r)
         then T R (T B l (left r) kv) (T B (left (right r)) (right (right r)) (key_val (right r))) (key_val r)
         else T c l r kv)"

primrec Cyc_Dict_ins :: "('k \<Rightarrow> 'k \<Rightarrow> int) \<Rightarrow> 'k \<times> 'v \<Rightarrow> ('k, 'v) Cyc_Dict_T \<Rightarrow> ('k, 'v) Cyc_Dict_T" where
  "Cyc_Dict_ins cmp kv Null = T R Null Null kv"
| "Cyc_Dict_ins cmp kv (T c a b y) =
     (let i = cmp (fst kv) (fst y)
      in if i < 0 then Cyc_Dict_balance (c, Cyc_Dict_ins cmp kv a, b, y)
         else if i > 0 then Cyc_Dict_balance (c, a, Cyc_Dict_ins cmp kv b, y)
         else T c a b kv)"

text \<open>\<open>ans->color = B\<close>, with the check that \<open>ans\<close> is not null.\<close>

definition set_black :: "('k, 'v) Cyc_Dict_T \<Rightarrow> ('k, 'v) Cyc_Dict_T res" where
  "set_black t = (case t of Null \<Rightarrow> Inl (Throw Null_Exception) | T c l r kv \<Rightarrow> Inr (T B l r kv))"

definition Cyc_Dict_insert :: "('k, 'v) Cyc_Dict_Dict \<Rightarrow> 'k \<Rightarrow> 'v \<Rightarrow> ('k, 'v) Cyc_Dict_Dict res" where
  "Cyc_Dict_insert d key data =
     bind_res (set_black (Cyc_Dict_ins (rel d) (key, data) (tree d))) (\<lambda>ans.
       Inr \<lparr>rel = rel d, rgn = rgn d, tree = ans\<rparr>)"

definition Cyc_Dict_insert_new :: "('k, 'v) Cyc_Dict_Dict \<Rightarrow> 'k \<Rightarrow> 'v \<Rightarrow> ('k, 'v) Cyc_Dict_Dict res" where
  "Cyc_Dict_insert_new d key data =
     (if Cyc_Dict_member d key then Inl (Throw Absent) else Cyc_Dict_insert d key data)"

primrec Cyc_Dict_inserts :: "('k, 'v) Cyc_Dict_Dict \<Rightarrow> ('k \<times> 'v) list \<Rightarrow> ('k, 'v) Cyc_Dict_Dict res" where
  "Cyc_Dict_inserts d [] = Inr d"
| "Cyc_Dict_inserts d (kd # kds) =
     bind_res (Cyc_Dict_insert d (fst kd) (snd kd)) (\<lambda>d. Cyc_Dict_inserts d kds)"

subsection \<open>Folding and iterating\<close>

text \<open>
  The recursive functions on trees test each child for null before they descend; they are never
  called on the null pointer, and to reach into it is the null exception.
\<close>

primrec Cyc_Dict_fold_tree :: "('k \<Rightarrow> 'v \<Rightarrow> 'a \<Rightarrow> 'a res) \<Rightarrow> ('k, 'v) Cyc_Dict_T \<Rightarrow> 'a \<Rightarrow> 'a res" where
  "Cyc_Dict_fold_tree f Null accum = Inl (Throw Null_Exception)"
| "Cyc_Dict_fold_tree f (T c l r kv) accum =
     bind_res (if is_Null l then Inr accum else Cyc_Dict_fold_tree f l accum) (\<lambda>accum.
     bind_res (f (fst kv) (snd kv) accum) (\<lambda>accum.
     if is_Null r then Inr accum else Cyc_Dict_fold_tree f r accum))"

definition Cyc_Dict_fold :: "('k \<Rightarrow> 'v \<Rightarrow> 'a \<Rightarrow> 'a res) \<Rightarrow> ('k, 'v) Cyc_Dict_Dict \<Rightarrow> 'a \<Rightarrow> 'a res" where
  "Cyc_Dict_fold f d accum = (if is_Null (tree d) then Inr accum else Cyc_Dict_fold_tree f (tree d) accum)"

primrec Cyc_Dict_fold_tree_c ::
    "('e \<Rightarrow> 'k \<Rightarrow> 'v \<Rightarrow> 'a \<Rightarrow> 'a res) \<Rightarrow> 'e \<Rightarrow> ('k, 'v) Cyc_Dict_T \<Rightarrow> 'a \<Rightarrow> 'a res" where
  "Cyc_Dict_fold_tree_c f env Null accum = Inl (Throw Null_Exception)"
| "Cyc_Dict_fold_tree_c f env (T c l r kv) accum =
     bind_res (if is_Null l then Inr accum else Cyc_Dict_fold_tree_c f env l accum) (\<lambda>accum.
     bind_res (f env (fst kv) (snd kv) accum) (\<lambda>accum.
     if is_Null r then Inr accum else Cyc_Dict_fold_tree_c f env r accum))"

definition Cyc_Dict_fold_c ::
    "('e \<Rightarrow> 'k \<Rightarrow> 'v \<Rightarrow> 'a \<Rightarrow> 'a res) \<Rightarrow> 'e \<Rightarrow> ('k, 'v) Cyc_Dict_Dict \<Rightarrow> 'a \<Rightarrow> 'a res" where
  "Cyc_Dict_fold_c f env d accum =
     (if is_Null (tree d) then Inr accum else Cyc_Dict_fold_tree_c f env (tree d) accum)"

text \<open>
  \<open>app\<close> and \<open>iter\<close> call a function for its effect.  The only difference is that \<open>app\<close> drops a result;
  the effect is a function on the state \<open>'s\<close>.
\<close>

primrec Cyc_Dict_app_tree :: "('k \<Rightarrow> 'v \<Rightarrow> 's \<Rightarrow> ('c \<times> 's) res) \<Rightarrow> ('k, 'v) Cyc_Dict_T \<Rightarrow> 's \<Rightarrow> 's res" where
  "Cyc_Dict_app_tree f Null s = Inl (Throw Null_Exception)"
| "Cyc_Dict_app_tree f (T c l r kv) s =
     bind_res (if is_Null l then Inr s else Cyc_Dict_app_tree f l s) (\<lambda>s.
     bind_res (f (fst kv) (snd kv) s) (\<lambda>(_, s).
     if is_Null r then Inr s else Cyc_Dict_app_tree f r s))"

definition Cyc_Dict_app :: "('k \<Rightarrow> 'v \<Rightarrow> 's \<Rightarrow> ('c \<times> 's) res) \<Rightarrow> ('k, 'v) Cyc_Dict_Dict \<Rightarrow> 's \<Rightarrow> 's res" where
  "Cyc_Dict_app f d s = (if is_Null (tree d) then Inr s else Cyc_Dict_app_tree f (tree d) s)"

primrec Cyc_Dict_app_tree_c ::
    "('e \<Rightarrow> 'k \<Rightarrow> 'v \<Rightarrow> 's \<Rightarrow> ('c \<times> 's) res) \<Rightarrow> 'e \<Rightarrow> ('k, 'v) Cyc_Dict_T \<Rightarrow> 's \<Rightarrow> 's res" where
  "Cyc_Dict_app_tree_c f env Null s = Inl (Throw Null_Exception)"
| "Cyc_Dict_app_tree_c f env (T c l r kv) s =
     bind_res (if is_Null l then Inr s else Cyc_Dict_app_tree_c f env l s) (\<lambda>s.
     bind_res (f env (fst kv) (snd kv) s) (\<lambda>(_, s).
     if is_Null r then Inr s else Cyc_Dict_app_tree_c f env r s))"

definition Cyc_Dict_app_c ::
    "('e \<Rightarrow> 'k \<Rightarrow> 'v \<Rightarrow> 's \<Rightarrow> ('c \<times> 's) res) \<Rightarrow> 'e \<Rightarrow> ('k, 'v) Cyc_Dict_Dict \<Rightarrow> 's \<Rightarrow> 's res" where
  "Cyc_Dict_app_c f env d s = (if is_Null (tree d) then Inr s else Cyc_Dict_app_tree_c f env (tree d) s)"

primrec Cyc_Dict_iter_tree :: "('k \<Rightarrow> 'v \<Rightarrow> 's \<Rightarrow> 's res) \<Rightarrow> ('k, 'v) Cyc_Dict_T \<Rightarrow> 's \<Rightarrow> 's res" where
  "Cyc_Dict_iter_tree f Null s = Inl (Throw Null_Exception)"
| "Cyc_Dict_iter_tree f (T c l r kv) s =
     bind_res (if is_Null l then Inr s else Cyc_Dict_iter_tree f l s) (\<lambda>s.
     bind_res (f (fst kv) (snd kv) s) (\<lambda>s.
     if is_Null r then Inr s else Cyc_Dict_iter_tree f r s))"

definition Cyc_Dict_iter :: "('k \<Rightarrow> 'v \<Rightarrow> 's \<Rightarrow> 's res) \<Rightarrow> ('k, 'v) Cyc_Dict_Dict \<Rightarrow> 's \<Rightarrow> 's res" where
  "Cyc_Dict_iter f d s = (if is_Null (tree d) then Inr s else Cyc_Dict_iter_tree f (tree d) s)"

primrec Cyc_Dict_iter_tree_c ::
    "('e \<Rightarrow> 'k \<Rightarrow> 'v \<Rightarrow> 's \<Rightarrow> 's res) \<Rightarrow> 'e \<Rightarrow> ('k, 'v) Cyc_Dict_T \<Rightarrow> 's \<Rightarrow> 's res" where
  "Cyc_Dict_iter_tree_c f env Null s = Inl (Throw Null_Exception)"
| "Cyc_Dict_iter_tree_c f env (T c l r kv) s =
     bind_res (if is_Null l then Inr s else Cyc_Dict_iter_tree_c f env l s) (\<lambda>s.
     bind_res (f env (fst kv) (snd kv) s) (\<lambda>s.
     if is_Null r then Inr s else Cyc_Dict_iter_tree_c f env r s))"

definition Cyc_Dict_iter_c ::
    "('e \<Rightarrow> 'k \<Rightarrow> 'v \<Rightarrow> 's \<Rightarrow> 's res) \<Rightarrow> 'e \<Rightarrow> ('k, 'v) Cyc_Dict_Dict \<Rightarrow> 's \<Rightarrow> 's res" where
  "Cyc_Dict_iter_c f env d s = (if is_Null (tree d) then Inr s else Cyc_Dict_iter_tree_c f env (tree d) s)"

text \<open>The state of \<open>count_elem\<close> is the variable \<open>num\<close>, an \<open>int\<close>.\<close>

definition Cyc_Dict_count_elem :: "unit \<Rightarrow> 'k \<Rightarrow> 'v \<Rightarrow> u32 \<Rightarrow> u32 res" where
  "Cyc_Dict_count_elem env a b cnt = Inr (cnt + 1)"

definition Cyc_Dict_cardinality :: "('k, 'v) Cyc_Dict_Dict \<Rightarrow> u32 res" where
  "Cyc_Dict_cardinality d = Cyc_Dict_iter_c Cyc_Dict_count_elem () d 0"

definition Cyc_Dict_iter2_f ::
    "('v \<Rightarrow> 'w \<Rightarrow> 's \<Rightarrow> 's res) \<times> ('k, 'w) Cyc_Dict_Dict \<Rightarrow> 'k \<Rightarrow> 'v \<Rightarrow> 's \<Rightarrow> 's res" where
  "Cyc_Dict_iter2_f env a b1 s =
     (let (f, d2) = env in bind_res (Cyc_Dict_lookup d2 a) (\<lambda>b2. f b1 b2 s))"

definition Cyc_Dict_iter2 ::
    "('v \<Rightarrow> 'w \<Rightarrow> 's \<Rightarrow> 's res) \<Rightarrow> ('k, 'v) Cyc_Dict_Dict \<Rightarrow> ('k, 'w) Cyc_Dict_Dict \<Rightarrow> 's \<Rightarrow> 's res" where
  "Cyc_Dict_iter2 f d1 d2 s = Cyc_Dict_iter_c Cyc_Dict_iter2_f (f, d2) d1 s"

definition Cyc_Dict_iter2_c_f ::
    "('e \<Rightarrow> 'v \<Rightarrow> 'w \<Rightarrow> 's \<Rightarrow> 's res) \<times> ('k, 'w) Cyc_Dict_Dict \<times> 'e \<Rightarrow> 'k \<Rightarrow> 'v \<Rightarrow> 's \<Rightarrow> 's res" where
  "Cyc_Dict_iter2_c_f env a b1 s =
     (let (f, d2, inner_env) = env in bind_res (Cyc_Dict_lookup d2 a) (\<lambda>b2. f inner_env b1 b2 s))"

definition Cyc_Dict_iter2_c ::
    "('e \<Rightarrow> 'v \<Rightarrow> 'w \<Rightarrow> 's \<Rightarrow> 's res) \<Rightarrow> 'e \<Rightarrow> ('k, 'v) Cyc_Dict_Dict \<Rightarrow> ('k, 'w) Cyc_Dict_Dict \<Rightarrow> 's \<Rightarrow> 's res" where
  "Cyc_Dict_iter2_c f inner_env d1 d2 s = Cyc_Dict_iter_c Cyc_Dict_iter2_c_f (f, d2, inner_env) d1 s"

definition Cyc_Dict_fold2_c_f ::
    "('e \<Rightarrow> 'k \<Rightarrow> 'v \<Rightarrow> 'w \<Rightarrow> 'a \<Rightarrow> 'a res) \<times> ('k, 'w) Cyc_Dict_Dict \<times> 'e \<Rightarrow> 'k \<Rightarrow> 'v \<Rightarrow> 'a \<Rightarrow> 'a res" where
  "Cyc_Dict_fold2_c_f env a b1 accum =
     (let (f, d2, inner_env) = env in bind_res (Cyc_Dict_lookup d2 a) (\<lambda>b2. f inner_env a b1 b2 accum))"

definition Cyc_Dict_fold2_c ::
    "('e \<Rightarrow> 'k \<Rightarrow> 'v \<Rightarrow> 'w \<Rightarrow> 'a \<Rightarrow> 'a res) \<Rightarrow> 'e \<Rightarrow> ('k, 'v) Cyc_Dict_Dict \<Rightarrow> ('k, 'w) Cyc_Dict_Dict \<Rightarrow> 'a \<Rightarrow> 'a res" where
  "Cyc_Dict_fold2_c f inner_env d1 d2 accum = Cyc_Dict_fold_c Cyc_Dict_fold2_c_f (f, d2, inner_env) d1 accum"

subsection \<open>Copying and mapping\<close>

primrec Cyc_Dict_copy_tree :: "ptr \<Rightarrow> ('k, 'v) Cyc_Dict_T \<Rightarrow> ('k, 'v) Cyc_Dict_T" where
  "Cyc_Dict_copy_tree r2 Null = Null"
| "Cyc_Dict_copy_tree r2 (T c l r kv) = T c (Cyc_Dict_copy_tree r2 l) (Cyc_Dict_copy_tree r2 r) kv"

definition Cyc_Dict_rcopy :: "ptr \<Rightarrow> ('k, 'v) Cyc_Dict_Dict \<Rightarrow> ('k, 'v) Cyc_Dict_Dict" where
  "Cyc_Dict_rcopy r2 d = \<lparr>rel = rel d, rgn = r2, tree = Cyc_Dict_copy_tree r2 (tree d)\<rparr>"

definition Cyc_Dict_copy :: "('k, 'v) Cyc_Dict_Dict \<Rightarrow> ('k, 'v) Cyc_Dict_Dict" where
  "Cyc_Dict_copy d = Cyc_Dict_rcopy Cyc_Core_heap_region d"

text \<open>The three steps are in the order of the code: left subtree, value, right subtree.\<close>

primrec Cyc_Dict_map_tree :: "ptr \<Rightarrow> ('v \<Rightarrow> 'w res) \<Rightarrow> ('k, 'v) Cyc_Dict_T \<Rightarrow> ('k, 'w) Cyc_Dict_T res" where
  "Cyc_Dict_map_tree r2 f Null = Inl (Throw Null_Exception)"
| "Cyc_Dict_map_tree r2 f (T c l r kv) =
     bind_res (if is_Null l then Inr Null else Cyc_Dict_map_tree r2 f l) (\<lambda>new_left.
     bind_res (f (snd kv)) (\<lambda>new_val.
     bind_res (if is_Null r then Inr Null else Cyc_Dict_map_tree r2 f r) (\<lambda>new_right.
     Inr (T c new_left new_right (fst kv, new_val)))))"

definition Cyc_Dict_rmap :: "ptr \<Rightarrow> ('v \<Rightarrow> 'w res) \<Rightarrow> ('k, 'v) Cyc_Dict_Dict \<Rightarrow> ('k, 'w) Cyc_Dict_Dict res" where
  "Cyc_Dict_rmap r f d =
     (if is_Null (tree d) then Inr \<lparr>rel = rel d, rgn = r, tree = Null\<rparr>
      else bind_res (Cyc_Dict_map_tree r f (tree d)) (\<lambda>t. Inr \<lparr>rel = rel d, rgn = r, tree = t\<rparr>))"

definition Cyc_Dict_map :: "('v \<Rightarrow> 'w res) \<Rightarrow> ('k, 'v) Cyc_Dict_Dict \<Rightarrow> ('k, 'w) Cyc_Dict_Dict res" where
  "Cyc_Dict_map f d = Cyc_Dict_rmap Cyc_Core_heap_region f d"

primrec Cyc_Dict_map_tree_c ::
    "ptr \<Rightarrow> ('e \<Rightarrow> 'v \<Rightarrow> 'w res) \<Rightarrow> 'e \<Rightarrow> ('k, 'v) Cyc_Dict_T \<Rightarrow> ('k, 'w) Cyc_Dict_T res" where
  "Cyc_Dict_map_tree_c r2 f env Null = Inl (Throw Null_Exception)"
| "Cyc_Dict_map_tree_c r2 f env (T c l r kv) =
     bind_res (if is_Null l then Inr Null else Cyc_Dict_map_tree_c r2 f env l) (\<lambda>new_left.
     bind_res (f env (snd kv)) (\<lambda>new_val.
     bind_res (if is_Null r then Inr Null else Cyc_Dict_map_tree_c r2 f env r) (\<lambda>new_right.
     Inr (T c new_left new_right (fst kv, new_val)))))"

definition Cyc_Dict_rmap_c ::
    "ptr \<Rightarrow> ('e \<Rightarrow> 'v \<Rightarrow> 'w res) \<Rightarrow> 'e \<Rightarrow> ('k, 'v) Cyc_Dict_Dict \<Rightarrow> ('k, 'w) Cyc_Dict_Dict res" where
  "Cyc_Dict_rmap_c r f env d =
     (if is_Null (tree d) then Inr \<lparr>rel = rel d, rgn = r, tree = Null\<rparr>
      else bind_res (Cyc_Dict_map_tree_c r f env (tree d)) (\<lambda>t. Inr \<lparr>rel = rel d, rgn = r, tree = t\<rparr>))"

definition Cyc_Dict_map_c :: "('e \<Rightarrow> 'v \<Rightarrow> 'w res) \<Rightarrow> 'e \<Rightarrow> ('k, 'v) Cyc_Dict_Dict \<Rightarrow> ('k, 'w) Cyc_Dict_Dict res" where
  "Cyc_Dict_map_c f env d = Cyc_Dict_rmap_c Cyc_Core_heap_region f env d"

definition Cyc_Dict_rchoose :: "ptr \<Rightarrow> ('k, 'v) Cyc_Dict_Dict \<Rightarrow> ('k \<times> 'v) res" where
  "Cyc_Dict_rchoose r d = (case tree d of Null \<Rightarrow> Inl (Throw Absent) | T c l r kv \<Rightarrow> Inr kv)"

subsection \<open>Comparing and combining dictionaries\<close>

primrec Cyc_Dict_forall_tree_c ::
    "('e \<Rightarrow> 'k \<Rightarrow> 'v \<Rightarrow> bool res) \<Rightarrow> 'e \<Rightarrow> ('k, 'v) Cyc_Dict_T \<Rightarrow> bool res" where
  "Cyc_Dict_forall_tree_c f env Null = Inl (Throw Null_Exception)"
| "Cyc_Dict_forall_tree_c f env (T c l r kv) =
     bind_res (if is_Null l then Inr True else Cyc_Dict_forall_tree_c f env l) (\<lambda>b.
     if \<not> b then Inr False else
     bind_res (f env (fst kv) (snd kv)) (\<lambda>b.
     if \<not> b then Inr False else
     if is_Null r then Inr True else Cyc_Dict_forall_tree_c f env r))"

definition Cyc_Dict_forall_c :: "('e \<Rightarrow> 'k \<Rightarrow> 'v \<Rightarrow> bool res) \<Rightarrow> 'e \<Rightarrow> ('k, 'v) Cyc_Dict_Dict \<Rightarrow> bool res" where
  "Cyc_Dict_forall_c f env d = (if is_Null (tree d) then Inr True else Cyc_Dict_forall_tree_c f env (tree d))"

definition Cyc_Dict_forall_intersect_f ::
    "('k \<Rightarrow> 'v \<Rightarrow> 'w \<Rightarrow> bool res) \<times> ('k, 'w) Cyc_Dict_Dict \<Rightarrow> 'k \<Rightarrow> 'v \<Rightarrow> bool res" where
  "Cyc_Dict_forall_intersect_f env a b =
     (let (f, d2) = env
      in if Cyc_Dict_member d2 a then bind_res (Cyc_Dict_lookup d2 a) (\<lambda>b2. f a b b2) else Inr True)"

definition Cyc_Dict_forall_intersect ::
    "('k \<Rightarrow> 'v \<Rightarrow> 'w \<Rightarrow> bool res) \<Rightarrow> ('k, 'v) Cyc_Dict_Dict \<Rightarrow> ('k, 'w) Cyc_Dict_Dict \<Rightarrow> bool res" where
  "Cyc_Dict_forall_intersect f d1 d2 = Cyc_Dict_forall_c Cyc_Dict_forall_intersect_f (f, d2) d1"

definition Cyc_Dict_union_f ::
    "('e \<Rightarrow> 'k \<Rightarrow> 'v \<Rightarrow> 'v \<Rightarrow> 'v res) \<times> 'e \<Rightarrow> 'k \<Rightarrow> 'v \<Rightarrow> ('k, 'v) Cyc_Dict_Dict \<Rightarrow> ('k, 'v) Cyc_Dict_Dict res" where
  "Cyc_Dict_union_f env a b d1 =
     (if Cyc_Dict_member d1 a
      then bind_res (Cyc_Dict_lookup d1 a) (\<lambda>old_val.
           bind_res (fst env (snd env) a old_val b) (\<lambda>new_val.
           if new_val \<noteq> old_val then Cyc_Dict_insert d1 a new_val else Inr d1))
      else Cyc_Dict_insert d1 a b)"

text \<open>\<open>same\<close> is the comparison \<open>(int) d1.t == (int) d2.t\<close> of the two roots.\<close>

definition Cyc_Dict_union_two_c ::
    "bool \<Rightarrow> ('e \<Rightarrow> 'k \<Rightarrow> 'v \<Rightarrow> 'v \<Rightarrow> 'v res) \<Rightarrow> 'e \<Rightarrow> ('k, 'v) Cyc_Dict_Dict \<Rightarrow> ('k, 'v) Cyc_Dict_Dict \<Rightarrow>
     ('k, 'v) Cyc_Dict_Dict res" where
  "Cyc_Dict_union_two_c same f env d1 d2 =
     (if same then Inr d1
      else if is_Null (tree d1) then Inr d2
      else if is_Null (tree d2) then Inr d1
      else Cyc_Dict_fold_c Cyc_Dict_union_f (f, env) d2 d1)"

text \<open>
  \<open>intersect_c\<close> walks the second tree with an array as a stack, doubled when two more entries might
  not fit.  An index outside the array throws.
\<close>

definition arr_get :: "'a list \<Rightarrow> int \<Rightarrow> 'a res" where
  "arr_get xs i = (if 0 \<le> i \<and> i < int (length xs) then Inr (xs ! nat i) else Inl (Throw Array_bounds))"

definition arr_set :: "'a list \<Rightarrow> int \<Rightarrow> 'a \<Rightarrow> 'a list res" where
  "arr_set xs i x = (if 0 \<le> i \<and> i < int (length xs) then Inr (xs[nat i := x]) else Inl (Throw Array_bounds))"

text \<open>\<open>if (t != NULL) queue[++ind] = t;\<close>\<close>

definition push_node ::
    "('k, 'v) Cyc_Dict_T \<Rightarrow> ('k, 'v) Cyc_Dict_T list \<times> int \<Rightarrow> (('k, 'v) Cyc_Dict_T list \<times> int) res" where
  "push_node t qi =
     (if is_Null t then Inr qi
      else bind_res (arr_set (fst qi) (snd qi + 1) t) (\<lambda>q. Inr (q, snd qi + 1)))"

text \<open>The body of the loop for the node taken from the stack.\<close>

definition intersect_step ::
    "('e \<Rightarrow> 'k \<Rightarrow> 'v \<Rightarrow> 'v \<Rightarrow> 'v res) \<Rightarrow> 'e \<Rightarrow> ('k, 'v) Cyc_Dict_Dict \<Rightarrow> ('k, 'v) Cyc_Dict_Dict \<Rightarrow>
     ('k, 'v) Cyc_Dict_T list \<Rightarrow> int \<Rightarrow> ('k, 'v) Cyc_Dict_T \<Rightarrow>
     (('k, 'v) Cyc_Dict_T list \<times> int \<times> ('k, 'v) Cyc_Dict_T) res" where
  "intersect_step f env d1 d2 queue ind ans =
     bind_res (arr_get queue ind) (\<lambda>node.
       case node of
         Null \<Rightarrow> Inl (Throw Null_Exception)
       | T c l r (k, v) \<Rightarrow>
           let ind = ind - 1;
               queue = (if ind + 2 \<ge> int (length queue) then queue @ replicate (length queue) (tree d2) else queue)
           in bind_res (push_node l (queue, ind)) (\<lambda>qi.
              bind_res (push_node r qi) (\<lambda>(queue, ind).
              if Cyc_Dict_member d1 k
              then bind_res (Cyc_Dict_lookup d1 k) (\<lambda>v1.
                   bind_res (f env k v1 v) (\<lambda>v. Inr (queue, ind, Cyc_Dict_ins (rel d2) (k, v) ans)))
              else Inr (queue, ind, ans))))"

partial_function (option) intersect_loop ::
    "('e \<Rightarrow> 'k \<Rightarrow> 'v \<Rightarrow> 'v \<Rightarrow> 'v res) \<Rightarrow> 'e \<Rightarrow> ('k, 'v) Cyc_Dict_Dict \<Rightarrow> ('k, 'v) Cyc_Dict_Dict \<Rightarrow>
     ('k, 'v) Cyc_Dict_T list \<Rightarrow> int \<Rightarrow> ('k, 'v) Cyc_Dict_T \<Rightarrow> ('k, 'v) Cyc_Dict_T ores" where
  "intersect_loop f env d1 d2 queue ind ans =
     (if ind \<noteq> - 1
      then bind_ores (Some (intersect_step f env d1 d2 queue ind ans)) (\<lambda>(queue, ind, ans).
             intersect_loop f env d1 d2 queue ind ans)
      else Some (Inr ans))"

definition Cyc_Dict_intersect_c ::
    "bool \<Rightarrow> ('e \<Rightarrow> 'k \<Rightarrow> 'v \<Rightarrow> 'v \<Rightarrow> 'v res) \<Rightarrow> 'e \<Rightarrow> ('k, 'v) Cyc_Dict_Dict \<Rightarrow> ('k, 'v) Cyc_Dict_Dict \<Rightarrow>
     ('k, 'v) Cyc_Dict_Dict ores" where
  "Cyc_Dict_intersect_c same f env d1 d2 =
     (if is_Null (tree d2) then Some (Inr d2)
      else if same then Some (Inr d2)
      else bind_ores (intersect_loop f env d1 d2 (replicate 16 (tree d2)) 0 Null) (\<lambda>ans_tree.
             Some (Inr \<lparr>rel = rel d2, rgn = rgn d2, tree = ans_tree\<rparr>)))"

definition Cyc_Dict_intersect_f :: "('k \<Rightarrow> 'v \<Rightarrow> 'v \<Rightarrow> 'v res) \<Rightarrow> 'k \<Rightarrow> 'v \<Rightarrow> 'v \<Rightarrow> 'v res" where
  "Cyc_Dict_intersect_f f a b1 b2 = f a b1 b2"

definition Cyc_Dict_intersect ::
    "bool \<Rightarrow> ('k \<Rightarrow> 'v \<Rightarrow> 'v \<Rightarrow> 'v res) \<Rightarrow> ('k, 'v) Cyc_Dict_Dict \<Rightarrow> ('k, 'v) Cyc_Dict_Dict \<Rightarrow>
     ('k, 'v) Cyc_Dict_Dict ores" where
  "Cyc_Dict_intersect same f d1 d2 = Cyc_Dict_intersect_c same Cyc_Dict_intersect_f f d1 d2"

subsection \<open>Lists, filters and deletion\<close>

definition Cyc_Dict_to_list_f :: "ptr \<Rightarrow> 'k \<Rightarrow> 'v \<Rightarrow> ('k \<times> 'v) list \<Rightarrow> ('k \<times> 'v) list res" where
  "Cyc_Dict_to_list_f r k v accum = Inr ((k, v) # accum)"

definition Cyc_Dict_rto_list :: "ptr \<Rightarrow> ('k, 'v) Cyc_Dict_Dict \<Rightarrow> ('k \<times> 'v) list res" where
  "Cyc_Dict_rto_list r d = Cyc_Dict_fold_c Cyc_Dict_to_list_f r d []"

definition Cyc_Dict_to_list :: "('k, 'v) Cyc_Dict_Dict \<Rightarrow> ('k \<times> 'v) list res" where
  "Cyc_Dict_to_list d = Cyc_Dict_rto_list Cyc_Core_heap_region d"

definition Cyc_Dict_filter_f ::
    "('k \<Rightarrow> 'v \<Rightarrow> bool res) \<times> ptr \<Rightarrow> 'k \<Rightarrow> 'v \<Rightarrow> ('k, 'v) Cyc_Dict_Dict \<Rightarrow> ('k, 'v) Cyc_Dict_Dict res" where
  "Cyc_Dict_filter_f env x y acc =
     (let (f, r) = env in bind_res (f x y) (\<lambda>b. if b then Cyc_Dict_insert acc x y else Inr acc))"

definition Cyc_Dict_rfilter ::
    "ptr \<Rightarrow> ('k \<Rightarrow> 'v \<Rightarrow> bool res) \<Rightarrow> ('k, 'v) Cyc_Dict_Dict \<Rightarrow> ('k, 'v) Cyc_Dict_Dict res" where
  "Cyc_Dict_rfilter r2 f d = Cyc_Dict_fold_c Cyc_Dict_filter_f (f, r2) d (Cyc_Dict_rempty r2 (rel d))"

definition Cyc_Dict_filter :: "('k \<Rightarrow> 'v \<Rightarrow> bool res) \<Rightarrow> ('k, 'v) Cyc_Dict_Dict \<Rightarrow> ('k, 'v) Cyc_Dict_Dict res" where
  "Cyc_Dict_filter f d = Cyc_Dict_rfilter Cyc_Core_heap_region f d"

definition Cyc_Dict_filter_c_f ::
    "('e \<Rightarrow> 'k \<Rightarrow> 'v \<Rightarrow> bool res) \<times> 'e \<times> ptr \<Rightarrow> 'k \<Rightarrow> 'v \<Rightarrow> ('k, 'v) Cyc_Dict_Dict \<Rightarrow> ('k, 'v) Cyc_Dict_Dict res" where
  "Cyc_Dict_filter_c_f env x y acc =
     (let (f, f_env, r2) = env
      in bind_res (f f_env x y) (\<lambda>b. if b then Cyc_Dict_insert acc x y else Inr acc))"

definition Cyc_Dict_rfilter_c ::
    "ptr \<Rightarrow> ('e \<Rightarrow> 'k \<Rightarrow> 'v \<Rightarrow> bool res) \<Rightarrow> 'e \<Rightarrow> ('k, 'v) Cyc_Dict_Dict \<Rightarrow> ('k, 'v) Cyc_Dict_Dict res" where
  "Cyc_Dict_rfilter_c r2 f f_env d =
     Cyc_Dict_fold_c Cyc_Dict_filter_c_f (f, f_env, r2) d (Cyc_Dict_rempty r2 (rel d))"

definition Cyc_Dict_filter_c ::
    "('e \<Rightarrow> 'k \<Rightarrow> 'v \<Rightarrow> bool res) \<Rightarrow> 'e \<Rightarrow> ('k, 'v) Cyc_Dict_Dict \<Rightarrow> ('k, 'v) Cyc_Dict_Dict res" where
  "Cyc_Dict_filter_c f f_env d = Cyc_Dict_rfilter_c Cyc_Core_heap_region f f_env d"

definition Cyc_Dict_difference_f :: "('k, 'w) Cyc_Dict_Dict \<Rightarrow> 'k \<Rightarrow> 'v \<Rightarrow> bool res" where
  "Cyc_Dict_difference_f d x y = Inr (\<not> Cyc_Dict_member d x)"

definition Cyc_Dict_rdifference ::
    "ptr \<Rightarrow> ('k, 'v) Cyc_Dict_Dict \<Rightarrow> ('k, 'w) Cyc_Dict_Dict \<Rightarrow> ('k, 'v) Cyc_Dict_Dict res" where
  "Cyc_Dict_rdifference r2 d1 d2 = Cyc_Dict_rfilter_c r2 Cyc_Dict_difference_f d2 d1"

definition Cyc_Dict_difference ::
    "('k, 'v) Cyc_Dict_Dict \<Rightarrow> ('k, 'w) Cyc_Dict_Dict \<Rightarrow> ('k, 'v) Cyc_Dict_Dict res" where
  "Cyc_Dict_difference d1 d2 = Cyc_Dict_rdifference Cyc_Core_heap_region d1 d2"

definition Cyc_Dict_delete_f :: "('k \<Rightarrow> 'k \<Rightarrow> int) \<times> 'k \<Rightarrow> 'k \<Rightarrow> 'v \<Rightarrow> bool res" where
  "Cyc_Dict_delete_f env x y = (let (cmp, x0) = env in Inr (cmp x0 x \<noteq> 0))"

definition Cyc_Dict_rdelete :: "ptr \<Rightarrow> ('k, 'v) Cyc_Dict_Dict \<Rightarrow> 'k \<Rightarrow> ('k, 'v) Cyc_Dict_Dict res" where
  "Cyc_Dict_rdelete r2 d x =
     (if \<not> Cyc_Dict_member d x then Inr (Cyc_Dict_rcopy r2 d)
      else Cyc_Dict_rfilter_c r2 Cyc_Dict_delete_f (rel d, x) d)"

definition Cyc_Dict_rdelete_same :: "('k, 'v) Cyc_Dict_Dict \<Rightarrow> 'k \<Rightarrow> ('k, 'v) Cyc_Dict_Dict res" where
  "Cyc_Dict_rdelete_same d x =
     (if \<not> Cyc_Dict_member d x then Inr d
      else Cyc_Dict_rfilter_c (rgn d) Cyc_Dict_delete_f (rel d, x) d)"

definition Cyc_Dict_delete :: "('k, 'v) Cyc_Dict_Dict \<Rightarrow> 'k \<Rightarrow> ('k, 'v) Cyc_Dict_Dict res" where
  "Cyc_Dict_delete d x = Cyc_Dict_rdelete Cyc_Core_heap_region d x"

subsection \<open>Iterators and files\<close>

text \<open>
  The environment of an iterator: an array used as a stack and the index of its top.  A call of
  \<open>iter_f\<close> that returns 0 is \<open>None\<close>; one that returns 1 gives what it stores in \<open>*dest\<close>.
\<close>

type_synonym ('k, 'v) dict_stack = "('k, 'v) Cyc_Dict_T list \<times> int"

definition Cyc_Dict_iter_f :: "('k, 'v) dict_stack \<Rightarrow> (('k \<times> 'v) option \<times> ('k, 'v) dict_stack) res" where
  "Cyc_Dict_iter_f stk =
     (let (stack, ind) = stk
      in if ind = - 1 then Inr (None, stk)
         else bind_res (arr_get stack ind) (\<lambda>t.
              case t of
                Null \<Rightarrow> Inl (Throw Null_Exception)
              | T c l r kv \<Rightarrow>
                  bind_res (push_node l (stack, ind - 1)) (\<lambda>si.
                  bind_res (push_node r si) (\<lambda>si. Inr (Some kv, si)))))"

text \<open>\<open>while (t != NULL) { t = t->left; half_max_size++; }\<close>\<close>

primrec spine_loop :: "('k, 'v) Cyc_Dict_T \<Rightarrow> nat \<Rightarrow> nat" where
  "spine_loop Null half_max_size = half_max_size"
| "spine_loop (T c l r kv) half_max_size = spine_loop l (half_max_size + 1)"

definition Cyc_Dict_make_iter :: "('k, 'v) Cyc_Dict_Dict \<Rightarrow> ('k, 'v) dict_stack" where
  "Cyc_Dict_make_iter d =
     (let half_max_size = spine_loop (tree d) 1
      in (replicate (2 * half_max_size) (tree d), if is_Null (tree d) then - 1 else 0))"

text \<open>
  \<open>marshal\<close> throws before it writes: the test around the throw is commented out.  \<open>unmarshal\<close> reads
  with \<open>getw\<close> and two readers, which are arguments and work on the state of the file.
\<close>

definition Cyc_Dict_marshal :: "ptr \<Rightarrow> ('k, 'v) Cyc_Dict_Dict \<Rightarrow> 'e res" where
  "Cyc_Dict_marshal r d =
     bind_res (Cyc_Dict_rto_list r d) (\<lambda>dict_list. Inl (Throw (Failure ''Dict::marshal: Write failure'')))"

primrec unmarshal_loop ::
    "('e \<Rightarrow> 's \<Rightarrow> ('k \<times> 's) res) \<Rightarrow> ('e \<Rightarrow> 's \<Rightarrow> ('v \<times> 's) res) \<Rightarrow> 'e \<Rightarrow> nat \<Rightarrow> ('k, 'v) Cyc_Dict_Dict \<Rightarrow> 's \<Rightarrow>
     (('k, 'v) Cyc_Dict_Dict \<times> 's) res" where
  "unmarshal_loop read_key read_val env 0 dict s = Inr (dict, s)"
| "unmarshal_loop read_key read_val env (Suc n) dict s =
     bind_res (read_key env s) (\<lambda>(key, s).
     bind_res (read_val env s) (\<lambda>(val, s).
     bind_res (Cyc_Dict_insert dict key val) (\<lambda>dict.
     unmarshal_loop read_key read_val env n dict s)))"

definition Cyc_Dict_unmarshal ::
    "('s \<Rightarrow> int \<times> 's) \<Rightarrow> 'e \<Rightarrow> ('k \<Rightarrow> 'k \<Rightarrow> int) \<Rightarrow> ('e \<Rightarrow> 's \<Rightarrow> ('k \<times> 's) res) \<Rightarrow> ('e \<Rightarrow> 's \<Rightarrow> ('v \<times> 's) res) \<Rightarrow>
     's \<Rightarrow> (('k, 'v) Cyc_Dict_Dict \<times> 's) res" where
  "Cyc_Dict_unmarshal getw env cmp read_key read_val s =
     (let dict = Cyc_Dict_empty cmp; (len, s) = getw s
      in if len = - 1 then Inl (Throw (Failure ''Dict::unmarshal: list length is -1''))
         else unmarshal_loop read_key read_val env (nat len) dict s)"

subsection \<open>The bindings of a tree\<close>

primrec inorder :: "('k, 'v) Cyc_Dict_T \<Rightarrow> ('k \<times> 'v) list" where
  "inorder Null = []"
| "inorder (T c l r kv) = inorder l @ kv # inorder r"

abbreviation ascending :: "('k \<Rightarrow> 'k \<Rightarrow> int) \<Rightarrow> ('k \<times> 'v) list \<Rightarrow> bool" where
  "ascending cmp \<equiv> sorted_wrt (\<lambda>p q. cmp (fst p) (fst q) < 0)"

definition entry :: "('k \<Rightarrow> 'k \<Rightarrow> int) \<Rightarrow> ('k \<times> 'v) list \<Rightarrow> 'k \<Rightarrow> ('k \<times> 'v) option" where
  "entry cmp xs k = List.find (\<lambda>p. cmp k (fst p) = 0) xs"

primrec ins_list :: "('k \<Rightarrow> 'k \<Rightarrow> int) \<Rightarrow> 'k \<times> 'v \<Rightarrow> ('k \<times> 'v) list \<Rightarrow> ('k \<times> 'v) list" where
  "ins_list cmp kv [] = [kv]"
| "ins_list cmp kv (p # ps) =
     (if cmp (fst kv) (fst p) < 0 then kv # p # ps
      else if cmp (fst kv) (fst p) > 0 then p # ins_list cmp kv ps else kv # ps)"

lemma red_simps [simp]: "red Null = False" "red (T c l r kv) = (c = R)"
  by (simp_all add: red_def)

lemma redE: "red t \<Longrightarrow> (\<And>l r kv. t = T R l r kv \<Longrightarrow> P) \<Longrightarrow> P"
  by (cases t) auto

lemma inorder_balance [simp]: "inorder (Cyc_Dict_balance (c, l, r, kv)) = inorder l @ kv # inorder r"
  by (auto simp: Cyc_Dict_balance_def elim!: redE)

lemma inorder_eq_Nil [simp]: "inorder t = [] \<longleftrightarrow> is_Null t"
  by (cases t) simp_all

lemma entry_simps [simp]:
  "entry cmp [] k = None" "entry cmp (p # ps) k = (if cmp k (fst p) = 0 then Some p else entry cmp ps k)"
  by (simp_all add: entry_def)

lemma entry_append: "entry cmp (xs @ ys) k = (case entry cmp xs k of None \<Rightarrow> entry cmp ys k | Some p \<Rightarrow> Some p)"
  by (induction xs) simp_all

lemma entry_None: "entry cmp xs k = None \<longleftrightarrow> (\<forall>p \<in> set xs. cmp k (fst p) \<noteq> 0)"
  by (induction xs) auto

lemma entry_in_set: "entry cmp xs k = Some p \<Longrightarrow> p \<in> set xs \<and> cmp k (fst p) = 0"
  by (induction xs) (auto split: if_splits)

lemma set_ins_list: "set (ins_list cmp kv xs) \<subseteq> insert kv (set xs)" "kv \<in> set (ins_list cmp kv xs)"
  by (induction xs) auto

lemma ins_list_front: "cmp (fst kv) (fst y) < 0 \<Longrightarrow> ins_list cmp kv (xs @ y # ys) = ins_list cmp kv xs @ y # ys"
  by (induction xs) auto

lemma ins_list_past: "\<forall>x \<in> set xs. cmp (fst kv) (fst x) > 0 \<Longrightarrow> ins_list cmp kv (xs @ ys) = xs @ ins_list cmp kv ys"
  by (induction xs) auto

context total_cmp
begin

lemma cmp_pos: "0 < cmp x y \<longleftrightarrow> cmp y x < 0"
  by (simp add: cmp_neg)

lemma ascending_ins_list: "ascending cmp xs \<Longrightarrow> ascending cmp (ins_list cmp kv xs)"
proof (induction xs)
  case (Cons p ps)
  consider (lt) "cmp (fst kv) (fst p) < 0" | (gt) "cmp (fst kv) (fst p) > 0" | (eq) "cmp (fst kv) (fst p) = 0" by linarith
  then show ?case
  proof cases
    case lt
    then show ?thesis using Cons.prems by (auto intro: cmp_less_trans)
  next
    case gt
    then have "cmp (fst p) (fst kv) < 0" by (simp add: cmp_neg)
    then show ?thesis using gt Cons set_ins_list(1) [of cmp kv ps] by auto
  next
    case eq
    then show ?thesis using Cons.prems cmp_cong_left by auto
  qed
qed simp

lemma entry_ins_list: "entry cmp (ins_list cmp kv xs) k = (if cmp k (fst kv) = 0 then Some kv else entry cmp xs k)"
proof (induction xs)
  case (Cons p ps)
  have "cmp k (fst p) \<noteq> 0" if "cmp k (fst kv) = 0" "cmp (fst kv) (fst p) \<noteq> 0"
    using that cmp_cong_left [of k "fst kv" "fst p"] by auto
  moreover have "cmp k (fst p) \<noteq> 0" if "cmp k (fst kv) \<noteq> 0" "cmp (fst kv) (fst p) = 0"
    using that cmp_cong_left [of "fst kv" "fst p" k] cmp_eq_sym by metis
  ultimately show ?case using Cons by auto
qed simp

lemma inorder_ins: "ascending cmp (inorder t) \<Longrightarrow> inorder (Cyc_Dict_ins cmp kv t) = ins_list cmp kv (inorder t)"
proof (induction t)
  case (T c l r y)
  from T.prems have s: "ascending cmp (inorder l)" "ascending cmp (inorder r)" "\<forall>x \<in> set (inorder l). cmp (fst x) (fst y) < 0"
    by (auto simp: sorted_wrt_append)
  consider (lt) "cmp (fst kv) (fst y) < 0" | (gt) "cmp (fst kv) (fst y) > 0" | (eq) "cmp (fst kv) (fst y) = 0" by linarith
  then show ?case
  proof cases
    case lt
    then show ?thesis using T.IH(1) [OF s(1)] by (simp add: Let_def ins_list_front)
  next
    case gt
    then have "\<forall>x \<in> set (inorder l). cmp (fst kv) (fst x) > 0"
      using s(3) cmp_pos cmp_less_trans by blast
    then show ?thesis using gt T.IH(2) [OF s(2)] by (simp add: Let_def ins_list_past)
  next
    case eq
    then have "\<forall>x \<in> set (inorder l). cmp (fst kv) (fst x) > 0"
      using s(3) cmp_less_le_trans cmp_eq_sym cmp_pos by (metis order_refl)
    then show ?thesis using eq by (simp add: Let_def ins_list_past)
  qed
qed simp

lemma find_node_entry:
  "ascending cmp (inorder t) \<Longrightarrow>
   entry cmp (inorder t) k = (case find_node cmp k t of Null \<Rightarrow> None | T c l r kv \<Rightarrow> Some kv)"
proof (induction t)
  case (T c l r y)
  from T.prems have s: "ascending cmp (inorder l)" "ascending cmp (inorder r)"
    "\<forall>x \<in> set (inorder l). cmp (fst x) (fst y) < 0" "\<forall>x \<in> set (inorder r). cmp (fst y) (fst x) < 0"
    by (auto simp: sorted_wrt_append)
  consider (lt) "cmp k (fst y) < 0" | (gt) "cmp k (fst y) > 0" | (eq) "cmp k (fst y) = 0" by linarith
  then show ?case
  proof cases
    case lt
    then have "entry cmp (inorder r) k = None"
      using s(4) cmp_less_trans unfolding entry_None by fastforce
    then show ?thesis using lt T.IH(1) [OF s(1)]
      by (simp add: entry_append Let_def split: Cyc_Dict_T.splits)
  next
    case gt
    then have "entry cmp (inorder l) k = None"
      using s(3) cmp_less_trans cmp_pos unfolding entry_None by (metis less_irrefl)
    then show ?thesis using gt T.IH(2) [OF s(2)] by (simp add: entry_append Let_def)
  next
    case eq
    then have "entry cmp (inorder l) k = None"
      using s(3) cmp_cong_left cmp_eq_sym unfolding entry_None by (metis cmp_less_le_trans less_irrefl order_refl)
    then show ?thesis using eq by (simp add: entry_append Let_def)
  qed
qed simp

end

subsection \<open>The red-black invariant\<close>

fun invc :: "('k, 'v) Cyc_Dict_T \<Rightarrow> bool" where
  "invc Null = True"
| "invc (T c l r kv) = ((c = R \<longrightarrow> \<not> red l \<and> \<not> red r) \<and> invc l \<and> invc r)"

text \<open>As \<open>invc\<close>, except that the root may be red over a red child.\<close>

fun invc2 :: "('k, 'v) Cyc_Dict_T \<Rightarrow> bool" where
  "invc2 Null = True"
| "invc2 (T c l r kv) = (invc l \<and> invc r)"

fun bheight :: "('k, 'v) Cyc_Dict_T \<Rightarrow> nat" where
  "bheight Null = 0"
| "bheight (T c l r kv) = (if c = B then bheight l + 1 else bheight l)"

fun invh :: "('k, 'v) Cyc_Dict_T \<Rightarrow> bool" where
  "invh Null = True"
| "invh (T c l r kv) = (bheight l = bheight r \<and> invh l \<and> invh r)"

definition rb :: "('k, 'v) Cyc_Dict_T \<Rightarrow> bool" where
  "rb t \<longleftrightarrow> invc t \<and> invh t \<and> \<not> red t"

lemma invc_invc2: "invc t \<Longrightarrow> invc2 t"
  by (cases t) auto

lemma balance_invh:
  assumes "invh l" "invh r" "bheight l = bheight r"
  shows "invh (Cyc_Dict_balance (c, l, r, kv)) \<and> bheight (Cyc_Dict_balance (c, l, r, kv)) = bheight (T c l r kv)"
  using assms by (auto simp: Cyc_Dict_balance_def elim!: redE)

lemma balance_invc_left: "invc2 l \<Longrightarrow> invc r \<Longrightarrow> invc (Cyc_Dict_balance (B, l, r, kv))"
  by (cases l) (auto simp: Cyc_Dict_balance_def elim!: redE)

lemma balance_invc_right: "invc l \<Longrightarrow> invc2 r \<Longrightarrow> invc (Cyc_Dict_balance (B, l, r, kv))"
  by (cases r) (auto simp: Cyc_Dict_balance_def elim!: redE)

lemma balance_R [simp]: "Cyc_Dict_balance (R, l, r, kv) = T R l r kv"
  by (simp add: Cyc_Dict_balance_def)

lemma ins_invh: "invh t \<Longrightarrow> invh (Cyc_Dict_ins cmp kv t) \<and> bheight (Cyc_Dict_ins cmp kv t) = bheight t"
  by (induction t) (auto simp: Let_def balance_invh)

lemma ins_invc: "invc t \<Longrightarrow> invc2 (Cyc_Dict_ins cmp kv t) \<and> (\<not> red t \<longrightarrow> invc (Cyc_Dict_ins cmp kv t))"
proof (induction t)
  case (T c l r y)
  then show ?case
    by (cases c) (auto simp: Let_def invc_invc2 intro: balance_invc_left balance_invc_right invc_invc2)
qed simp

lemma ins_not_Null: "\<not> is_Null (Cyc_Dict_ins cmp kv t)"
proof -
  have "\<not> is_Null (Cyc_Dict_balance q)" for q :: "Cyc_Dict_Color \<times> ('a, 'b) Cyc_Dict_T \<times> ('a, 'b) Cyc_Dict_T \<times> ('a \<times> 'b)"
    by (cases q) (simp add: Cyc_Dict_balance_def)
  then show ?thesis by (cases t) (simp_all add: Let_def)
qed

text \<open>Inserting makes the root black: colours, black heights and order are as they should be.\<close>

lemma set_black_ins:
  assumes "rb t"
  obtains t' where "set_black (Cyc_Dict_ins cmp kv t) = Inr t'" "rb t'" "inorder t' = inorder (Cyc_Dict_ins cmp kv t)"
proof -
  obtain c l r y where t: "Cyc_Dict_ins cmp kv t = T c l r y"
    using ins_not_Null [of cmp kv t] by (cases "Cyc_Dict_ins cmp kv t") auto
  have "invc2 (T c l r y)" "invh (T c l r y)"
    using assms ins_invc [of t cmp kv] ins_invh [of t cmp kv] unfolding rb_def t by auto
  then have "rb (T B l r y)" by (simp add: rb_def)
  then show ?thesis using that t by (simp add: set_black_def)
qed

primrec hgt :: "('k, 'v) Cyc_Dict_T \<Rightarrow> nat" where
  "hgt Null = 0"
| "hgt (T c l r kv) = Suc (max (hgt l) (hgt r))"

lemma hgt_bheight: "invc t \<Longrightarrow> invh t \<Longrightarrow> hgt t \<le> 2 * bheight t + (if red t then 1 else 0)"
proof (induction t)
  case (T c l r y)
  then show ?case by (cases c) (auto split: if_splits)
qed simp

lemma bheight_size: "invh t \<Longrightarrow> 2 ^ bheight t \<le> length (inorder t) + 1"
proof (induction t)
  case (T c l r y)
  then show ?case by (cases c) auto
qed simp

lemma spine_loop_add: "spine_loop t n = n + spine_loop t 0"
proof (induction t arbitrary: n)
  case (T c l r y)
  show ?case using T.IH(1) [of "n + 1"] T.IH(1) [of 1] by simp
qed simp

lemma bheight_spine: "bheight t \<le> spine_loop t 0"
proof (induction t)
  case (T c l r y)
  then show ?case using spine_loop_add [of l 1] by simp
qed simp

subsection \<open>Dictionaries as maps\<close>

definition dict_ok :: "('k, 'v) Cyc_Dict_Dict \<Rightarrow> bool" where
  "dict_ok d \<longleftrightarrow> total_cmp (rel d) \<and> ascending (rel d) (inorder (tree d)) \<and> rb (tree d)"

definition dmap :: "('k, 'v) Cyc_Dict_Dict \<Rightarrow> 'k \<Rightarrow> 'v option" where
  "dmap d k = map_option snd (entry (rel d) (inorder (tree d)) k)"

lemma dict_ok_empty [simp]: "total_cmp cmp \<Longrightarrow> dict_ok (Cyc_Dict_rempty r cmp)"
  by (simp add: dict_ok_def Cyc_Dict_rempty_def rb_def)

lemma rempty_sel [simp]:
  "rel (Cyc_Dict_rempty r cmp) = cmp" "tree (Cyc_Dict_rempty r cmp) = Null" "rgn (Cyc_Dict_rempty r cmp) = r"
  by (simp_all add: Cyc_Dict_rempty_def)

lemma lookup_dmap:
  assumes "dict_ok d"
  shows "Cyc_Dict_lookup d k = (case dmap d k of None \<Rightarrow> Inl (Throw Absent) | Some v \<Rightarrow> Inr v)"
    and "Cyc_Dict_member d k \<longleftrightarrow> dmap d k \<noteq> None"
    and "Cyc_Dict_lookup_opt d k = dmap d k"
  using total_cmp.find_node_entry [of "rel d" "tree d" k] assms
  unfolding dict_ok_def dmap_def Cyc_Dict_lookup_def Cyc_Dict_member_def Cyc_Dict_lookup_opt_def
  by (auto split: Cyc_Dict_T.splits)

lemma insert_ok:
  assumes "dict_ok d"
  obtains d' where "Cyc_Dict_insert d k v = Inr d'" "dict_ok d'" "rel d' = rel d" "rgn d' = rgn d"
    "inorder (tree d') = ins_list (rel d) (k, v) (inorder (tree d))"
proof -
  have c: "total_cmp (rel d)" and s: "ascending (rel d) (inorder (tree d))" and b: "rb (tree d)"
    using assms by (auto simp: dict_ok_def)
  obtain t where t: "set_black (Cyc_Dict_ins (rel d) (k, v) (tree d)) = Inr t" "rb t"
    "inorder t = inorder (Cyc_Dict_ins (rel d) (k, v) (tree d))"
    by (rule set_black_ins [OF b])
  have i: "inorder t = ins_list (rel d) (k, v) (inorder (tree d))"
    using t(3) total_cmp.inorder_ins [OF c s] by simp
  have "dict_ok \<lparr>rel = rel d, rgn = rgn d, tree = t\<rparr>"
    using c t(2) total_cmp.ascending_ins_list [OF c s, of "(k, v)"] by (simp add: dict_ok_def i)
  then show ?thesis using that t(1) i by (simp add: Cyc_Dict_insert_def)
qed

lemma insert_dmap:
  assumes "dict_ok d"
  obtains d' where "Cyc_Dict_insert d k v = Inr d'" "dict_ok d'" "rel d' = rel d" "rgn d' = rgn d"
    "\<And>k'. dmap d' k' = (if rel d k' k = 0 then Some v else dmap d k')"
proof -
  have c: "total_cmp (rel d)" using assms by (simp add: dict_ok_def)
  obtain d' where d': "Cyc_Dict_insert d k v = Inr d'" "dict_ok d'" "rel d' = rel d" "rgn d' = rgn d"
    "inorder (tree d') = ins_list (rel d) (k, v) (inorder (tree d))"
    by (rule insert_ok [OF assms])
  then have "dmap d' k' = (if rel d k' k = 0 then Some v else dmap d k')" for k'
    by (simp add: dmap_def total_cmp.entry_ins_list [OF c])
  then show ?thesis using that d' by blast
qed

subsection \<open>Folds visit the bindings in order\<close>

primrec fold_res :: "('k \<Rightarrow> 'v \<Rightarrow> 'a \<Rightarrow> 'a res) \<Rightarrow> ('k \<times> 'v) list \<Rightarrow> 'a \<Rightarrow> 'a res" where
  "fold_res f [] a = Inr a"
| "fold_res f (p # ps) a = bind_res (f (fst p) (snd p) a) (fold_res f ps)"

lemma fold_res_append: "fold_res f (xs @ ys) a = bind_res (fold_res f xs a) (\<lambda>a. fold_res f ys a)"
  by (induction xs arbitrary: a) (simp_all add: bind_res_def split: sum.split)

lemma fold_tree_eq: "\<not> is_Null t \<Longrightarrow> Cyc_Dict_fold_tree f t a = fold_res f (inorder t) a"
proof (induction t arbitrary: a)
  case (T c l r kv)
  have l: "(if is_Null l then Inr a else Cyc_Dict_fold_tree f l a) = fold_res f (inorder l) a" for a
    using T.IH(1) by (cases "is_Null l") (simp_all add: is_Null_def)
  have r: "(if is_Null r then Inr a else Cyc_Dict_fold_tree f r a) = fold_res f (inorder r) a" for a
    using T.IH(2) by (cases "is_Null r") (simp_all add: is_Null_def)
  show ?case by (simp add: l r fold_res_append)
qed simp

lemma tree_fold_variants:
  "Cyc_Dict_fold_tree_c f env t a = Cyc_Dict_fold_tree (f env) t a"
  "Cyc_Dict_iter_tree g t a = Cyc_Dict_fold_tree g t a"
  "Cyc_Dict_iter_tree_c f env t a = Cyc_Dict_fold_tree (f env) t a"
proof -
  show "Cyc_Dict_fold_tree_c f env t a = Cyc_Dict_fold_tree (f env) t a" by (induction t arbitrary: a) (simp_all cong: if_cong)
  show "Cyc_Dict_iter_tree g t a = Cyc_Dict_fold_tree g t a" by (induction t arbitrary: a) (simp_all cong: if_cong)
  show "Cyc_Dict_iter_tree_c f env t a = Cyc_Dict_fold_tree (f env) t a" by (induction t arbitrary: a) (simp_all cong: if_cong)
qed

lemma folds_eq:
  "Cyc_Dict_fold g d a = fold_res g (inorder (tree d)) a" "Cyc_Dict_fold_c f env d a = fold_res (f env) (inorder (tree d)) a"
  "Cyc_Dict_iter g d a = fold_res g (inorder (tree d)) a" "Cyc_Dict_iter_c f env d a = fold_res (f env) (inorder (tree d)) a"
proof -
  have H: "(if is_Null (tree d) then Inr a else Cyc_Dict_fold_tree h (tree d) a) = fold_res h (inorder (tree d)) a" for h
    using fold_tree_eq [of "tree d" h a] by (cases "is_Null (tree d)") (simp_all add: is_Null_def)
  show "Cyc_Dict_fold g d a = fold_res g (inorder (tree d)) a" "Cyc_Dict_fold_c f env d a = fold_res (f env) (inorder (tree d)) a"
    "Cyc_Dict_iter g d a = fold_res g (inorder (tree d)) a" "Cyc_Dict_iter_c f env d a = fold_res (f env) (inorder (tree d)) a"
    by (simp_all only: Cyc_Dict_fold_def Cyc_Dict_fold_c_def Cyc_Dict_iter_def Cyc_Dict_iter_c_def tree_fold_variants H)
qed

lemma fold_res_count: "fold_res (Cyc_Dict_count_elem ()) xs n = Inr (n + of_nat (length xs))"
  by (induction xs arbitrary: n) (simp_all add: Cyc_Dict_count_elem_def)

lemma cardinality_eq: "Cyc_Dict_cardinality d = Inr (of_nat (length (inorder (tree d))))"
  by (simp add: Cyc_Dict_cardinality_def folds_eq fold_res_count)

lemma fold_res_to_list: "fold_res (Cyc_Dict_to_list_f r) xs a = Inr (rev xs @ a)"
  by (induction xs arbitrary: a) (simp_all add: Cyc_Dict_to_list_f_def)

lemma rto_list_eq: "Cyc_Dict_rto_list r d = Inr (rev (inorder (tree d)))"
  by (simp add: Cyc_Dict_rto_list_def folds_eq fold_res_to_list)

text \<open>Inserting bindings in descending order puts them back.\<close>

lemma inserts_descending:
  assumes "dict_ok d" and "ascending (rel d) (rev xs @ inorder (tree d))"
  shows "\<exists>d'. Cyc_Dict_inserts d xs = Inr d' \<and> dict_ok d' \<and> rel d' = rel d \<and> inorder (tree d') = rev xs @ inorder (tree d)"
  using assms
proof (induction xs arbitrary: d)
  case (Cons p ps)
  obtain d1 where d1: "Cyc_Dict_insert d (fst p) (snd p) = Inr d1" "dict_ok d1" "rel d1 = rel d"
    "inorder (tree d1) = ins_list (rel d) (fst p, snd p) (inorder (tree d))"
    by (rule insert_ok [OF Cons.prems(1)])
  have "ins_list (rel d) p (inorder (tree d)) = p # inorder (tree d)"
    using Cons.prems(2) by (cases "inorder (tree d)") (auto simp: sorted_wrt_append simp del: inorder_eq_Nil)
  then have i: "inorder (tree d1) = p # inorder (tree d)" using d1(4) by simp
  then have "ascending (rel d1) (rev ps @ inorder (tree d1))" using Cons.prems(2) d1(3) by simp
  from Cons.IH [OF d1(2) this] show ?case using d1(1,3) i by auto
qed auto

subsection \<open>Filters and deletion\<close>

lemma filter_fold:
  assumes "dict_ok acc" and "ascending (rel acc) (inorder (tree acc) @ xs)"
    and f: "\<And>x y. f e x y = Inr (g x y)"
  shows "\<exists>d'. fold_res (Cyc_Dict_filter_c_f (f, e, r)) xs acc = Inr d' \<and> dict_ok d' \<and> rel d' = rel acc \<and> rgn d' = rgn acc
     \<and> inorder (tree d') = inorder (tree acc) @ filter (\<lambda>p. g (fst p) (snd p)) xs"
  using assms(1,2)
proof (induction xs arbitrary: acc)
  case (Cons p ps)
  show ?case
  proof (cases "g (fst p) (snd p)")
    case True
    obtain d1 where d1: "Cyc_Dict_insert acc (fst p) (snd p) = Inr d1" "dict_ok d1" "rel d1 = rel acc" "rgn d1 = rgn acc"
      "inorder (tree d1) = ins_list (rel acc) (fst p, snd p) (inorder (tree acc))"
      by (rule insert_ok [OF Cons.prems(1)])
    have "\<forall>x \<in> set (inorder (tree acc)). rel acc (fst p) (fst x) > 0"
      using Cons.prems(1,2) total_cmp.cmp_neg unfolding dict_ok_def by (fastforce simp: sorted_wrt_append)
    then have i: "inorder (tree d1) = inorder (tree acc) @ [p]"
      using d1(5) ins_list_past [of "inorder (tree acc)" "rel acc" p "[]"] by simp
    have "ascending (rel d1) (inorder (tree d1) @ ps)" using Cons.prems(2) d1(3) i by simp
    from Cons.IH [OF d1(2) this] show ?thesis using True d1(1,3,4) i f by (auto simp: Cyc_Dict_filter_c_f_def)
  next
    case False
    have "ascending (rel acc) (inorder (tree acc) @ ps)" using Cons.prems(2) by (simp add: sorted_wrt_append)
    from Cons.IH [OF Cons.prems(1) this] show ?thesis using False f by (auto simp: Cyc_Dict_filter_c_f_def)
  qed
qed auto

lemma rfilter_c_ok:
  assumes "dict_ok d" and "\<And>x y. f e x y = Inr (g x y)"
  shows "\<exists>d'. Cyc_Dict_rfilter_c r f e d = Inr d' \<and> dict_ok d' \<and> rel d' = rel d \<and> rgn d' = r
     \<and> inorder (tree d') = filter (\<lambda>p. g (fst p) (snd p)) (inorder (tree d))"
  using filter_fold [of "Cyc_Dict_rempty r (rel d)" "inorder (tree d)" f e g r] assms
  by (auto simp: Cyc_Dict_rfilter_c_def folds_eq dict_ok_def rb_def)

lemma entry_filter:
  assumes "total_cmp cmp" and "ascending cmp xs"
  shows "entry cmp (filter P xs) k = (case entry cmp xs k of Some p \<Rightarrow> if P p then Some p else None | None \<Rightarrow> None)"
  using assms(2)
proof (induction xs)
  case (Cons p ps)
  have "entry cmp ps k = None" if "cmp k (fst p) = 0"
    using that Cons.prems total_cmp.cmp_cong_left [OF assms(1) that] unfolding entry_None by fastforce
  then show ?case using Cons by (auto split: option.splits)
qed simp

lemma copy_tree_id [simp]: "Cyc_Dict_copy_tree r t = t"
  by (induction t) simp_all

lemma rdelete_ok:
  assumes "dict_ok d"
  shows "\<exists>d'. Cyc_Dict_rdelete r d x = Inr d' \<and> dict_ok d' \<and> rel d' = rel d \<and> rgn d' = r
     \<and> (\<forall>k. dmap d' k = (if rel d k x = 0 then None else dmap d k))"
proof (cases "Cyc_Dict_member d x")
  case False
  have c: "total_cmp (rel d)" using assms by (simp add: dict_ok_def)
  have "dmap d k = None" if "rel d k x = 0" for k
    using False total_cmp.cmp_cong_left [OF c that] unfolding lookup_dmap(2) [OF assms] dmap_def
    by (auto simp: entry_None)
  then show ?thesis using False assms
    by (auto simp: Cyc_Dict_rdelete_def Cyc_Dict_rcopy_def dict_ok_def dmap_def)
next
  case True
  have c: "total_cmp (rel d)" and s: "ascending (rel d) (inorder (tree d))" using assms by (auto simp: dict_ok_def)
  obtain d' where d': "Cyc_Dict_rfilter_c r Cyc_Dict_delete_f (rel d, x) d = Inr d'" "dict_ok d'" "rel d' = rel d" "rgn d' = r"
    "inorder (tree d') = filter (\<lambda>p. rel d x (fst p) \<noteq> 0) (inorder (tree d))"
    using rfilter_c_ok [OF assms, of Cyc_Dict_delete_f "(rel d, x)" "\<lambda>k v. rel d x k \<noteq> 0" r]
    by (auto simp: Cyc_Dict_delete_f_def)
  have "dmap d' k = (if rel d k x = 0 then None else dmap d k)" for k
  proof (cases "entry (rel d) (inorder (tree d)) k")
    case (Some p)
    then have "rel d k (fst p) = 0" by (auto dest: entry_in_set)
    then have "rel d x (fst p) = 0 \<longleftrightarrow> rel d k x = 0"
      using total_cmp.cmp_cong_left [OF c] total_cmp.cmp_eq_sym [OF c] by metis
    then show ?thesis using Some d'(3,5) by (simp add: dmap_def entry_filter [OF c s])
  qed (simp add: dmap_def d'(3,5) entry_filter [OF c s])
  then show ?thesis using True d' by (auto simp: Cyc_Dict_rdelete_def)
qed

subsection \<open>Stacks in arrays\<close>

primrec preorder :: "('k, 'v) Cyc_Dict_T \<Rightarrow> ('k \<times> 'v) list" where
  "preorder Null = []"
| "preorder (T c l r kv) = kv # preorder r @ preorder l"

lemma mset_preorder: "mset (preorder t) = mset (inorder t)"
  by (induction t) simp_all

text \<open>The nodes on the stack, top first; \<open>children\<close> are the nodes a step pushes.\<close>

definition stack_list :: "('k, 'v) dict_stack \<Rightarrow> ('k, 'v) Cyc_Dict_T list \<Rightarrow> bool" where
  "stack_list stk ts \<longleftrightarrow> snd stk = int (length ts) - 1 \<and> length ts \<le> length (fst stk) \<and> take (length ts) (fst stk) = rev ts"

definition children :: "('k, 'v) Cyc_Dict_T \<Rightarrow> ('k, 'v) Cyc_Dict_T \<Rightarrow> ('k, 'v) Cyc_Dict_T list" where
  "children l r = (if is_Null r then [] else [r]) @ (if is_Null l then [] else [l])"

lemma stack_list_top:
  assumes "stack_list (st, ind) (t # ts)"
  shows "arr_get st ind = Inr t" and "stack_list (st, ind - 1) ts"
proof -
  have n: "ind = int (length ts)" "length ts < length st" and tk: "take (Suc (length ts)) st = rev ts @ [t]"
    using assms by (auto simp: stack_list_def)
  have "st ! length ts = (rev ts @ [t]) ! length ts" using tk nth_take [of "length ts" "Suc (length ts)" st] by simp
  then show "arr_get st ind = Inr t" using n by (simp add: arr_get_def nth_append)
  have "take (length ts) st = take (length ts) (take (Suc (length ts)) st)" by simp
  then show "stack_list (st, ind - 1) ts" unfolding tk using n by (simp add: stack_list_def)
qed

lemma stack_list_push:
  assumes "stack_list (st, ind) ts" and "\<not> is_Null t \<Longrightarrow> length ts < length st"
  shows "\<exists>st' ind'. push_node t (st, ind) = Inr (st', ind') \<and> length st' = length st
     \<and> stack_list (st', ind') (if is_Null t then ts else t # ts)"
proof (cases "is_Null t")
  case True
  then show ?thesis using assms(1) by (simp add: push_node_def)
next
  case False
  have i: "ind = int (length ts) - 1" "take (length ts) st = rev ts" "length ts < length st"
    using assms False by (auto simp: stack_list_def)
  then have "take (Suc (length ts)) (st[length ts := t]) = rev ts @ [t]"
    by (simp add: take_Suc_conv_app_nth)
  then have "stack_list (st[length ts := t], ind + 1) (t # ts)" using i by (simp add: stack_list_def)
  then show ?thesis using False i by (simp add: push_node_def arr_set_def)
qed

lemma stack_list_push2:
  assumes "stack_list (st, ind) ts" and "length (children l r @ ts) \<le> length st"
  shows "\<exists>st' ind'. bind_res (push_node l (st, ind)) (push_node r) = Inr (st', ind') \<and> length st' = length st
     \<and> stack_list (st', ind') (children l r @ ts)"
proof -
  have "length ts < length st" if "\<not> is_Null l" using that assms(2) by (simp add: children_def split: if_splits)
  from stack_list_push [OF assms(1) this] obtain st1 ind1 where
    1: "push_node l (st, ind) = Inr (st1, ind1)" "length st1 = length st" "stack_list (st1, ind1) (if is_Null l then ts else l # ts)"
    by blast
  have "length (if is_Null l then ts else l # ts) < length st1" if "\<not> is_Null r"
    using that assms(2) 1(2) by (simp add: children_def split: if_splits)
  from stack_list_push [OF 1(3) this] obtain st2 ind2 where
    "push_node r (st1, ind1) = Inr (st2, ind2)" "length st2 = length st1"
    "stack_list (st2, ind2) (if is_Null r then (if is_Null l then ts else l # ts) else r # (if is_Null l then ts else l # ts))"
    by blast
  then show ?thesis using 1 by (auto simp: children_def split: if_splits)
qed

lemma preorder_children: "concat (map preorder (children l r)) = preorder r @ preorder l"
  by (auto simp: children_def is_Null_def)

subsection \<open>The iterator\<close>

text \<open>Room for the nodes on the stack and for all that will be pushed above each of them.\<close>

fun fits :: "nat \<Rightarrow> ('k, 'v) Cyc_Dict_T list \<Rightarrow> bool" where
  "fits cap [] = True"
| "fits cap (t # ts) = (\<not> is_Null t \<and> length ts + hgt t \<le> cap \<and> fits cap ts)"

lemma fits_length: "fits cap ts \<Longrightarrow> length ts \<le> cap"
proof (cases ts)
  case (Cons t us)
  moreover assume "fits cap ts"
  ultimately show ?thesis by (cases t) auto
qed simp

lemma fits_children: "fits cap (T c l r kv # ts) \<Longrightarrow> fits cap (children l r @ ts)"
  by (auto simp: children_def)

lemma iter_f_step:
  assumes "stack_list stk (T c l r kv # ts)" and "fits (length (fst stk)) (T c l r kv # ts)"
  shows "\<exists>stk'. Cyc_Dict_iter_f stk = Inr (Some kv, stk') \<and> length (fst stk') = length (fst stk)
     \<and> stack_list stk' (children l r @ ts) \<and> fits (length (fst stk')) (children l r @ ts)"
proof -
  obtain st ind where stk: "stk = (st, ind)" by fastforce
  note top = stack_list_top [OF assms(1) [unfolded stk]]
  have f: "fits (length st) (children l r @ ts)" using fits_children assms(2) stk by fastforce
  obtain st' ind' where p: "bind_res (push_node l (st, ind - 1)) (push_node r) = Inr (st', ind')" "length st' = length st"
    "stack_list (st', ind') (children l r @ ts)"
    using stack_list_push2 [OF top(2) fits_length [OF f]] by blast
  have "ind \<noteq> - 1" using assms(1) stk by (simp add: stack_list_def)
  moreover have "bind_res (push_node l (st, ind - 1)) (\<lambda>si. bind_res (push_node r si) (\<lambda>si. Inr (Some kv, si))) = Inr (Some kv, st', ind')"
    using p(1) by (simp add: bind_res_eq_Inr)
  ultimately have "Cyc_Dict_iter_f stk = Inr (Some kv, st', ind')"
    using top(1) by (simp add: Cyc_Dict_iter_f_def stk)
  then show ?thesis using p f stk by auto
qed

text \<open>\<open>n\<close> calls of the iterator that return something.\<close>

primrec iter_run :: "nat \<Rightarrow> ('k, 'v) dict_stack \<Rightarrow> (('k \<times> 'v) list \<times> ('k, 'v) dict_stack) res" where
  "iter_run 0 stk = Inr ([], stk)"
| "iter_run (Suc n) stk =
     bind_res (Cyc_Dict_iter_f stk) (\<lambda>(x, stk).
       case x of None \<Rightarrow> Inr ([], stk)
       | Some kv \<Rightarrow> bind_res (iter_run n stk) (\<lambda>(xs, stk). Inr (kv # xs, stk)))"

lemma iter_run_stack:
  assumes "stack_list stk ts" and "fits (length (fst stk)) ts" and "n = length (concat (map preorder ts))"
  shows "\<exists>stk'. iter_run n stk = Inr (concat (map preorder ts), stk') \<and> stack_list stk' []"
  using assms
proof (induction n arbitrary: stk ts)
  case 0
  have "ts = []"
  proof (cases ts)
    case (Cons t us)
    then show ?thesis using 0 by (cases t) auto
  qed simp
  then show ?case using 0 by auto
next
  case (Suc n)
  obtain t us where ts: "ts = t # us" using Suc.prems(3) by (cases ts) auto
  obtain c l r kv where t: "t = T c l r kv" using Suc.prems(2) ts by (cases t) auto
  obtain stk1 where s: "Cyc_Dict_iter_f stk = Inr (Some kv, stk1)" "stack_list stk1 (children l r @ us)"
    "fits (length (fst stk1)) (children l r @ us)"
    using iter_f_step [of stk c l r kv us] Suc.prems(1,2) ts t by auto
  have n: "n = length (concat (map preorder (children l r @ us)))"
    using Suc.prems(3) preorder_children [of l r] unfolding ts t map_append concat_append by simp
  from Suc.IH [OF s(2,3) n] obtain stk2 where "iter_run n stk1 = Inr (concat (map preorder (children l r @ us)), stk2)" "stack_list stk2 []"
    by blast
  then show ?case using s(1) preorder_children [of l r] unfolding ts t map_append concat_append by simp
qed

lemma make_iter_stack:
  assumes "rb (tree d)"
  defines "ts \<equiv> if is_Null (tree d) then [] else [tree d]"
  shows "stack_list (Cyc_Dict_make_iter d) ts" and "fits (length (fst (Cyc_Dict_make_iter d))) ts"
proof -
  let ?t = "tree d"
  have len: "length (fst (Cyc_Dict_make_iter d)) = 2 * (1 + spine_loop ?t 0)"
    using spine_loop_add [of ?t 1] by (simp add: Cyc_Dict_make_iter_def Let_def)
  have "hgt ?t \<le> 2 * bheight ?t" using hgt_bheight [of ?t] assms(1) by (simp add: rb_def)
  then have "hgt ?t \<le> length (fst (Cyc_Dict_make_iter d))" using bheight_spine [of ?t] len by simp
  then show "fits (length (fst (Cyc_Dict_make_iter d))) ts" by (simp add: ts_def)
  show "stack_list (Cyc_Dict_make_iter d) ts"
    using len by (auto simp: ts_def stack_list_def Cyc_Dict_make_iter_def Let_def take_Suc)
qed

subsection \<open>Keys that differ\<close>

abbreviation distinct_keys :: "('k \<Rightarrow> 'k \<Rightarrow> int) \<Rightarrow> ('k \<times> 'v) list \<Rightarrow> bool" where
  "distinct_keys cmp \<equiv> sorted_wrt (\<lambda>p q. cmp (fst p) (fst q) \<noteq> 0)"

lemma set_preorder: "set (preorder t) = set (inorder t)"
  by (induction t) auto

lemma ascending_distinct: "ascending cmp xs \<Longrightarrow> distinct_keys cmp xs"
  by (induction xs) auto

context total_cmp
begin

lemma distinct_keys_entry:
  assumes "distinct_keys cmp (p # ps)" and "cmp k (fst p) = 0"
  shows "entry cmp ps k = None"
proof -
  have "cmp k (fst q) \<noteq> 0" if "q \<in> set ps" for q
    using that assms cmp_cong_left [OF assms(2), of "fst q"] by auto
  then show ?thesis by (simp add: entry_None)
qed

lemma entry_unique: "distinct_keys cmp ps \<Longrightarrow> entry cmp ps k = Some p \<longleftrightarrow> p \<in> set ps \<and> cmp k (fst p) = 0"
proof (induction ps)
  case (Cons q ps)
  show ?case
  proof (cases "cmp k (fst q) = 0")
    case True
    then have "\<forall>p \<in> set ps. cmp k (fst p) \<noteq> 0" using distinct_keys_entry [OF Cons.prems] by (simp add: entry_None)
    then show ?thesis using True by auto
  next
    case False
    then show ?thesis using Cons by auto
  qed
qed simp

lemma distinct_preorder: "ascending cmp (inorder t) \<Longrightarrow> distinct_keys cmp (preorder t)"
proof (induction t)
  case (T c l r y)
  have lt: "cmp a b \<noteq> 0 \<and> cmp b a \<noteq> 0" if "cmp a b < 0" for a b using that cmp_neg by (metis less_irrefl)
  have "cmp (fst a) (fst b) < 0" if "a \<in> set (inorder l)" "b \<in> set (inorder r)" for a b
    using that T.prems by (auto simp: sorted_wrt_append)
  then show ?case using T lt by (auto simp: sorted_wrt_append set_preorder)
qed simp

lemma entry_preorder: "ascending cmp (inorder t) \<Longrightarrow> entry cmp (preorder t) k = entry cmp (inorder t) k"
  using entry_unique [OF distinct_preorder] entry_unique [OF ascending_distinct]
  by (metis not_None_eq set_preorder)

lemma entry_cong: "cmp k k' = 0 \<Longrightarrow> entry cmp xs k = entry cmp xs k'"
  using cmp_cong_left [of k k'] by (induction xs) auto

end

lemma dmap_cong: "dict_ok d \<Longrightarrow> rel d k k' = 0 \<Longrightarrow> dmap d k = dmap d k'"
  by (simp add: dmap_def dict_ok_def total_cmp.entry_cong [of "rel d" k k'])

subsection \<open>Union\<close>

lemma union_step:
  assumes "dict_ok acc" and "\<And>k a b. f e k a b = Inr (g k a b)"
  shows "\<exists>d'. Cyc_Dict_union_f (f, e) a b acc = Inr d' \<and> dict_ok d' \<and> rel d' = rel acc
     \<and> (\<forall>k. dmap d' k = (if rel acc k a = 0 then Some (case dmap acc a of None \<Rightarrow> b | Some v \<Rightarrow> g a v b) else dmap acc k))"
proof (cases "dmap acc a")
  case None
  obtain d' where "Cyc_Dict_insert acc a b = Inr d'" "dict_ok d'" "rel d' = rel acc"
    "\<And>k'. dmap d' k' = (if rel acc k' a = 0 then Some b else dmap acc k')"
    using insert_dmap [OF assms(1), of a b] by blast
  then show ?thesis using None by (simp add: Cyc_Dict_union_f_def lookup_dmap [OF assms(1)])
next
  case (Some v)
  obtain d' where d': "Cyc_Dict_insert acc a (g a v b) = Inr d'" "dict_ok d'" "rel d' = rel acc"
    "\<And>k'. dmap d' k' = (if rel acc k' a = 0 then Some (g a v b) else dmap acc k')"
    using insert_dmap [OF assms(1), of a "g a v b"] by blast
  show ?thesis
  proof (cases "g a v b = v")
    case True
    then have "Cyc_Dict_union_f (f, e) a b acc = Inr acc"
      using Some assms(2) by (simp add: Cyc_Dict_union_f_def lookup_dmap [OF assms(1)])
    then show ?thesis using True Some assms(1) dmap_cong [OF assms(1), of _ a] by (auto intro!: exI [of _ acc])
  next
    case False
    then show ?thesis using Some d' assms(2) by (auto simp: Cyc_Dict_union_f_def lookup_dmap [OF assms(1)])
  qed
qed

lemma union_fold:
  assumes "dict_ok acc" and f: "\<And>k a b. f e k a b = Inr (g k a b)" and "distinct_keys (rel acc) ps"
  shows "\<exists>d'. fold_res (Cyc_Dict_union_f (f, e)) ps acc = Inr d' \<and> dict_ok d' \<and> rel d' = rel acc
     \<and> (\<forall>k. dmap d' k = (case entry (rel acc) ps k of None \<Rightarrow> dmap acc k
          | Some p \<Rightarrow> Some (case dmap acc k of None \<Rightarrow> snd p | Some v \<Rightarrow> g (fst p) v (snd p))))"
  using assms(1,3)
proof (induction ps arbitrary: acc)
  case (Cons p ps)
  have c: "total_cmp (rel acc)" using Cons.prems(1) by (simp add: dict_ok_def)
  obtain d1 where d1: "Cyc_Dict_union_f (f, e) (fst p) (snd p) acc = Inr d1" "dict_ok d1" "rel d1 = rel acc"
    "\<forall>k. dmap d1 k = (if rel acc k (fst p) = 0
        then Some (case dmap acc (fst p) of None \<Rightarrow> snd p | Some v \<Rightarrow> g (fst p) v (snd p)) else dmap acc k)"
    using union_step [where f = f and e = e and g = g, OF Cons.prems(1) f] by blast
  have "distinct_keys (rel d1) ps" using Cons.prems(2) d1(3) by simp
  from Cons.IH [OF d1(2) this] obtain d' where d': "fold_res (Cyc_Dict_union_f (f, e)) ps d1 = Inr d'" "dict_ok d'"
    "rel d' = rel acc" "\<forall>k. dmap d' k = (case entry (rel acc) ps k of None \<Rightarrow> dmap d1 k
          | Some p \<Rightarrow> Some (case dmap d1 k of None \<Rightarrow> snd p | Some v \<Rightarrow> g (fst p) v (snd p)))"
    using d1(3) by auto
  have "dmap d' k = (case entry (rel acc) (p # ps) k of None \<Rightarrow> dmap acc k
          | Some p \<Rightarrow> Some (case dmap acc k of None \<Rightarrow> snd p | Some v \<Rightarrow> g (fst p) v (snd p)))" for k
  proof (cases "rel acc k (fst p) = 0")
    case True
    then show ?thesis
      using d'(4) d1(4) total_cmp.distinct_keys_entry [OF c Cons.prems(2) True] dmap_cong [OF Cons.prems(1) True] by simp
  next
    case False
    then have "dmap d1 k = dmap acc k" using d1(4) by simp
    then show ?thesis using False by (simp add: d'(4) split: option.split)
  qed
  then show ?case using d1(1) d'(1-3) by auto
qed auto

subsection \<open>Intersection\<close>

definition isect_ins ::
    "('k \<Rightarrow> 'k \<Rightarrow> int) \<Rightarrow> ('k \<Rightarrow> 'v \<Rightarrow> 'v \<Rightarrow> 'v) \<Rightarrow> ('k, 'v) Cyc_Dict_Dict \<Rightarrow> 'k \<times> 'v \<Rightarrow> ('k, 'v) Cyc_Dict_T \<Rightarrow> ('k, 'v) Cyc_Dict_T" where
  "isect_ins cmp g d1 p ans =
     (case dmap d1 (fst p) of None \<Rightarrow> ans | Some v1 \<Rightarrow> Cyc_Dict_ins cmp (fst p, g (fst p) v1 (snd p)) ans)"

lemma intersect_step_stack:
  assumes "dict_ok d1" and f: "\<And>k a b. f e k a b = Inr (g k a b)"
    and st: "stack_list (queue, ind) (T c l r p # ts)"
  shows "\<exists>queue' ind'. intersect_step f e d1 d2 queue ind ans = Inr (queue', ind', isect_ins (rel d2) g d1 p ans)
     \<and> stack_list (queue', ind') (children l r @ ts)"
proof -
  obtain k v where p: "p = (k, v)" by fastforce
  note top = stack_list_top [OF st]
  have n: "length ts < length queue" "ind - 1 = int (length ts) - 1" using st by (auto simp: stack_list_def)
  define q where "q = (if ind - 1 + 2 \<ge> int (length queue) then queue @ replicate (length queue) (tree d2) else queue)"
  have q: "stack_list (q, ind - 1) ts" "length ts + 2 \<le> length q"
    using top(2) n by (auto simp: q_def stack_list_def)
  have "length (children l r @ ts) \<le> length q" using q(2) by (simp add: children_def)
  from stack_list_push2 [OF q(1) this] obtain q' ind' where
    b: "bind_res (push_node l (q, ind - 1)) (push_node r) = Inr (q', ind')" "stack_list (q', ind') (children l r @ ts)" by blast
  have "intersect_step f e d1 d2 queue ind ans = bind_res (bind_res (push_node l (q, ind - 1)) (push_node r)) (\<lambda>(queue, ind).
      if Cyc_Dict_member d1 k
      then bind_res (Cyc_Dict_lookup d1 k) (\<lambda>v1.
           bind_res (f e k v1 v) (\<lambda>v. Inr (queue, ind, Cyc_Dict_ins (rel d2) (k, v) ans)))
      else Inr (queue, ind, ans))"
    unfolding intersect_step_def top(1) bind_res_Inr p by (simp add: q_def Let_def bind_res_assoc)
  then show ?thesis
    using b p by (auto simp: lookup_dmap [OF assms(1)] f isect_ins_def split: option.split)
qed

lemma intersect_loop_stack:
  assumes "dict_ok d1" and f: "\<And>k a b. f e k a b = Inr (g k a b)"
    and "stack_list (queue, ind) ts" and "\<forall>t \<in> set ts. \<not> is_Null t"
  shows "intersect_loop f e d1 d2 queue ind ans = Some (Inr (fold (isect_ins (rel d2) g d1) (concat (map preorder ts)) ans))"
  using assms(3,4)
proof (induction "length (concat (map preorder ts))" arbitrary: queue ind ts ans)
  case 0
  have "ts = []"
  proof (cases ts)
    case (Cons t us)
    then show ?thesis using 0 by (cases t) auto
  qed simp
  then show ?case using 0(2) by (subst intersect_loop.simps) (simp add: stack_list_def)
next
  case (Suc n)
  obtain t us where ts: "ts = t # us" using Suc.hyps(2) by (cases ts) auto
  obtain c l r p where t: "t = T c l r p" using Suc.prems(2) ts by (cases t) auto
  obtain queue' ind' where s: "intersect_step f e d1 d2 queue ind ans = Inr (queue', ind', isect_ins (rel d2) g d1 p ans)"
    "stack_list (queue', ind') (children l r @ us)"
    using intersect_step_stack [where f = f and e = e and g = g, OF assms(1) f Suc.prems(1) [unfolded ts t]] by blast
  have pre: "concat (map preorder ts) = p # concat (map preorder (children l r @ us))"
    using preorder_children [of l r] unfolding ts t map_append concat_append by simp
  have "\<forall>t \<in> set (children l r @ us). \<not> is_Null t" using Suc.prems(2) ts by (auto simp: children_def split: if_splits)
  from Suc.hyps(1) [OF _ s(2) this] have "intersect_loop f e d1 d2 queue' ind' (isect_ins (rel d2) g d1 p ans)
    = Some (Inr (fold (isect_ins (rel d2) g d1) (concat (map preorder (children l r @ us))) (isect_ins (rel d2) g d1 p ans)))"
    using Suc.hyps(2) pre by simp
  moreover have "ind \<noteq> - 1" using Suc.prems(1) ts by (simp add: stack_list_def)
  ultimately show ?case using s(1) pre by (subst intersect_loop.simps) simp
qed

lemma isect_fold:
  assumes c: "total_cmp cmp" and "ascending cmp (inorder ans)" and "distinct_keys cmp ps"
  shows "ascending cmp (inorder (fold (isect_ins cmp g d1) ps ans))
     \<and> (\<forall>k. entry cmp (inorder (fold (isect_ins cmp g d1) ps ans)) k =
          (case Option.bind (entry cmp ps k) (\<lambda>p. map_option (\<lambda>v. (fst p, g (fst p) v (snd p))) (dmap d1 (fst p))) of
             None \<Rightarrow> entry cmp (inorder ans) k | Some q \<Rightarrow> Some q))"
  using assms(2,3)
proof (induction ps arbitrary: ans)
  case (Cons p ps)
  let ?a = "isect_ins cmp g d1 p ans"
  have a: "ascending cmp (inorder ?a)"
    using Cons.prems(1) total_cmp.inorder_ins [OF c Cons.prems(1)] total_cmp.ascending_ins_list [OF c Cons.prems(1)]
    by (auto simp: isect_ins_def split: option.split)
  have e: "entry cmp (inorder ?a) k = (case dmap d1 (fst p) of None \<Rightarrow> entry cmp (inorder ans) k
      | Some v \<Rightarrow> if cmp k (fst p) = 0 then Some (fst p, g (fst p) v (snd p)) else entry cmp (inorder ans) k)" for k
    using total_cmp.inorder_ins [OF c Cons.prems(1)]
    by (auto simp: isect_ins_def total_cmp.entry_ins_list [OF c] split: option.split)
  have "entry cmp ps k = None" if "cmp k (fst p) = 0" for k
    by (rule total_cmp.distinct_keys_entry [OF c Cons.prems(2) that])
  then show ?case using Cons.IH [OF a] Cons.prems(2) by (auto simp: e split: option.splits)
qed simp

subsection \<open>Properties\<close>

declare intersect_loop.simps [code]

text \<open>C26: inserting into a well-formed dictionary gives a well-formed dictionary (ordered, no red node
  with a red child, equal black heights, black root) in which the key has the new value and every
  key that differs keeps its own.\<close>

theorem dict_insert_correct:
  assumes "dict_ok d"
  shows "\<exists>d'. Cyc_Dict_insert d k v = Inr d' \<and> dict_ok d'
     \<and> (\<forall>k'. Cyc_Dict_lookup d' k' = (if rel d k' k = 0 then Inr v else Cyc_Dict_lookup d k'))"
proof -
  obtain d' where d': "Cyc_Dict_insert d k v = Inr d'" "dict_ok d'"
    "\<And>k'. dmap d' k' = (if rel d k' k = 0 then Some v else dmap d k')"
    using insert_dmap [OF assms, of k v] by blast
  then show ?thesis using assms by (auto simp: lookup_dmap)
qed

theorem dict_insert_correct_witness:
  "\<exists>d. Cyc_Dict_insert (Cyc_Dict_empty Cyc_Core_ptrcmp) 4096 (7 :: nat) = Inr d \<and> dict_ok d
     \<and> Cyc_Dict_lookup d 4096 = Inr 7 \<and> Cyc_Dict_lookup d 8192 = Inl (Throw Absent)"
proof -
  have "dict_ok (Cyc_Dict_empty Cyc_Core_ptrcmp :: (ptr, nat) Cyc_Dict_Dict)"
    by (simp add: Cyc_Dict_empty_def ptrcmp.total_cmp_axioms)
  from dict_insert_correct [OF this, of 4096 7] obtain d where
    "Cyc_Dict_insert (Cyc_Dict_empty Cyc_Core_ptrcmp) 4096 (7 :: nat) = Inr d" "dict_ok d"
    "\<forall>k'. Cyc_Dict_lookup d k' = (if Cyc_Core_ptrcmp k' 4096 = 0 then Inr 7 else Inl (Throw Absent))"
    by (auto simp: Cyc_Dict_empty_def Cyc_Dict_lookup_def)
  then show ?thesis by (auto simp: Cyc_Core_ptrcmp_def)
qed

lemma inserts_ok:
  "dict_ok d \<Longrightarrow> \<exists>d'. Cyc_Dict_inserts d kvs = Inr d' \<and> dict_ok d' \<and> rel d' = rel d
     \<and> length (inorder (tree d')) \<le> length (inorder (tree d)) + length kvs"
proof (induction kvs arbitrary: d)
  case (Cons p ps)
  obtain d1 where d1: "Cyc_Dict_insert d (fst p) (snd p) = Inr d1" "dict_ok d1" "rel d1 = rel d"
    "inorder (tree d1) = ins_list (rel d) (fst p, snd p) (inorder (tree d))"
    using insert_ok [OF Cons.prems, of "fst p" "snd p"] by blast
  have "length (ins_list cmp kv xs) \<le> Suc (length xs)" for cmp kv and xs :: "('a \<times> 'b) list"
    by (induction xs) auto
  then have "length (inorder (tree d1)) \<le> Suc (length (inorder (tree d)))" using d1(4) by simp
  then show ?case using Cons.IH [OF d1(2)] d1(1,3) by auto
qed auto

text \<open>C27: a dictionary built by any sequence of insertions is balanced: its height is at most twice
  the logarithm of the number of insertions plus one.\<close>

theorem dict_inserts_balanced:
  assumes "total_cmp cmp"
  shows "\<exists>d. Cyc_Dict_inserts (Cyc_Dict_rempty r cmp) kvs = Inr d \<and> dict_ok d
     \<and> 2 ^ (hgt (tree d) div 2) \<le> length kvs + 1"
proof -
  obtain d where d: "Cyc_Dict_inserts (Cyc_Dict_rempty r cmp) kvs = Inr d" "dict_ok d" "length (inorder (tree d)) \<le> length kvs"
    using inserts_ok [of "Cyc_Dict_rempty r cmp" kvs] assms by auto
  have "hgt (tree d) \<le> 2 * bheight (tree d)" using hgt_bheight [of "tree d"] d(2) by (simp add: dict_ok_def rb_def)
  then have "hgt (tree d) div 2 \<le> bheight (tree d)" by linarith
  then have "2 ^ (hgt (tree d) div 2) \<le> (2 :: nat) ^ bheight (tree d)" by (intro power_increasing) auto
  also have "\<dots> \<le> length (inorder (tree d)) + 1" using bheight_size [of "tree d"] d(2) by (simp add: dict_ok_def rb_def)
  finally show ?thesis using d by auto
qed

theorem dict_inserts_balanced_witness:
  "\<exists>d. Cyc_Dict_inserts (Cyc_Dict_rempty NULL Cyc_Core_ptrcmp) [(8, True), (16, False), (24, True)] = Inr d
     \<and> 2 ^ (hgt (tree d) div 2) \<le> (4 :: nat)"
  using dict_inserts_balanced [OF ptrcmp.total_cmp_axioms, of NULL "[(8, True), (16, False), (24, True)]"] by auto

text \<open>Deleting a key gives a well-formed dictionary, in the given region, that has lost the key
  and keeps all others.\<close>

theorem dict_delete_correct:
  assumes "dict_ok d"
  shows "\<exists>d'. Cyc_Dict_rdelete r d x = Inr d' \<and> dict_ok d' \<and> rgn d' = r
     \<and> (\<forall>k. Cyc_Dict_lookup d' k = (if rel d k x = 0 then Inl (Throw Absent) else Cyc_Dict_lookup d k))"
proof -
  obtain d' where "Cyc_Dict_rdelete r d x = Inr d'" "dict_ok d'" "rgn d' = r"
    "\<forall>k. dmap d' k = (if rel d k x = 0 then None else dmap d k)"
    using rdelete_ok [OF assms] by blast
  then show ?thesis using assms by (auto simp: lookup_dmap)
qed

theorem dict_delete_correct_witness:
  "\<exists>d. Cyc_Dict_rdelete NULL (Cyc_Dict_singleton Cyc_Core_ptrcmp 8 True) 8 = Inr d
     \<and> Cyc_Dict_lookup d 8 = Inl (Throw Absent)"
proof -
  have "dict_ok (Cyc_Dict_singleton Cyc_Core_ptrcmp 8 True)"
    by (simp add: dict_ok_def Cyc_Dict_singleton_def Cyc_Dict_rsingleton_def rb_def ptrcmp.total_cmp_axioms)
  from dict_delete_correct [OF this, of NULL 8] show ?thesis
    by (auto simp: Cyc_Dict_singleton_def Cyc_Dict_rsingleton_def)
qed

text \<open>the list of the bindings of a dictionary, inserted into an empty one, gives back all its
  bindings in the same order.\<close>

theorem dict_list_roundtrip:
  assumes "dict_ok d"
  shows "\<exists>xs d'. Cyc_Dict_rto_list r d = Inr xs \<and> Cyc_Dict_inserts (Cyc_Dict_rempty r (rel d)) xs = Inr d'
     \<and> dict_ok d' \<and> inorder (tree d') = inorder (tree d) \<and> (\<forall>k. Cyc_Dict_lookup d' k = Cyc_Dict_lookup d k)"
proof -
  have "total_cmp (rel d)" "ascending (rel d) (inorder (tree d))" using assms by (auto simp: dict_ok_def)
  then obtain d' where d': "Cyc_Dict_inserts (Cyc_Dict_rempty r (rel d)) (rev (inorder (tree d))) = Inr d'" "dict_ok d'"
    "rel d' = rel d" "inorder (tree d') = inorder (tree d)"
    using inserts_descending [of "Cyc_Dict_rempty r (rel d)" "rev (inorder (tree d))"] by auto
  then have "Cyc_Dict_lookup d' k = Cyc_Dict_lookup d k" for k
    using assms by (simp add: lookup_dmap dmap_def)
  then show ?thesis using d' by (auto simp: rto_list_eq)
qed

theorem dict_list_roundtrip_witness:
  "\<exists>xs d'. Cyc_Dict_rto_list NULL (Cyc_Dict_singleton Cyc_Core_ptrcmp 8 True) = Inr xs
     \<and> Cyc_Dict_inserts (Cyc_Dict_rempty NULL Cyc_Core_ptrcmp) xs = Inr d' \<and> Cyc_Dict_lookup d' 8 = Inr True"
proof -
  have ok: "dict_ok (Cyc_Dict_singleton Cyc_Core_ptrcmp 8 True)"
    by (simp add: dict_ok_def Cyc_Dict_singleton_def Cyc_Dict_rsingleton_def rb_def ptrcmp.total_cmp_axioms)
  have "Cyc_Dict_lookup (Cyc_Dict_singleton Cyc_Core_ptrcmp 8 True) 8 = Inr True"
    "rel (Cyc_Dict_singleton Cyc_Core_ptrcmp 8 True) = Cyc_Core_ptrcmp"
    by (simp_all add: Cyc_Dict_lookup_def Cyc_Dict_singleton_def Cyc_Dict_rsingleton_def Cyc_Core_ptrcmp_def)
  then show ?thesis using dict_list_roundtrip [OF ok, of NULL] by auto
qed

text \<open>C28: the iterator over a well-formed dictionary never leaves its stack, whose size comes from the
  left spine of the tree alone; after exactly as many calls as there are bindings it has returned
  each binding once and reports the end.\<close>

theorem dict_iter_complete:
  assumes "dict_ok d"
  shows "\<exists>xs stk. iter_run (length (inorder (tree d))) (Cyc_Dict_make_iter d) = Inr (xs, stk)
     \<and> mset xs = mset (inorder (tree d)) \<and> Cyc_Dict_iter_f stk = Inr (None, stk)"
proof -
  let ?ts = "if is_Null (tree d) then [] else [tree d]"
  have rb: "rb (tree d)" using assms by (simp add: dict_ok_def)
  have pre: "concat (map preorder ?ts) = preorder (tree d)" by (auto simp: is_Null_def)
  have n: "length (inorder (tree d)) = length (concat (map preorder ?ts))"
    unfolding pre by (metis mset_preorder size_mset)
  from iter_run_stack [OF make_iter_stack [OF rb] n] obtain stk where
    "iter_run (length (inorder (tree d))) (Cyc_Dict_make_iter d) = Inr (preorder (tree d), stk)" "stack_list stk []"
    unfolding pre by blast
  moreover have "Cyc_Dict_iter_f stk = Inr (None, stk)"
    using calculation(2) by (cases stk) (simp add: stack_list_def Cyc_Dict_iter_f_def)
  ultimately show ?thesis using mset_preorder by blast
qed

theorem dict_iter_complete_witness:
  "\<exists>xs stk. iter_run 1 (Cyc_Dict_make_iter (Cyc_Dict_singleton Cyc_Core_ptrcmp 8 True)) = Inr (xs, stk)
     \<and> xs = [(8, True)] \<and> Cyc_Dict_iter_f stk = Inr (None, stk)"
proof -
  have ok: "dict_ok (Cyc_Dict_singleton Cyc_Core_ptrcmp 8 True)"
    by (simp add: dict_ok_def Cyc_Dict_singleton_def Cyc_Dict_rsingleton_def rb_def ptrcmp.total_cmp_axioms)
  have i: "inorder (tree (Cyc_Dict_singleton Cyc_Core_ptrcmp 8 True)) = [(8, True)]"
    by (simp add: Cyc_Dict_singleton_def Cyc_Dict_rsingleton_def)
  have "mset xs = mset [(8 :: ptr, True)] \<Longrightarrow> xs = [(8, True)]" for xs by simp
  then show ?thesis using dict_iter_complete [OF ok] unfolding i by (auto simp: Cyc_Dict_singleton_def)
qed

text \<open>The union of two well-formed dictionaries with one comparison function always returns; it has
  the bindings of both, and the values of common keys are combined by the given function.\<close>

theorem dict_union_correct:
  assumes "dict_ok d1" and "dict_ok d2" and "rel d1 = rel d2" and "\<And>k a b. f e k a b = Inr (g k a b)"
  shows "\<exists>d. Cyc_Dict_union_two_c False f e d1 d2 = Inr d \<and> dict_ok d
     \<and> (\<forall>k. dmap d k = (case entry (rel d2) (inorder (tree d2)) k of None \<Rightarrow> dmap d1 k
          | Some p \<Rightarrow> Some (case dmap d1 k of None \<Rightarrow> snd p | Some v \<Rightarrow> g (fst p) v (snd p))))"
proof -
  have c: "distinct_keys (rel d1) (inorder (tree d2))" using assms(2,3) ascending_distinct by (auto simp: dict_ok_def)
  show ?thesis
  proof (cases "is_Null (tree d1) \<or> is_Null (tree d2)")
    case True
    then show ?thesis
      using assms(1-3) by (auto simp: Cyc_Dict_union_two_c_def dmap_def is_Null_def split: option.splits)
  next
    case False
    then have "Cyc_Dict_union_two_c False f e d1 d2 = fold_res (Cyc_Dict_union_f (f, e)) (inorder (tree d2)) d1"
      by (simp add: Cyc_Dict_union_two_c_def folds_eq)
    then show ?thesis
      using union_fold [where f = f and e = e and g = g, OF assms(1,4) c] unfolding assms(3) by metis
  qed
qed

theorem dict_union_correct_witness:
  "\<exists>d. Cyc_Dict_union_two_c False (\<lambda>e k a b. Inr (a + b)) ()
         (Cyc_Dict_singleton Cyc_Core_ptrcmp 8 (1 :: nat)) (Cyc_Dict_singleton Cyc_Core_ptrcmp 8 2) = Inr d
     \<and> dmap d 8 = Some 3"
proof -
  have ok: "dict_ok (Cyc_Dict_singleton Cyc_Core_ptrcmp 8 n)" for n :: nat
    by (simp add: dict_ok_def Cyc_Dict_singleton_def Cyc_Dict_rsingleton_def rb_def ptrcmp.total_cmp_axioms)
  have s: "rel (Cyc_Dict_singleton Cyc_Core_ptrcmp 8 n) = Cyc_Core_ptrcmp"
    "inorder (tree (Cyc_Dict_singleton Cyc_Core_ptrcmp 8 n)) = [(8, n)]"
    "dmap (Cyc_Dict_singleton Cyc_Core_ptrcmp 8 n) 8 = Some n" for n :: nat
    by (simp_all add: Cyc_Dict_singleton_def Cyc_Dict_rsingleton_def dmap_def)
  show ?thesis
    using dict_union_correct [OF ok [of 1] ok [of 2], of "\<lambda>e k a b. Inr (a + b)" "()" "\<lambda>k a b. a + b"] s
    by auto
qed

text \<open>The intersection of two well-formed dictionaries with one comparison function always returns;
  its keys are the common ones, with the values combined by the given function.\<close>

theorem dict_intersect_correct:
  assumes "dict_ok d1" and "dict_ok d2" and "rel d1 = rel d2" and "\<And>k a b. f e k a b = Inr (g k a b)"
  shows "\<exists>d. Cyc_Dict_intersect_c False f e d1 d2 = Some (Inr d)
     \<and> ascending (rel d) (inorder (tree d)) \<and> rel d = rel d2
     \<and> (\<forall>k. dmap d k = Option.bind (entry (rel d2) (inorder (tree d2)) k)
          (\<lambda>p. map_option (\<lambda>v. g (fst p) v (snd p)) (dmap d1 k)))"
proof (cases "is_Null (tree d2)")
  case True
  then show ?thesis by (auto simp: Cyc_Dict_intersect_c_def dmap_def is_Null_def)
next
  case False
  have c: "total_cmp (rel d2)" and s: "ascending (rel d2) (inorder (tree d2))" using assms(2) by (auto simp: dict_ok_def)
  let ?t = "fold (isect_ins (rel d2) g d1) (preorder (tree d2)) Null"
  have st: "stack_list (replicate 16 (tree d2), 0) [tree d2]" by (simp add: stack_list_def numeral_eq_Suc)
  have "intersect_loop f e d1 d2 (replicate 16 (tree d2)) 0 Null = Some (Inr ?t)"
    using intersect_loop_stack [where f = f and e = e and g = g, OF assms(1,4) st] False by simp
  then have r: "Cyc_Dict_intersect_c False f e d1 d2 = Some (Inr \<lparr>rel = rel d2, rgn = rgn d2, tree = ?t\<rparr>)"
    using False by (simp add: Cyc_Dict_intersect_c_def)
  have n: "ascending (rel d2) (inorder (Null :: ('a, 'b) Cyc_Dict_T))" by simp
  note I = isect_fold [OF c n total_cmp.distinct_preorder [OF c s], of g d1]
  have E: "dmap \<lparr>rel = rel d2, rgn = rgn d2, tree = ?t\<rparr> k = map_option snd (case Option.bind (entry (rel d2) (inorder (tree d2)) k)
      (\<lambda>p. map_option (\<lambda>v. (fst p, g (fst p) v (snd p))) (dmap d1 (fst p))) of None \<Rightarrow> None | Some q \<Rightarrow> Some q)" for k
    using I total_cmp.entry_preorder [OF c s, of k] unfolding dmap_def [of "\<lparr>rel = rel d2, rgn = rgn d2, tree = ?t\<rparr>"]
    by (simp split: option.split)
  have "dmap \<lparr>rel = rel d2, rgn = rgn d2, tree = ?t\<rparr> k = Option.bind (entry (rel d2) (inorder (tree d2)) k)
          (\<lambda>p. map_option (\<lambda>v. g (fst p) v (snd p)) (dmap d1 k))" for k
  proof (cases "entry (rel d2) (inorder (tree d2)) k")
    case None
    then show ?thesis using E by simp
  next
    case (Some p)
    then have "dmap d1 (fst p) = dmap d1 k"
      using dmap_cong [OF assms(1), of k "fst p"] assms(3) entry_in_set [OF Some] by simp
    then show ?thesis using E [of k] Some by (cases "dmap d1 k") simp_all
  qed
  then show ?thesis using r I by auto
qed

theorem dict_intersect_correct_witness:
  "\<exists>d. Cyc_Dict_intersect_c False (\<lambda>e k a b. Inr (a + b)) ()
         (Cyc_Dict_singleton Cyc_Core_ptrcmp 8 (1 :: nat)) (Cyc_Dict_singleton Cyc_Core_ptrcmp 8 2) = Some (Inr d)
     \<and> dmap d 8 = Some 3"
proof -
  have ok: "dict_ok (Cyc_Dict_singleton Cyc_Core_ptrcmp 8 n)" for n :: nat
    by (simp add: dict_ok_def Cyc_Dict_singleton_def Cyc_Dict_rsingleton_def rb_def ptrcmp.total_cmp_axioms)
  have s: "rel (Cyc_Dict_singleton Cyc_Core_ptrcmp 8 n) = Cyc_Core_ptrcmp"
    "inorder (tree (Cyc_Dict_singleton Cyc_Core_ptrcmp 8 n)) = [(8, n)]"
    "dmap (Cyc_Dict_singleton Cyc_Core_ptrcmp 8 n) 8 = Some n" for n :: nat
    by (simp_all add: Cyc_Dict_singleton_def Cyc_Dict_rsingleton_def dmap_def)
  show ?thesis
    using dict_intersect_correct [OF ok [of 1] ok [of 2], of "\<lambda>e k a b. Inr (a + b)" "()" "\<lambda>k a b. a + b"] s
    by auto
qed


end
