(* ===== verification/Cyc_List.thy ===== *)
theory Cyc_List
  imports Cyc_Core "HOL-Library.Multiset"
begin

section \<open>The list library\<close>

text \<open>
  Namespace List of the Cyclone library (lib/list.cyc, compiled to bin/genfiles/list.c): linked lists
  of pointers, with operations that copy and operations that relink the cells they are given.

  The memory is an explicit store, because aliasing matters: \<open>append\<close> shares the cells of its second
  argument, \<open>imp_append\<close>, \<open>imp_rev\<close> and the merge sort change the cells of their arguments.  A cell
  is an address with the fields \<open>hd\<close> and \<open>tl\<close>, a tuple an address with two or three fields.  Which
  address \<open>_region_malloc\<close> returns is an argument: null means that memory is exhausted and the
  allocation throws.

  An operation that walks a list gets the memory as its last argument and returns its result with the
  new memory; a list with a cycle makes it run for ever, which is \<open>None\<close>.  Functions a client passes
  to map or fold may throw; those called for their effect work on a state of their own.
\<close>

subsection \<open>Cells\<close>

record lmem =
  used :: "ptr list"
  hdf :: "ptr \<Rightarrow> ptr"
  tlf :: "ptr \<Rightarrow> ptr"
  pair_at :: "ptr \<Rightarrow> ptr \<times> ptr"
  triple_at :: "ptr \<Rightarrow> ptr \<times> ptr \<times> ptr"

type_synonym allocator = "lmem \<Rightarrow> ptr"

definition alloc_obj :: "allocator \<Rightarrow> lmem \<Rightarrow> (ptr \<times> lmem) res" where
  "alloc_obj new m =
     (if new m = NULL then Inl (Throw Bad_alloc) else Inr (new m, m\<lparr>used := new m # used m\<rparr>))"

definition set_cell :: "ptr \<Rightarrow> ptr \<Rightarrow> ptr \<Rightarrow> lmem \<Rightarrow> lmem" where
  "set_cell p h t m = m\<lparr>hdf := (hdf m)(p := h), tlf := (tlf m)(p := t)\<rparr>"

definition set_tl :: "ptr \<Rightarrow> ptr \<Rightarrow> lmem \<Rightarrow> lmem" where
  "set_tl p t m = m\<lparr>tlf := (tlf m)(p := t)\<rparr>"

text \<open>A new cell with a given head, and one whose head is computed after the allocation.\<close>

definition new_cell :: "allocator \<Rightarrow> ptr \<Rightarrow> ptr \<Rightarrow> lmem \<Rightarrow> (ptr \<times> lmem) res" where
  "new_cell new h t m = bind_res (alloc_obj new m) (\<lambda>(p, m). Inr (p, set_cell p h t m))"

definition new_cell_f :: "allocator \<Rightarrow> (lmem \<Rightarrow> ptr res) \<Rightarrow> ptr \<Rightarrow> lmem \<Rightarrow> (ptr \<times> lmem) res" where
  "new_cell_f new f t m =
     bind_res (alloc_obj new m) (\<lambda>(p, m). bind_res (f m) (\<lambda>h. Inr (p, set_cell p h t m)))"

subsection \<open>Length, construction, copies and maps\<close>

text \<open>\<open>int\<close> counters are machine words.\<close>

partial_function (option) length_loop :: "ptr \<Rightarrow> u32 \<Rightarrow> lmem \<Rightarrow> u32 option" where
  "length_loop x i m = (if x \<noteq> NULL then length_loop (tlf m x) (i + 1) m else Some i)"

definition Cyc_List_length :: "ptr \<Rightarrow> lmem \<Rightarrow> u32 option" where
  "Cyc_List_length x m = length_loop x 0 m"

definition Cyc_List_hd :: "ptr \<Rightarrow> lmem \<Rightarrow> ptr" where
  "Cyc_List_hd x m = hdf m x"

definition Cyc_List_tl :: "ptr \<Rightarrow> lmem \<Rightarrow> ptr" where
  "Cyc_List_tl x m = tlf m x"

text \<open>
  \<open>rlist\<close> counts down in an \<open>unsigned\<close> and stops when it wraps around.  The array of arguments is a
  list; its size is \<open>_get_fat_size\<close>.
\<close>

partial_function (option) rlist_loop :: "allocator \<Rightarrow> ptr list \<Rightarrow> u32 \<Rightarrow> ptr \<Rightarrow> lmem \<Rightarrow> (ptr \<times> lmem) ores" where
  "rlist_loop new argv i result m =
     (if i < of_nat (length argv)
      then bind_ores (Some (new_cell new (argv ! unat i) result m)) (\<lambda>(result, m).
             rlist_loop new argv (i - 1) result m)
      else Some (Inr (result, m)))"

definition Cyc_List_rlist :: "allocator \<Rightarrow> ptr list \<Rightarrow> lmem \<Rightarrow> (ptr \<times> lmem) ores" where
  "Cyc_List_rlist new argv m = rlist_loop new argv (of_nat (length argv) - 1) NULL m"

text \<open>\<open>list\<close>, \<open>from_array\<close>: an \<open>int\<close> from the last index down to 0, with a bounds check.\<close>

definition subscript :: "ptr list \<Rightarrow> int \<Rightarrow> ptr res" where
  "subscript argv i = (if 0 \<le> i \<and> i < int (length argv) then Inr (argv ! nat i) else Inl (Throw Array_bounds))"

partial_function (option) list_loop :: "allocator \<Rightarrow> ptr list \<Rightarrow> int \<Rightarrow> ptr \<Rightarrow> lmem \<Rightarrow> (ptr \<times> lmem) ores" where
  "list_loop new argv i result m =
     (if i \<ge> 0
      then bind_ores (Some (new_cell_f new (\<lambda>_. subscript argv i) result m)) (\<lambda>(result, m).
             list_loop new argv (i - 1) result m)
      else Some (Inr (result, m)))"

definition Cyc_List_list :: "allocator \<Rightarrow> ptr list \<Rightarrow> lmem \<Rightarrow> (ptr \<times> lmem) ores" where
  "Cyc_List_list new argv m = list_loop new argv (sint (of_nat (length argv) - 1 :: u32)) NULL m"

text \<open>
  The loop of \<open>rcopy\<close>, \<open>rmap\<close>, \<open>rmap_c\<close> and \<open>rappend\<close>: a new cell for every cell of \<open>x\<close>, linked
  behind \<open>prev\<close>; the result is the last one.
\<close>

partial_function (option) map_loop ::
    "allocator \<Rightarrow> (ptr \<Rightarrow> ptr res) \<Rightarrow> ptr \<Rightarrow> ptr \<Rightarrow> lmem \<Rightarrow> (ptr \<times> lmem) ores" where
  "map_loop new f x prev m =
     (if x \<noteq> NULL
      then bind_ores (Some (new_cell_f new (\<lambda>m. f (hdf m x)) NULL m)) (\<lambda>(temp, m).
             let m = set_tl prev temp m in map_loop new f (tlf m x) temp m)
      else Some (Inr (prev, m)))"

definition Cyc_List_rcopy :: "allocator \<Rightarrow> ptr \<Rightarrow> lmem \<Rightarrow> (ptr \<times> lmem) ores" where
  "Cyc_List_rcopy new x m =
     (if x = NULL then Some (Inr (NULL, m))
      else bind_ores (Some (new_cell new (hdf m x) NULL m)) (\<lambda>(result, m).
           bind_ores (map_loop new Inr (tlf m x) result m) (\<lambda>(_, m). Some (Inr (result, m)))))"

definition Cyc_List_rmap :: "allocator \<Rightarrow> (ptr \<Rightarrow> ptr res) \<Rightarrow> ptr \<Rightarrow> lmem \<Rightarrow> (ptr \<times> lmem) ores" where
  "Cyc_List_rmap new f x m =
     (if x = NULL then Some (Inr (NULL, m))
      else bind_ores (Some (new_cell_f new (\<lambda>m. f (hdf m x)) NULL m)) (\<lambda>(result, m).
           bind_ores (map_loop new f (tlf m x) result m) (\<lambda>(_, m). Some (Inr (result, m)))))"

definition Cyc_List_rmap_c :: "allocator \<Rightarrow> ('e \<Rightarrow> ptr \<Rightarrow> ptr res) \<Rightarrow> 'e \<Rightarrow> ptr \<Rightarrow> lmem \<Rightarrow> (ptr \<times> lmem) ores" where
  "Cyc_List_rmap_c new f env x m =
     (if x = NULL then Some (Inr (NULL, m))
      else bind_ores (Some (new_cell_f new (\<lambda>m. f env (hdf m x)) NULL m)) (\<lambda>(result, m).
           bind_ores (map_loop new (f env) (tlf m x) result m) (\<lambda>(_, m). Some (Inr (result, m)))))"

text \<open>The variants without a region allocate on the heap: the allocator is that of the heap.\<close>

definition Cyc_List_copy :: "allocator \<Rightarrow> ptr \<Rightarrow> lmem \<Rightarrow> (ptr \<times> lmem) ores" where
  "Cyc_List_copy heap x m = Cyc_List_rcopy heap x m"

definition Cyc_List_map :: "allocator \<Rightarrow> (ptr \<Rightarrow> ptr res) \<Rightarrow> ptr \<Rightarrow> lmem \<Rightarrow> (ptr \<times> lmem) ores" where
  "Cyc_List_map heap f x m = Cyc_List_rmap heap f x m"

definition Cyc_List_map_c :: "allocator \<Rightarrow> ('e \<Rightarrow> ptr \<Rightarrow> ptr res) \<Rightarrow> 'e \<Rightarrow> ptr \<Rightarrow> lmem \<Rightarrow> (ptr \<times> lmem) ores" where
  "Cyc_List_map_c heap f env x m = Cyc_List_rmap_c heap f env x m"

partial_function (option) map2_loop ::
    "allocator \<Rightarrow> (ptr \<Rightarrow> ptr \<Rightarrow> ptr res) \<Rightarrow> ptr \<Rightarrow> ptr \<Rightarrow> ptr \<Rightarrow> lmem \<Rightarrow> lmem ores" where
  "map2_loop new f x y prev m =
     (if x \<noteq> NULL \<and> y \<noteq> NULL
      then bind_ores (Some (new_cell_f new (\<lambda>m. f (hdf m x) (hdf m y)) NULL m)) (\<lambda>(temp, m).
             let m = set_tl prev temp m in map2_loop new f (tlf m x) (tlf m y) temp m)
      else if x \<noteq> NULL \<or> y \<noteq> NULL then Some (Inl (Throw List_mismatch))
      else Some (Inr m))"

definition Cyc_List_rmap2 :: "allocator \<Rightarrow> (ptr \<Rightarrow> ptr \<Rightarrow> ptr res) \<Rightarrow> ptr \<Rightarrow> ptr \<Rightarrow> lmem \<Rightarrow> (ptr \<times> lmem) ores" where
  "Cyc_List_rmap2 new f x y m =
     (if x = NULL \<and> y = NULL then Some (Inr (NULL, m))
      else if x = NULL \<or> y = NULL then Some (Inl (Throw List_mismatch))
      else bind_ores (Some (new_cell_f new (\<lambda>m. f (hdf m x) (hdf m y)) NULL m)) (\<lambda>(result, m).
           bind_ores (map2_loop new f (tlf m x) (tlf m y) result m) (\<lambda>m. Some (Inr (result, m)))))"

definition Cyc_List_map2 :: "allocator \<Rightarrow> (ptr \<Rightarrow> ptr \<Rightarrow> ptr res) \<Rightarrow> ptr \<Rightarrow> ptr \<Rightarrow> lmem \<Rightarrow> (ptr \<times> lmem) ores" where
  "Cyc_List_map2 heap f x y m = Cyc_List_rmap2 heap f x y m"

partial_function (option) map3_loop ::
    "allocator \<Rightarrow> (ptr \<Rightarrow> ptr \<Rightarrow> ptr \<Rightarrow> ptr res) \<Rightarrow> ptr \<Rightarrow> ptr \<Rightarrow> ptr \<Rightarrow> ptr \<Rightarrow> lmem \<Rightarrow> lmem ores" where
  "map3_loop new f x y z prev m =
     (if x \<noteq> NULL \<and> y \<noteq> NULL \<and> z \<noteq> NULL
      then bind_ores (Some (new_cell_f new (\<lambda>m. f (hdf m x) (hdf m y) (hdf m z)) NULL m)) (\<lambda>(temp, m).
             let m = set_tl prev temp m in map3_loop new f (tlf m x) (tlf m y) (tlf m z) temp m)
      else if x \<noteq> NULL \<or> y \<noteq> NULL \<or> z \<noteq> NULL then Some (Inl (Throw List_mismatch))
      else Some (Inr m))"

definition Cyc_List_rmap3 ::
    "allocator \<Rightarrow> (ptr \<Rightarrow> ptr \<Rightarrow> ptr \<Rightarrow> ptr res) \<Rightarrow> ptr \<Rightarrow> ptr \<Rightarrow> ptr \<Rightarrow> lmem \<Rightarrow> (ptr \<times> lmem) ores" where
  "Cyc_List_rmap3 new f x y z m =
     (if x = NULL \<and> y = NULL \<and> z = NULL then Some (Inr (NULL, m))
      else if x = NULL \<or> y = NULL \<or> z = NULL then Some (Inl (Throw List_mismatch))
      else bind_ores (Some (new_cell_f new (\<lambda>m. f (hdf m x) (hdf m y) (hdf m z)) NULL m)) (\<lambda>(result, m).
           bind_ores (map3_loop new f (tlf m x) (tlf m y) (tlf m z) result m) (\<lambda>m. Some (Inr (result, m)))))"

definition Cyc_List_map3 ::
    "allocator \<Rightarrow> (ptr \<Rightarrow> ptr \<Rightarrow> ptr \<Rightarrow> ptr res) \<Rightarrow> ptr \<Rightarrow> ptr \<Rightarrow> ptr \<Rightarrow> lmem \<Rightarrow> (ptr \<times> lmem) ores" where
  "Cyc_List_map3 heap f x y z m = Cyc_List_rmap3 heap f x y z m"

subsection \<open>Application and folds\<close>

text \<open>\<open>app\<close> drops the result of the function, \<open>iter\<close> calls one without result; the state is \<open>'s\<close>.\<close>

partial_function (option) Cyc_List_app :: "(ptr \<Rightarrow> 's \<Rightarrow> (ptr \<times> 's) res) \<Rightarrow> ptr \<Rightarrow> lmem \<Rightarrow> 's \<Rightarrow> 's ores" where
  "Cyc_List_app f x m s =
     (if x \<noteq> NULL then bind_ores (Some (f (hdf m x) s)) (\<lambda>(_, s). Cyc_List_app f (tlf m x) m s) else Some (Inr s))"

partial_function (option) Cyc_List_app_c ::
    "('e \<Rightarrow> ptr \<Rightarrow> 's \<Rightarrow> (ptr \<times> 's) res) \<Rightarrow> 'e \<Rightarrow> ptr \<Rightarrow> lmem \<Rightarrow> 's \<Rightarrow> 's ores" where
  "Cyc_List_app_c f env x m s =
     (if x \<noteq> NULL then bind_ores (Some (f env (hdf m x) s)) (\<lambda>(_, s). Cyc_List_app_c f env (tlf m x) m s)
      else Some (Inr s))"

partial_function (option) Cyc_List_iter :: "(ptr \<Rightarrow> 's \<Rightarrow> 's res) \<Rightarrow> ptr \<Rightarrow> lmem \<Rightarrow> 's \<Rightarrow> 's ores" where
  "Cyc_List_iter f x m s =
     (if x \<noteq> NULL then bind_ores (Some (f (hdf m x) s)) (\<lambda>s. Cyc_List_iter f (tlf m x) m s) else Some (Inr s))"

partial_function (option) Cyc_List_iter_c :: "('e \<Rightarrow> ptr \<Rightarrow> 's \<Rightarrow> 's res) \<Rightarrow> 'e \<Rightarrow> ptr \<Rightarrow> lmem \<Rightarrow> 's \<Rightarrow> 's ores" where
  "Cyc_List_iter_c f env x m s =
     (if x \<noteq> NULL then bind_ores (Some (f env (hdf m x) s)) (\<lambda>s. Cyc_List_iter_c f env (tlf m x) m s)
      else Some (Inr s))"

partial_function (option) Cyc_List_app2 ::
    "(ptr \<Rightarrow> ptr \<Rightarrow> 's \<Rightarrow> (ptr \<times> 's) res) \<Rightarrow> ptr \<Rightarrow> ptr \<Rightarrow> lmem \<Rightarrow> 's \<Rightarrow> 's ores" where
  "Cyc_List_app2 f x y m s =
     (if x \<noteq> NULL \<and> y \<noteq> NULL
      then bind_ores (Some (f (hdf m x) (hdf m y) s)) (\<lambda>(_, s). Cyc_List_app2 f (tlf m x) (tlf m y) m s)
      else if x \<noteq> NULL \<or> y \<noteq> NULL then Some (Inl (Throw List_mismatch)) else Some (Inr s))"

partial_function (option) Cyc_List_app2_c ::
    "('e \<Rightarrow> ptr \<Rightarrow> ptr \<Rightarrow> 's \<Rightarrow> (ptr \<times> 's) res) \<Rightarrow> 'e \<Rightarrow> ptr \<Rightarrow> ptr \<Rightarrow> lmem \<Rightarrow> 's \<Rightarrow> 's ores" where
  "Cyc_List_app2_c f env x y m s =
     (if x \<noteq> NULL \<and> y \<noteq> NULL
      then bind_ores (Some (f env (hdf m x) (hdf m y) s)) (\<lambda>(_, s). Cyc_List_app2_c f env (tlf m x) (tlf m y) m s)
      else if x \<noteq> NULL \<or> y \<noteq> NULL then Some (Inl (Throw List_mismatch)) else Some (Inr s))"

partial_function (option) Cyc_List_iter2 ::
    "(ptr \<Rightarrow> ptr \<Rightarrow> 's \<Rightarrow> 's res) \<Rightarrow> ptr \<Rightarrow> ptr \<Rightarrow> lmem \<Rightarrow> 's \<Rightarrow> 's ores" where
  "Cyc_List_iter2 f x y m s =
     (if x \<noteq> NULL \<and> y \<noteq> NULL
      then bind_ores (Some (f (hdf m x) (hdf m y) s)) (\<lambda>s. Cyc_List_iter2 f (tlf m x) (tlf m y) m s)
      else if x \<noteq> NULL \<or> y \<noteq> NULL then Some (Inl (Throw List_mismatch)) else Some (Inr s))"

partial_function (option) Cyc_List_iter2_c ::
    "('e \<Rightarrow> ptr \<Rightarrow> ptr \<Rightarrow> 's \<Rightarrow> 's res) \<Rightarrow> 'e \<Rightarrow> ptr \<Rightarrow> ptr \<Rightarrow> lmem \<Rightarrow> 's \<Rightarrow> 's ores" where
  "Cyc_List_iter2_c f env x y m s =
     (if x \<noteq> NULL \<and> y \<noteq> NULL
      then bind_ores (Some (f env (hdf m x) (hdf m y) s)) (\<lambda>s. Cyc_List_iter2_c f env (tlf m x) (tlf m y) m s)
      else if x \<noteq> NULL \<or> y \<noteq> NULL then Some (Inl (Throw List_mismatch)) else Some (Inr s))"

partial_function (option) Cyc_List_fold_left :: "('a \<Rightarrow> ptr \<Rightarrow> 'a res) \<Rightarrow> 'a \<Rightarrow> ptr \<Rightarrow> lmem \<Rightarrow> 'a ores" where
  "Cyc_List_fold_left f accum x m =
     (if x \<noteq> NULL then bind_ores (Some (f accum (hdf m x))) (\<lambda>accum. Cyc_List_fold_left f accum (tlf m x) m)
      else Some (Inr accum))"

partial_function (option) Cyc_List_fold_left_c ::
    "('e \<Rightarrow> 'a \<Rightarrow> ptr \<Rightarrow> 'a res) \<Rightarrow> 'e \<Rightarrow> 'a \<Rightarrow> ptr \<Rightarrow> lmem \<Rightarrow> 'a ores" where
  "Cyc_List_fold_left_c f env accum x m =
     (if x \<noteq> NULL then bind_ores (Some (f env accum (hdf m x))) (\<lambda>accum. Cyc_List_fold_left_c f env accum (tlf m x) m)
      else Some (Inr accum))"

partial_function (option) Cyc_List_fold_right :: "(ptr \<Rightarrow> 'a \<Rightarrow> 'a res) \<Rightarrow> ptr \<Rightarrow> 'a \<Rightarrow> lmem \<Rightarrow> 'a ores" where
  "Cyc_List_fold_right f x accum m =
     (if x = NULL then Some (Inr accum)
      else bind_ores (Cyc_List_fold_right f (tlf m x) accum m) (\<lambda>v. Some (f (hdf m x) v)))"

text \<open>
  The function of \<open>fold_right_c\<close> may work on the memory, as \<open>rappend\<close> does in \<open>rflatten\<close>; the head is
  read before the recursive call.
\<close>

partial_function (option) Cyc_List_fold_right_c ::
    "('e \<Rightarrow> ptr \<Rightarrow> 'a \<Rightarrow> lmem \<Rightarrow> ('a \<times> lmem) ores) \<Rightarrow> 'e \<Rightarrow> ptr \<Rightarrow> 'a \<Rightarrow> lmem \<Rightarrow> ('a \<times> lmem) ores" where
  "Cyc_List_fold_right_c f env x accum m =
     (if x = NULL then Some (Inr (accum, m))
      else let h = hdf m x
           in bind_ores (Cyc_List_fold_right_c f env (tlf m x) accum m) (\<lambda>(v, m). f env h v m))"

subsection \<open>Reversal and concatenation\<close>

partial_function (option) Cyc_List_rrevappend :: "allocator \<Rightarrow> ptr \<Rightarrow> ptr \<Rightarrow> lmem \<Rightarrow> (ptr \<times> lmem) ores" where
  "Cyc_List_rrevappend new x y m =
     (if x \<noteq> NULL
      then bind_ores (Some (new_cell new (hdf m x) y m)) (\<lambda>(y, m). Cyc_List_rrevappend new (tlf m x) y m)
      else Some (Inr (y, m)))"

definition Cyc_List_revappend :: "allocator \<Rightarrow> ptr \<Rightarrow> ptr \<Rightarrow> lmem \<Rightarrow> (ptr \<times> lmem) ores" where
  "Cyc_List_revappend heap x y m = Cyc_List_rrevappend heap x y m"

definition Cyc_List_rrev :: "allocator \<Rightarrow> ptr \<Rightarrow> lmem \<Rightarrow> (ptr \<times> lmem) ores" where
  "Cyc_List_rrev new x m = (if x = NULL then Some (Inr (NULL, m)) else Cyc_List_rrevappend new x NULL m)"

definition Cyc_List_rev :: "allocator \<Rightarrow> ptr \<Rightarrow> lmem \<Rightarrow> (ptr \<times> lmem) ores" where
  "Cyc_List_rev heap x m = Cyc_List_rrev heap x m"

partial_function (option) imp_rev_loop :: "ptr \<Rightarrow> ptr \<Rightarrow> lmem \<Rightarrow> (ptr \<times> lmem) option" where
  "imp_rev_loop first second m =
     (if second \<noteq> NULL then let temp = tlf m second; m = set_tl second first m in imp_rev_loop second temp m
      else Some (first, m))"

definition Cyc_List_imp_rev :: "ptr \<Rightarrow> lmem \<Rightarrow> (ptr \<times> lmem) option" where
  "Cyc_List_imp_rev x m =
     (if x = NULL then Some (x, m)
      else let second = tlf m x; m = set_tl x NULL m in imp_rev_loop x second m)"

definition Cyc_List_rappend :: "allocator \<Rightarrow> ptr \<Rightarrow> ptr \<Rightarrow> lmem \<Rightarrow> (ptr \<times> lmem) ores" where
  "Cyc_List_rappend new x y m =
     (if x = NULL then Some (Inr (y, m))
      else if y = NULL then Cyc_List_rcopy new x m
      else bind_ores (Some (new_cell new (hdf m x) NULL m)) (\<lambda>(result, m).
           bind_ores (map_loop new Inr (tlf m x) result m) (\<lambda>(prev, m).
           Some (Inr (result, set_tl prev y m)))))"

definition Cyc_List_append :: "allocator \<Rightarrow> ptr \<Rightarrow> ptr \<Rightarrow> lmem \<Rightarrow> (ptr \<times> lmem) ores" where
  "Cyc_List_append heap x y m = Cyc_List_rappend heap x y m"

text \<open>\<open>for (z = x; z->tl != NULL; z = z->tl);\<close> with a null check on \<open>z\<close>.\<close>

partial_function (option) last_cell :: "ptr \<Rightarrow> lmem \<Rightarrow> ptr ores" where
  "last_cell z m =
     (if z = NULL then Some (Inl (Throw Null_Exception))
      else if tlf m z \<noteq> NULL then last_cell (tlf m z) m else Some (Inr z))"

definition Cyc_List_imp_append :: "ptr \<Rightarrow> ptr \<Rightarrow> lmem \<Rightarrow> (ptr \<times> lmem) ores" where
  "Cyc_List_imp_append x y m =
     (if x = NULL then Some (Inr (y, m))
      else if y = NULL then Some (Inr (x, m))
      else bind_ores (last_cell x m) (\<lambda>z. Some (Inr (x, set_tl z y m))))"

definition Cyc_List_rflatten :: "allocator \<Rightarrow> ptr \<Rightarrow> lmem \<Rightarrow> (ptr \<times> lmem) ores" where
  "Cyc_List_rflatten new x m = Cyc_List_fold_right_c Cyc_List_rappend new x NULL m"

definition Cyc_List_flatten :: "allocator \<Rightarrow> ptr \<Rightarrow> lmem \<Rightarrow> (ptr \<times> lmem) ores" where
  "Cyc_List_flatten heap x m = Cyc_List_rflatten heap x m"

subsection \<open>Merging and sorting\<close>

text \<open>The loop of \<open>imp_merge\<close> with its end: \<open>c\<close> is the last cell of the merged part.\<close>

partial_function (option) imp_merge_loop :: "(ptr \<Rightarrow> ptr \<Rightarrow> int) \<Rightarrow> ptr \<Rightarrow> ptr \<Rightarrow> ptr \<Rightarrow> lmem \<Rightarrow> lmem option" where
  "imp_merge_loop cmp a b c m =
     (if a \<noteq> NULL \<and> b \<noteq> NULL
      then if cmp (hdf m a) (hdf m b) \<le> 0
           then let m = set_tl c a m in imp_merge_loop cmp (tlf m a) b a m
           else let m = set_tl c b m in imp_merge_loop cmp a (tlf m b) b m
      else if a = NULL then Some (set_tl c b m) else Some (set_tl c a m))"

definition Cyc_List_imp_merge :: "(ptr \<Rightarrow> ptr \<Rightarrow> int) \<Rightarrow> ptr \<Rightarrow> ptr \<Rightarrow> lmem \<Rightarrow> (ptr \<times> lmem) option" where
  "Cyc_List_imp_merge cmp a b m =
     (if a = NULL then Some (b, m)
      else if b = NULL then Some (a, m)
      else let (c, a, b) = (if cmp (hdf m a) (hdf m b) \<le> 0 then (a, tlf m a, b) else (b, a, tlf m b))
           in map_option (\<lambda>m. (c, m)) (imp_merge_loop cmp a b c m))"

text \<open>The loop that deals the cells out to two lists; the result is the last cell of each.\<close>

partial_function (option) split_loop :: "ptr \<Rightarrow> ptr \<Rightarrow> ptr \<Rightarrow> lmem \<Rightarrow> (ptr \<times> ptr \<times> lmem) option" where
  "split_loop x aptr bptr m =
     (if x \<noteq> NULL
      then let m = set_tl aptr x m; aptr = x; x = tlf m x
           in if x \<noteq> NULL then let m = set_tl bptr x m; bptr = x; x = tlf m x in split_loop x aptr bptr m
              else split_loop x aptr bptr m
      else Some (aptr, bptr, m))"

partial_function (option) Cyc_List_rimp_merge_sort :: "(ptr \<Rightarrow> ptr \<Rightarrow> int) \<Rightarrow> ptr \<Rightarrow> lmem \<Rightarrow> (ptr \<times> lmem) option" where
  "Cyc_List_rimp_merge_sort cmp x m =
     (if x = NULL then Some (x, m)
      else if tlf m x = NULL then Some (x, m)
      else let a = x; b = tlf m x
           in Option.bind (split_loop (tlf m b) a b m) (\<lambda>(aptr, bptr, m).
              let m = set_tl bptr NULL (set_tl aptr NULL m)
              in Option.bind (Cyc_List_rimp_merge_sort cmp a m) (\<lambda>(a, m).
                 Option.bind (Cyc_List_rimp_merge_sort cmp b m) (\<lambda>(b, m).
                 Cyc_List_imp_merge cmp a b m))))"

definition Cyc_List_rmerge_sort :: "allocator \<Rightarrow> (ptr \<Rightarrow> ptr \<Rightarrow> int) \<Rightarrow> ptr \<Rightarrow> lmem \<Rightarrow> (ptr \<times> lmem) ores" where
  "Cyc_List_rmerge_sort new cmp x m =
     bind_ores (Cyc_List_rcopy new x m) (\<lambda>(y, m). map_option Inr (Cyc_List_rimp_merge_sort cmp y m))"

partial_function (option) rmerge_loop ::
    "allocator \<Rightarrow> (ptr \<Rightarrow> ptr \<Rightarrow> int) \<Rightarrow> ptr \<Rightarrow> ptr \<Rightarrow> ptr \<Rightarrow> lmem \<Rightarrow> lmem ores" where
  "rmerge_loop new cmp a b c m =
     (if a \<noteq> NULL \<and> b \<noteq> NULL
      then if cmp (hdf m a) (hdf m b) \<le> 0
           then bind_ores (Some (new_cell new (hdf m a) NULL m)) (\<lambda>(temp, m).
                  let m = set_tl c temp m in rmerge_loop new cmp (tlf m a) b temp m)
           else bind_ores (Some (new_cell new (hdf m b) NULL m)) (\<lambda>(temp, m).
                  let m = set_tl c temp m in rmerge_loop new cmp a (tlf m b) temp m)
      else bind_ores (Cyc_List_rcopy new (if a = NULL then b else a) m) (\<lambda>(p, m). Some (Inr (set_tl c p m))))"

definition Cyc_List_rmerge :: "allocator \<Rightarrow> (ptr \<Rightarrow> ptr \<Rightarrow> int) \<Rightarrow> ptr \<Rightarrow> ptr \<Rightarrow> lmem \<Rightarrow> (ptr \<times> lmem) ores" where
  "Cyc_List_rmerge new cmp a b m =
     (if a = NULL then Cyc_List_rcopy new b m
      else if b = NULL then Cyc_List_rcopy new a m
      else if cmp (hdf m a) (hdf m b) \<le> 0
      then bind_ores (Some (new_cell new (hdf m a) NULL m)) (\<lambda>(c, m).
           bind_ores (rmerge_loop new cmp (tlf m a) b c m) (\<lambda>m. Some (Inr (c, m))))
      else bind_ores (Some (new_cell new (hdf m b) NULL m)) (\<lambda>(c, m).
           bind_ores (rmerge_loop new cmp a (tlf m b) c m) (\<lambda>m. Some (Inr (c, m)))))"

definition Cyc_List_merge_sort :: "allocator \<Rightarrow> (ptr \<Rightarrow> ptr \<Rightarrow> int) \<Rightarrow> ptr \<Rightarrow> lmem \<Rightarrow> (ptr \<times> lmem) ores" where
  "Cyc_List_merge_sort heap cmp x m = Cyc_List_rmerge_sort heap cmp x m"

definition Cyc_List_merge :: "allocator \<Rightarrow> (ptr \<Rightarrow> ptr \<Rightarrow> int) \<Rightarrow> ptr \<Rightarrow> ptr \<Rightarrow> lmem \<Rightarrow> (ptr \<times> lmem) ores" where
  "Cyc_List_merge heap cmp a b m = Cyc_List_rmerge heap cmp a b m"

subsection \<open>Searching\<close>

partial_function (option) Cyc_List_nth :: "ptr \<Rightarrow> int \<Rightarrow> lmem \<Rightarrow> ptr ores" where
  "Cyc_List_nth x i m =
     (if i > 0 \<and> x \<noteq> NULL then Cyc_List_nth (tlf m x) (i - 1) m
      else if i < 0 \<or> x = NULL then Some (Inl (Throw Nth)) else Some (Inr (hdf m x)))"

partial_function (option) nth_tail_loop :: "ptr \<Rightarrow> int \<Rightarrow> lmem \<Rightarrow> ptr ores" where
  "nth_tail_loop x i m =
     (if i \<noteq> 0
      then if x = NULL then Some (Inl (Throw Nth)) else nth_tail_loop (tlf m x) (i - 1) m
      else Some (Inr x))"

definition Cyc_List_nth_tail :: "ptr \<Rightarrow> int \<Rightarrow> lmem \<Rightarrow> ptr ores" where
  "Cyc_List_nth_tail x i m = (if i < 0 then Some (Inl (Throw Nth)) else nth_tail_loop x i m)"

partial_function (option) Cyc_List_forall :: "(ptr \<Rightarrow> bool) \<Rightarrow> ptr \<Rightarrow> lmem \<Rightarrow> bool option" where
  "Cyc_List_forall pred x m =
     (if x \<noteq> NULL \<and> pred (hdf m x) then Cyc_List_forall pred (tlf m x) m else Some (x = NULL))"

partial_function (option) Cyc_List_forall_c :: "('e \<Rightarrow> ptr \<Rightarrow> bool) \<Rightarrow> 'e \<Rightarrow> ptr \<Rightarrow> lmem \<Rightarrow> bool option" where
  "Cyc_List_forall_c pred env x m =
     (if x \<noteq> NULL \<and> pred env (hdf m x) then Cyc_List_forall_c pred env (tlf m x) m else Some (x = NULL))"

partial_function (option) Cyc_List_exists :: "(ptr \<Rightarrow> bool) \<Rightarrow> ptr \<Rightarrow> lmem \<Rightarrow> bool option" where
  "Cyc_List_exists pred x m =
     (if x \<noteq> NULL \<and> \<not> pred (hdf m x) then Cyc_List_exists pred (tlf m x) m else Some (x \<noteq> NULL))"

partial_function (option) Cyc_List_exists_c :: "('e \<Rightarrow> ptr \<Rightarrow> bool) \<Rightarrow> 'e \<Rightarrow> ptr \<Rightarrow> lmem \<Rightarrow> bool option" where
  "Cyc_List_exists_c pred env x m =
     (if x \<noteq> NULL \<and> \<not> pred env (hdf m x) then Cyc_List_exists_c pred env (tlf m x) m else Some (x \<noteq> NULL))"

partial_function (option) find_loop :: "(ptr \<Rightarrow> ptr) \<Rightarrow> ptr \<Rightarrow> ptr \<Rightarrow> lmem \<Rightarrow> ptr option" where
  "find_loop pred x v m =
     (if x \<noteq> NULL then let v = pred (hdf m x) in if v \<noteq> NULL then Some v else find_loop pred (tlf m x) v m
      else Some v)"

definition Cyc_List_find_c :: "('e \<Rightarrow> ptr \<Rightarrow> ptr) \<Rightarrow> 'e \<Rightarrow> ptr \<Rightarrow> lmem \<Rightarrow> ptr option" where
  "Cyc_List_find_c pred env x m = find_loop (pred env) x NULL m"

partial_function (option) Cyc_List_memq :: "ptr \<Rightarrow> ptr \<Rightarrow> lmem \<Rightarrow> bool option" where
  "Cyc_List_memq l x m =
     (if l \<noteq> NULL then if hdf m l = x then Some True else Cyc_List_memq (tlf m l) x m else Some False)"

partial_function (option) Cyc_List_mem :: "(ptr \<Rightarrow> ptr \<Rightarrow> int) \<Rightarrow> ptr \<Rightarrow> ptr \<Rightarrow> lmem \<Rightarrow> bool option" where
  "Cyc_List_mem cmp l x m =
     (if l \<noteq> NULL then if cmp (hdf m l) x = 0 then Some True else Cyc_List_mem cmp (tlf m l) x m else Some False)"

partial_function (option) Cyc_List_assoc :: "ptr \<Rightarrow> ptr \<Rightarrow> lmem \<Rightarrow> ptr ores" where
  "Cyc_List_assoc l x m =
     (if l \<noteq> NULL
      then if fst (pair_at m (hdf m l)) = x then Some (Inr (snd (pair_at m (hdf m l)))) else Cyc_List_assoc (tlf m l) x m
      else Some (Inl (Throw Not_found)))"

partial_function (option) Cyc_List_assoc_cmp :: "(ptr \<Rightarrow> ptr \<Rightarrow> int) \<Rightarrow> ptr \<Rightarrow> ptr \<Rightarrow> lmem \<Rightarrow> ptr ores" where
  "Cyc_List_assoc_cmp cmp l x m =
     (if l \<noteq> NULL
      then if cmp (fst (pair_at m (hdf m l))) x = 0 then Some (Inr (snd (pair_at m (hdf m l))))
           else Cyc_List_assoc_cmp cmp (tlf m l) x m
      else Some (Inl (Throw Not_found)))"

partial_function (option) Cyc_List_mem_assoc :: "ptr \<Rightarrow> ptr \<Rightarrow> lmem \<Rightarrow> bool option" where
  "Cyc_List_mem_assoc l x m =
     (if l \<noteq> NULL
      then if fst (pair_at m (hdf m l)) = x then Some True else Cyc_List_mem_assoc (tlf m l) x m
      else Some False)"

partial_function (option) Cyc_List_mem_assoc_cmp :: "(ptr \<Rightarrow> ptr \<Rightarrow> int) \<Rightarrow> ptr \<Rightarrow> ptr \<Rightarrow> lmem \<Rightarrow> bool option" where
  "Cyc_List_mem_assoc_cmp cmp l x m =
     (if l \<noteq> NULL
      then if cmp (fst (pair_at m (hdf m l))) x = 0 then Some True else Cyc_List_mem_assoc_cmp cmp (tlf m l) x m
      else Some False)"

text \<open>The first of two neighbours that compare equal.\<close>

partial_function (option) Cyc_List_check_unique :: "(ptr \<Rightarrow> ptr \<Rightarrow> int) \<Rightarrow> ptr \<Rightarrow> lmem \<Rightarrow> ptr option option" where
  "Cyc_List_check_unique cmp x m =
     (if x \<noteq> NULL
      then let tl = tlf m x
           in if tl \<noteq> NULL \<and> cmp (hdf m x) (hdf m tl) = 0 then Some (Some (hdf m x))
              else Cyc_List_check_unique cmp tl m
      else Some None)"

subsection \<open>Deletion, filters and comparison\<close>

partial_function (option) delete_loop ::
    "(ptr \<Rightarrow> ptr \<Rightarrow> int) \<Rightarrow> ptr \<Rightarrow> ptr \<Rightarrow> ptr \<Rightarrow> ptr \<Rightarrow> lmem \<Rightarrow> (ptr \<times> lmem) ores" where
  "delete_loop cmp l x prev iter m =
     (if iter \<noteq> NULL
      then if cmp (hdf m iter) x = 0
           then if prev = NULL
                then if l = NULL then Some (Inl (Throw Null_Exception)) else Some (Inr (tlf m l, m))
                else Some (Inr (l, set_tl prev (tlf m iter) m))
           else delete_loop cmp l x iter (tlf m iter) m
      else Some (Inl (Throw Not_found)))"

definition Cyc_List_delete_cmp :: "(ptr \<Rightarrow> ptr \<Rightarrow> int) \<Rightarrow> ptr \<Rightarrow> ptr \<Rightarrow> lmem \<Rightarrow> (ptr \<times> lmem) ores" where
  "Cyc_List_delete_cmp cmp l x m = delete_loop cmp l x NULL l m"

definition Cyc_List_ptrequal :: "ptr \<Rightarrow> ptr \<Rightarrow> int" where
  "Cyc_List_ptrequal x y = (if x = y then 0 else 1)"

definition Cyc_List_delete :: "ptr \<Rightarrow> ptr \<Rightarrow> lmem \<Rightarrow> (ptr \<times> lmem) ores" where
  "Cyc_List_delete l x m = Cyc_List_delete_cmp Cyc_List_ptrequal l x m"

partial_function (option) filter_loop :: "allocator \<Rightarrow> (ptr \<Rightarrow> bool) \<Rightarrow> ptr \<Rightarrow> ptr \<Rightarrow> lmem \<Rightarrow> lmem ores" where
  "filter_loop new f l end1 m =
     (if l \<noteq> NULL
      then if f (hdf m l)
           then bind_ores (Some (new_cell new (hdf m l) NULL m)) (\<lambda>(temp, m).
                  let m = set_tl end1 temp m in filter_loop new f (tlf m l) temp m)
           else filter_loop new f (tlf m l) end1 m
      else Some (Inr m))"

definition Cyc_List_rfilter_c :: "allocator \<Rightarrow> ('e \<Rightarrow> ptr \<Rightarrow> bool) \<Rightarrow> 'e \<Rightarrow> ptr \<Rightarrow> lmem \<Rightarrow> (ptr \<times> lmem) ores" where
  "Cyc_List_rfilter_c new f env l m =
     (if l = NULL then Some (Inr (NULL, m))
      else bind_ores (Some (new_cell new (hdf m l) NULL m)) (\<lambda>(result, m).
           bind_ores (filter_loop new (f env) l result m) (\<lambda>m. Some (Inr (tlf m result, m)))))"

definition Cyc_List_filter_c :: "allocator \<Rightarrow> ('e \<Rightarrow> ptr \<Rightarrow> bool) \<Rightarrow> 'e \<Rightarrow> ptr \<Rightarrow> lmem \<Rightarrow> (ptr \<times> lmem) ores" where
  "Cyc_List_filter_c heap f env l m = Cyc_List_rfilter_c heap f env l m"

definition Cyc_List_rfilter :: "allocator \<Rightarrow> (ptr \<Rightarrow> bool) \<Rightarrow> ptr \<Rightarrow> lmem \<Rightarrow> (ptr \<times> lmem) ores" where
  "Cyc_List_rfilter new f l m =
     (if l = NULL then Some (Inr (NULL, m))
      else bind_ores (Some (new_cell new (hdf m l) NULL m)) (\<lambda>(result, m).
           bind_ores (filter_loop new f l result m) (\<lambda>m. Some (Inr (tlf m result, m)))))"

definition Cyc_List_filter :: "allocator \<Rightarrow> (ptr \<Rightarrow> bool) \<Rightarrow> ptr \<Rightarrow> lmem \<Rightarrow> (ptr \<times> lmem) ores" where
  "Cyc_List_filter heap f l m = Cyc_List_rfilter heap f l m"

partial_function (option) Cyc_List_list_cmp :: "(ptr \<Rightarrow> ptr \<Rightarrow> int) \<Rightarrow> ptr \<Rightarrow> ptr \<Rightarrow> lmem \<Rightarrow> int option" where
  "Cyc_List_list_cmp cmp l1 l2 m =
     (if l1 \<noteq> NULL \<and> l2 \<noteq> NULL
      then if l1 = l2 then Some 0
           else let i = cmp (hdf m l1) (hdf m l2)
                in if i \<noteq> 0 then Some i else Cyc_List_list_cmp cmp (tlf m l1) (tlf m l2) m
      else if l1 \<noteq> NULL then Some 1
      else if l2 \<noteq> NULL then Some (- 1)
      else Some 0)"

partial_function (option) Cyc_List_list_prefix :: "(ptr \<Rightarrow> ptr \<Rightarrow> int) \<Rightarrow> ptr \<Rightarrow> ptr \<Rightarrow> lmem \<Rightarrow> bool option" where
  "Cyc_List_list_prefix cmp l1 l2 m =
     (if l1 \<noteq> NULL \<and> l2 \<noteq> NULL
      then if l1 = l2 then Some True
           else let i = cmp (hdf m l1) (hdf m l2)
                in if i \<noteq> 0 then Some False else Cyc_List_list_prefix cmp (tlf m l1) (tlf m l2) m
      else Some (l1 = NULL))"

subsection \<open>Tuples\<close>

text \<open>A cell with a new pair or triple as its head; the cell is allocated first.\<close>

definition new_pair_cell :: "allocator \<Rightarrow> allocator \<Rightarrow> ptr \<Rightarrow> ptr \<Rightarrow> lmem \<Rightarrow> (ptr \<times> lmem) res" where
  "new_pair_cell new3 new4 x y m =
     bind_res (alloc_obj new3 m) (\<lambda>(p, m).
     bind_res (alloc_obj new4 m) (\<lambda>(q, m).
     Inr (p, set_cell p q NULL (m\<lparr>pair_at := (pair_at m)(q := (hdf m x, hdf m y))\<rparr>))))"

definition new_triple_cell :: "allocator \<Rightarrow> allocator \<Rightarrow> ptr \<Rightarrow> ptr \<Rightarrow> ptr \<Rightarrow> lmem \<Rightarrow> (ptr \<times> lmem) res" where
  "new_triple_cell new3 new4 x y z m =
     bind_res (alloc_obj new3 m) (\<lambda>(p, m).
     bind_res (alloc_obj new4 m) (\<lambda>(q, m).
     Inr (p, set_cell p q NULL (m\<lparr>triple_at := (triple_at m)(q := (hdf m x, hdf m y, hdf m z))\<rparr>))))"

partial_function (option) zip_loop :: "allocator \<Rightarrow> allocator \<Rightarrow> ptr \<Rightarrow> ptr \<Rightarrow> ptr \<Rightarrow> lmem \<Rightarrow> lmem ores" where
  "zip_loop new3 new4 x y prev m =
     (if x \<noteq> NULL \<and> y \<noteq> NULL
      then bind_ores (Some (new_pair_cell new3 new4 x y m)) (\<lambda>(temp, m).
             let m = set_tl prev temp m in zip_loop new3 new4 (tlf m x) (tlf m y) temp m)
      else if x \<noteq> NULL \<or> y \<noteq> NULL then Some (Inl (Throw List_mismatch))
      else Some (Inr m))"

definition Cyc_List_rzip :: "allocator \<Rightarrow> allocator \<Rightarrow> ptr \<Rightarrow> ptr \<Rightarrow> lmem \<Rightarrow> (ptr \<times> lmem) ores" where
  "Cyc_List_rzip new3 new4 x y m =
     (if x = NULL \<and> y = NULL then Some (Inr (NULL, m))
      else if x = NULL \<or> y = NULL then Some (Inl (Throw List_mismatch))
      else bind_ores (Some (new_pair_cell new3 new4 x y m)) (\<lambda>(result, m).
           bind_ores (zip_loop new3 new4 (tlf m x) (tlf m y) result m) (\<lambda>m. Some (Inr (result, m)))))"

definition Cyc_List_zip :: "allocator \<Rightarrow> ptr \<Rightarrow> ptr \<Rightarrow> lmem \<Rightarrow> (ptr \<times> lmem) ores" where
  "Cyc_List_zip heap x y m = Cyc_List_rzip heap heap x y m"

partial_function (option) zip3_loop :: "allocator \<Rightarrow> allocator \<Rightarrow> ptr \<Rightarrow> ptr \<Rightarrow> ptr \<Rightarrow> ptr \<Rightarrow> lmem \<Rightarrow> lmem ores" where
  "zip3_loop new3 new4 x y z prev m =
     (if x \<noteq> NULL \<and> y \<noteq> NULL \<and> z \<noteq> NULL
      then bind_ores (Some (new_triple_cell new3 new4 x y z m)) (\<lambda>(temp, m).
             let m = set_tl prev temp m in zip3_loop new3 new4 (tlf m x) (tlf m y) (tlf m z) temp m)
      else if x \<noteq> NULL \<or> y \<noteq> NULL \<or> z \<noteq> NULL then Some (Inl (Throw List_mismatch))
      else Some (Inr m))"

definition Cyc_List_rzip3 :: "allocator \<Rightarrow> allocator \<Rightarrow> ptr \<Rightarrow> ptr \<Rightarrow> ptr \<Rightarrow> lmem \<Rightarrow> (ptr \<times> lmem) ores" where
  "Cyc_List_rzip3 new3 new4 x y z m =
     (if x = NULL \<and> y = NULL \<and> z = NULL then Some (Inr (NULL, m))
      else if x = NULL \<or> y = NULL \<or> z = NULL then Some (Inl (Throw List_mismatch))
      else bind_ores (Some (new_triple_cell new3 new4 x y z m)) (\<lambda>(result, m).
           bind_ores (zip3_loop new3 new4 (tlf m x) (tlf m y) (tlf m z) result m) (\<lambda>m. Some (Inr (result, m)))))"

definition Cyc_List_zip3 :: "allocator \<Rightarrow> ptr \<Rightarrow> ptr \<Rightarrow> ptr \<Rightarrow> lmem \<Rightarrow> (ptr \<times> lmem) ores" where
  "Cyc_List_zip3 heap x y z m = Cyc_List_rzip3 heap heap x y z m"

partial_function (option) rsplit_loop :: "allocator \<Rightarrow> allocator \<Rightarrow> ptr \<Rightarrow> ptr \<Rightarrow> ptr \<Rightarrow> lmem \<Rightarrow> lmem ores" where
  "rsplit_loop new3 new4 x prev1 prev2 m =
     (if x \<noteq> NULL
      then bind_ores (Some (new_cell new3 (fst (pair_at m (hdf m x))) NULL m)) (\<lambda>(temp1, m).
           bind_ores (Some (new_cell new4 (snd (pair_at m (hdf m x))) NULL m)) (\<lambda>(temp2, m).
             let m = set_tl prev2 temp2 (set_tl prev1 temp1 m)
             in rsplit_loop new3 new4 (tlf m x) temp1 temp2 m))
      else Some (Inr m))"

definition Cyc_List_rsplit :: "allocator \<Rightarrow> allocator \<Rightarrow> ptr \<Rightarrow> lmem \<Rightarrow> ((ptr \<times> ptr) \<times> lmem) ores" where
  "Cyc_List_rsplit new3 new4 x m =
     (if x = NULL then Some (Inr ((NULL, NULL), m))
      else bind_ores (Some (new_cell new3 (fst (pair_at m (hdf m x))) NULL m)) (\<lambda>(result1, m).
           bind_ores (Some (new_cell new4 (snd (pair_at m (hdf m x))) NULL m)) (\<lambda>(result2, m).
           bind_ores (rsplit_loop new3 new4 (tlf m x) result1 result2 m) (\<lambda>m. Some (Inr ((result1, result2), m))))))"

definition Cyc_List_split :: "allocator \<Rightarrow> ptr \<Rightarrow> lmem \<Rightarrow> ((ptr \<times> ptr) \<times> lmem) ores" where
  "Cyc_List_split heap x m = Cyc_List_rsplit heap heap x m"

partial_function (option) rsplit3_loop ::
    "allocator \<Rightarrow> allocator \<Rightarrow> allocator \<Rightarrow> ptr \<Rightarrow> ptr \<Rightarrow> ptr \<Rightarrow> ptr \<Rightarrow> lmem \<Rightarrow> lmem ores" where
  "rsplit3_loop new3 new4 new5 x prev1 prev2 prev3 m =
     (if x \<noteq> NULL
      then bind_ores (Some (new_cell new3 (fst (triple_at m (hdf m x))) NULL m)) (\<lambda>(temp1, m).
           bind_ores (Some (new_cell new4 (fst (snd (triple_at m (hdf m x)))) NULL m)) (\<lambda>(temp2, m).
           bind_ores (Some (new_cell new5 (snd (snd (triple_at m (hdf m x)))) NULL m)) (\<lambda>(temp3, m).
             let m = set_tl prev3 temp3 (set_tl prev2 temp2 (set_tl prev1 temp1 m))
             in rsplit3_loop new3 new4 new5 (tlf m x) temp1 temp2 temp3 m)))
      else Some (Inr m))"

definition Cyc_List_rsplit3 ::
    "allocator \<Rightarrow> allocator \<Rightarrow> allocator \<Rightarrow> ptr \<Rightarrow> lmem \<Rightarrow> ((ptr \<times> ptr \<times> ptr) \<times> lmem) ores" where
  "Cyc_List_rsplit3 new3 new4 new5 x m =
     (if x = NULL then Some (Inr ((NULL, NULL, NULL), m))
      else bind_ores (Some (new_cell new3 (fst (triple_at m (hdf m x))) NULL m)) (\<lambda>(result1, m).
           bind_ores (Some (new_cell new4 (fst (snd (triple_at m (hdf m x)))) NULL m)) (\<lambda>(result2, m).
           bind_ores (Some (new_cell new5 (snd (snd (triple_at m (hdf m x)))) NULL m)) (\<lambda>(result3, m).
           bind_ores (rsplit3_loop new3 new4 new5 (tlf m x) result1 result2 result3 m) (\<lambda>m.
           Some (Inr ((result1, result2, result3), m)))))))"

definition Cyc_List_split3 :: "allocator \<Rightarrow> ptr \<Rightarrow> lmem \<Rightarrow> ((ptr \<times> ptr \<times> ptr) \<times> lmem) ores" where
  "Cyc_List_split3 heap x m = Cyc_List_rsplit3 heap heap heap x m"

subsection \<open>Arrays and tabulation\<close>

text \<open>The elements of the new array, with the null check on the list.\<close>

primrec to_array_loop :: "nat \<Rightarrow> ptr \<Rightarrow> lmem \<Rightarrow> ptr list res" where
  "to_array_loop 0 x m = Inr []"
| "to_array_loop (Suc n) x m =
     (if x = NULL then Inl (Throw Null_Exception)
      else bind_res (to_array_loop n (tlf m x) m) (\<lambda>vs. Inr (hdf m x # vs)))"

definition Cyc_List_rto_array :: "allocator \<Rightarrow> ptr \<Rightarrow> lmem \<Rightarrow> (ptr list \<times> lmem) ores" where
  "Cyc_List_rto_array new x m =
     Option.bind (Cyc_List_length x m) (\<lambda>s.
       Some (bind_res (check_times s 4) (\<lambda>_.
             bind_res (alloc_obj new m) (\<lambda>(_, m).
             bind_res (to_array_loop (unat s) x m) (\<lambda>vs. Inr (vs, m))))))"

definition Cyc_List_to_array :: "allocator \<Rightarrow> ptr \<Rightarrow> lmem \<Rightarrow> (ptr list \<times> lmem) ores" where
  "Cyc_List_to_array heap x m = Cyc_List_rto_array heap x m"

definition Cyc_List_rfrom_array :: "allocator \<Rightarrow> ptr list \<Rightarrow> lmem \<Rightarrow> (ptr \<times> lmem) ores" where
  "Cyc_List_rfrom_array new arr m = list_loop new arr (sint (of_nat (length arr) - 1 :: u32)) NULL m"

definition Cyc_List_from_array :: "allocator \<Rightarrow> ptr list \<Rightarrow> lmem \<Rightarrow> (ptr \<times> lmem) ores" where
  "Cyc_List_from_array heap arr m = Cyc_List_rfrom_array heap arr m"

partial_function (option) tabulate_loop ::
    "allocator \<Rightarrow> int \<Rightarrow> (int \<Rightarrow> ptr res) \<Rightarrow> int \<Rightarrow> ptr \<Rightarrow> lmem \<Rightarrow> (ptr \<times> lmem) ores" where
  "tabulate_loop new n f i res1 m =
     (if i < n
      then bind_ores (Some (new_cell_f new (\<lambda>_. f i) res1 m)) (\<lambda>(res1, m). tabulate_loop new n f (i + 1) res1 m)
      else map_option Inr (Cyc_List_imp_rev res1 m))"

definition Cyc_List_rtabulate :: "allocator \<Rightarrow> int \<Rightarrow> (int \<Rightarrow> ptr res) \<Rightarrow> lmem \<Rightarrow> (ptr \<times> lmem) ores" where
  "Cyc_List_rtabulate new n f m = tabulate_loop new n f 0 NULL m"

definition Cyc_List_tabulate :: "allocator \<Rightarrow> int \<Rightarrow> (int \<Rightarrow> ptr res) \<Rightarrow> lmem \<Rightarrow> (ptr \<times> lmem) ores" where
  "Cyc_List_tabulate heap n f m = Cyc_List_rtabulate heap n f m"

definition Cyc_List_rtabulate_c :: "allocator \<Rightarrow> int \<Rightarrow> ('e \<Rightarrow> int \<Rightarrow> ptr res) \<Rightarrow> 'e \<Rightarrow> lmem \<Rightarrow> (ptr \<times> lmem) ores" where
  "Cyc_List_rtabulate_c new n f env m = tabulate_loop new n (f env) 0 NULL m"

definition Cyc_List_tabulate_c :: "allocator \<Rightarrow> int \<Rightarrow> ('e \<Rightarrow> int \<Rightarrow> ptr res) \<Rightarrow> 'e \<Rightarrow> lmem \<Rightarrow> (ptr \<times> lmem) ores" where
  "Cyc_List_tabulate_c heap n f env m = Cyc_List_rtabulate_c heap n f env m"

subsection \<open>Lists in memory\<close>

text \<open>\<open>seg m p ps q\<close>: following \<open>tl\<close> from \<open>p\<close> leads over the cells \<open>ps\<close> to \<open>q\<close>.\<close>

primrec seg :: "lmem \<Rightarrow> ptr \<Rightarrow> ptr list \<Rightarrow> ptr \<Rightarrow> bool" where
  "seg m p [] q \<longleftrightarrow> p = q"
| "seg m p (a # ps) q \<longleftrightarrow> p = a \<and> a \<noteq> NULL \<and> a \<in> set (used m) \<and> seg m (tlf m a) ps q"

abbreviation cells :: "lmem \<Rightarrow> ptr \<Rightarrow> ptr list \<Rightarrow> bool" where
  "cells m p ps \<equiv> seg m p ps NULL"

definition fresh_ok :: "allocator \<Rightarrow> bool" where
  "fresh_ok new \<longleftrightarrow> (\<forall>m. new m \<noteq> NULL \<longrightarrow> new m \<notin> set (used m))"

text \<open>\<open>m'\<close> has new cells, the old ones are as they were.\<close>

definition ext :: "lmem \<Rightarrow> lmem \<Rightarrow> bool" where
  "ext m m' \<longleftrightarrow> set (used m) \<subseteq> set (used m') \<and> (\<forall>q \<in> set (used m). hdf m' q = hdf m q \<and> tlf m' q = tlf m q)"

lemma set_tl_sel [simp]:
  "used (set_tl p t m) = used m" "hdf (set_tl p t m) = hdf m" "tlf (set_tl p t m) q = (if q = p then t else tlf m q)"
  "pair_at (set_tl p t m) = pair_at m" "triple_at (set_tl p t m) = triple_at m"
  by (simp_all add: set_tl_def)

lemma set_cell_sel [simp]:
  "used (set_cell p h t m) = used m" "hdf (set_cell p h t m) q = (if q = p then h else hdf m q)"
  "tlf (set_cell p h t m) q = (if q = p then t else tlf m q)" "pair_at (set_cell p h t m) = pair_at m"
  "triple_at (set_cell p h t m) = triple_at m"
  by (simp_all add: set_cell_def)

lemma cells_NULL [simp]: "cells m NULL ps \<longleftrightarrow> ps = []"
  by (cases ps) auto

lemma seg_append: "seg m p (ps @ qs) r \<longleftrightarrow> (\<exists>q. seg m p ps q \<and> seg m q qs r)"
  by (induction ps arbitrary: p) auto

lemma seg_used: "seg m p ps q \<Longrightarrow> set ps \<subseteq> set (used m) \<and> NULL \<notin> set ps"
  by (induction ps arbitrary: p) auto

lemma seg_cong:
  assumes "\<And>q. q \<in> set ps \<Longrightarrow> tlf m' q = tlf m q" and "set (used m) \<subseteq> set (used m')"
  shows "seg m p ps r \<Longrightarrow> seg m' p ps r"
  using assms(1)
proof (induction ps arbitrary: p)
  case (Cons a ps)
  then show ?case using assms(2) by (auto simp: subset_iff)
qed simp

lemma cells_unique: "cells m p ps \<Longrightarrow> cells m p qs \<Longrightarrow> ps = qs"
proof (induction ps arbitrary: p qs)
  case (Cons a ps)
  then show ?case by (cases qs) auto
qed auto

lemma cells_distinct: "cells m p ps \<Longrightarrow> distinct ps"
proof (induction ps arbitrary: p)
  case (Cons a ps)
  have "a \<notin> set ps"
  proof
    assume "a \<in> set ps"
    then obtain xs ys where ps: "ps = xs @ a # ys" by (meson split_list)
    then have "cells m a (a # ys)" using Cons.prems by (auto simp: seg_append)
    moreover have "cells m a (a # ps)" using Cons.prems by simp
    ultimately have "a # ys = a # ps" by (rule cells_unique)
    then show False using ps by simp
  qed
  then show ?case using Cons by auto
qed simp

lemma ext_refl [simp]: "ext m m"
  by (simp add: ext_def)

lemma ext_cells: "ext m m' \<Longrightarrow> cells m p ps \<Longrightarrow> cells m' p ps \<and> map (hdf m') ps = map (hdf m) ps"
  using seg_used [of m p ps NULL] by (auto simp: ext_def intro!: seg_cong [of ps m' m])

lemma new_cell_f_cases:
  assumes "fresh_ok new" and "f (m\<lparr>used := new m # used m\<rparr>) = Inr h"
  obtains (fail) "new m = NULL" "new_cell_f new f t m = Inl (Throw Bad_alloc)"
    | (ok) p where "p \<noteq> NULL" "p \<notin> set (used m)" "new_cell_f new f t m = Inr (p, set_cell p h t (m\<lparr>used := p # used m\<rparr>))"
  using assms by (cases "new m = NULL") (auto simp: new_cell_f_def alloc_obj_def fresh_ok_def)

lemma new_cell_eq: "new_cell new h t m = new_cell_f new (\<lambda>_. Inr h) t m"
  by (simp add: new_cell_def new_cell_f_def)

lemma new_cell_cases:
  assumes "fresh_ok new"
  obtains (fail) "new m = NULL" "new_cell new h t m = Inl (Throw Bad_alloc)"
    | (ok) p where "p \<noteq> NULL" "p \<notin> set (used m)" "new_cell new h t m = Inr (p, set_cell p h t (m\<lparr>used := p # used m\<rparr>))"
  using new_cell_f_cases [OF assms, of "\<lambda>_. Inr h" m h t] unfolding new_cell_eq by metis

subsection \<open>Copies\<close>

lemma map_loop_spec:
  assumes new: "fresh_ok new" and f: "\<And>v. f v = Inr (g v)"
    and "cells m x xs" "prev \<in> set (used m)" "prev \<notin> set xs" "prev \<noteq> NULL" "tlf m prev = NULL"
  shows "map_loop new f x prev m = Some (Inl (Throw Bad_alloc)) \<and> (\<exists>n. new n = NULL) \<or>
     (\<exists>m' ns. map_loop new f x prev m = Some (Inr (last (prev # ns), m')) \<and> used m' = rev ns @ used m
        \<and> set ns \<inter> set (used m) = {} \<and> cells m' prev (prev # ns) \<and> map (hdf m') ns = map (\<lambda>q. g (hdf m q)) xs
        \<and> (\<forall>q \<in> set (used m). hdf m' q = hdf m q \<and> (q \<noteq> prev \<longrightarrow> tlf m' q = tlf m q)))"
  using assms(3-7)
proof (induction xs arbitrary: x prev m)
  case Nil
  then show ?case by (auto simp: map_loop.simps)
next
  case (Cons a xs)
  from Cons.prems have a: "x = a" "a \<noteq> NULL" "a \<in> set (used m)" "cells m (tlf m a) xs" by auto
  have val: "f (hdf (m\<lparr>used := new m # used m\<rparr>) x) = Inr (g (hdf m a))" using f a(1) by simp
  show ?case
  proof (cases rule: new_cell_f_cases [where f = "\<lambda>m. f (hdf m x)" and t = NULL, OF new val])
    case 1
    then show ?thesis using a(1,2) by (subst (1) map_loop.simps) auto
  next
    case (2 p)
    define m2 where "m2 = set_tl prev p (set_cell p (g (hdf m a)) NULL (m\<lparr>used := p # used m\<rparr>))"
    have sel: "used m2 = p # used m" "tlf m2 p = NULL" "tlf m2 prev = p" "hdf m2 p = g (hdf m a)"
      "\<And>q. q \<in> set (used m) \<Longrightarrow> hdf m2 q = hdf m q \<and> (q \<noteq> prev \<longrightarrow> tlf m2 q = tlf m q)"
      using 2(2) Cons.prems(2) by (auto simp: m2_def)
    have sub: "set xs \<subseteq> set (used m)" using seg_used [OF a(4)] by blast
    have nx: "prev \<notin> set xs" "a \<noteq> prev" using Cons.prems(3) by auto
    have c2: "cells m2 (tlf m2 a) xs"
    proof (rule seg_cong [of xs m2 m])
      show "tlf m2 q = tlf m q" if "q \<in> set xs" for q using that sel(5) sub nx(1) by auto
      show "set (used m) \<subseteq> set (used m2)" using sel(1) by auto
      show "cells m (tlf m2 a) xs" using sel(5) [OF a(3)] nx(2) a(4) by simp
    qed
    have step: "map_loop new f x prev m = map_loop new f (tlf m2 a) p m2"
      using a(1,2) 2(3) by (subst map_loop.simps) (simp add: m2_def)
    have "p \<in> set (used m2)" "p \<notin> set xs" using sel(1) 2(2) sub by auto
    from Cons.IH [OF c2 this 2(1) sel(2)] show ?thesis
    proof (elim disjE exE conjE)
      fix n assume "map_loop new f (tlf m2 a) p m2 = Some (Inl (Throw Bad_alloc))" "new n = NULL"
      then show ?thesis using step by auto
    next
      fix m' ns
      assume r: "map_loop new f (tlf m2 a) p m2 = Some (Inr (last (p # ns), m'))" "used m' = rev ns @ used m2"
        "set ns \<inter> set (used m2) = {}" "cells m' p (p # ns)" "map (hdf m') ns = map (\<lambda>q. g (hdf m2 q)) xs"
        "\<forall>q \<in> set (used m2). hdf m' q = hdf m2 q \<and> (q \<noteq> p \<longrightarrow> tlf m' q = tlf m2 q)"
      have pn: "prev \<noteq> p" using Cons.prems(2) 2(2) by auto
      then have "tlf m' prev = p" using r(6) sel(1,3) Cons.prems(2) by auto
      then have "cells m' prev (prev # p # ns)" using r(2,4) sel(1) Cons.prems(2,4) by auto
      moreover have "map (hdf m') (p # ns) = map (\<lambda>q. g (hdf m q)) (a # xs)"
        using r(5,6) sel(1,4,5) sub by auto
      moreover have "hdf m' q = hdf m q \<and> (q \<noteq> prev \<longrightarrow> tlf m' q = tlf m q)" if "q \<in> set (used m)" for q
        using that r(6) sel(1,5) 2(2) by auto
      ultimately show ?thesis using step r(1-3) sel(1) 2(2)
        by (intro disjI2 exI [of _ m'] exI [of _ "p # ns"]) auto
    qed
  qed
qed

text \<open>A map returns a list of new cells with the images and changes nothing else; so does a copy.\<close>

definition copied :: "allocator \<Rightarrow> (ptr \<Rightarrow> ptr) \<Rightarrow> ptr list \<Rightarrow> lmem \<Rightarrow> (ptr \<times> lmem) ores \<Rightarrow> bool" where
  "copied new g xs m o1 \<longleftrightarrow> o1 = Some (Inl (Throw Bad_alloc)) \<and> (\<exists>n. new n = NULL) \<or>
     (\<exists>r m' ns. o1 = Some (Inr (r, m')) \<and> cells m' r ns \<and> set ns \<inter> set (used m) = {}
        \<and> map (hdf m') ns = map (\<lambda>q. g (hdf m q)) xs \<and> ext m m')"

lemma rmap_copied:
  assumes new: "fresh_ok new" and f: "\<And>v. f v = Inr (g v)" and c: "cells m x xs"
  shows "copied new g xs m (Cyc_List_rmap new f x m)"
proof (cases xs)
  case Nil
  then show ?thesis using c by (auto simp: copied_def Cyc_List_rmap_def)
next
  case (Cons a ys)
  then have a: "x = a" "a \<noteq> NULL" "a \<in> set (used m)" "cells m (tlf m a) ys" using c by auto
  have val: "f (hdf (m\<lparr>used := new m # used m\<rparr>) x) = Inr (g (hdf m a))" using f a(1) by simp
  show ?thesis
  proof (cases rule: new_cell_f_cases [where f = "\<lambda>m. f (hdf m x)" and t = NULL, OF new val])
    case 1
    then show ?thesis using a(1,2) by (auto simp: copied_def Cyc_List_rmap_def)
  next
    case (2 p)
    define m2 where "m2 = set_cell p (g (hdf m a)) NULL (m\<lparr>used := p # used m\<rparr>)"
    have sel: "used m2 = p # used m" "tlf m2 p = NULL" "hdf m2 p = g (hdf m a)"
      "\<And>q. q \<in> set (used m) \<Longrightarrow> hdf m2 q = hdf m q \<and> tlf m2 q = tlf m q"
      using 2(2) by (auto simp: m2_def)
    have sub: "set ys \<subseteq> set (used m)" using seg_used [OF a(4)] by blast
    have e2: "ext m m2" using sel by (auto simp: ext_def)
    have c2: "cells m2 (tlf m2 a) ys" using ext_cells [OF e2 a(4)] sel(4) [OF a(3)] by simp
    have step: "Cyc_List_rmap new f x m = bind_ores (map_loop new f (tlf m2 a) p m2) (\<lambda>(_, m). Some (Inr (p, m)))"
      using a(1,2) 2(3) by (simp add: Cyc_List_rmap_def m2_def)
    have "p \<in> set (used m2)" "p \<notin> set ys" using sel(1) 2(2) sub by auto
    from map_loop_spec [where f = f and g = g, OF new f c2 this 2(1) sel(2)] show ?thesis
    proof (elim disjE exE conjE)
      fix n assume "map_loop new f (tlf m2 a) p m2 = Some (Inl (Throw Bad_alloc))" "new n = NULL"
      then show ?thesis using step by (auto simp: copied_def)
    next
      fix m' ns
      assume r: "map_loop new f (tlf m2 a) p m2 = Some (Inr (last (p # ns), m'))" "used m' = rev ns @ used m2"
        "set ns \<inter> set (used m2) = {}" "cells m' p (p # ns)" "map (hdf m') ns = map (\<lambda>q. g (hdf m2 q)) ys"
        "\<forall>q \<in> set (used m2). hdf m' q = hdf m2 q \<and> (q \<noteq> p \<longrightarrow> tlf m' q = tlf m2 q)"
      have "map (hdf m') (p # ns) = map (\<lambda>q. g (hdf m q)) xs" using r(5,6) sel sub Cons by auto
      moreover have "ext m m'" using r(2,6) sel(1,4) 2(2) by (auto simp: ext_def)
      ultimately show ?thesis using step r(1,3,4) sel(1) 2(2)
        unfolding copied_def by (intro disjI2 exI [of _ p] exI [of _ m'] exI [of _ "p # ns"]) auto
    qed
  qed
qed

lemma rcopy_eq_rmap: "Cyc_List_rcopy new x m = Cyc_List_rmap new Inr x m"
  by (simp add: Cyc_List_rcopy_def Cyc_List_rmap_def new_cell_def new_cell_f_def alloc_obj_def)

subsection \<open>Relinking\<close>

text \<open>The cells \<open>ps\<close> are relinked: heads and allocation are as before, other links too.\<close>

definition relinks :: "ptr set \<Rightarrow> lmem \<Rightarrow> lmem \<Rightarrow> bool" where
  "relinks A m m' \<longleftrightarrow> used m' = used m \<and> hdf m' = hdf m \<and> pair_at m' = pair_at m \<and> triple_at m' = triple_at m
     \<and> (\<forall>q. q \<notin> A \<longrightarrow> tlf m' q = tlf m q)"

lemma relinks_refl [simp]: "relinks A m m"
  by (simp add: relinks_def)

lemma relinks_set_tl: "relinks A (set_tl p t m) m' \<Longrightarrow> relinks (insert p A) m m'"
  by (auto simp: relinks_def)

lemma relinks_trans: "relinks A m m' \<Longrightarrow> relinks A' m' m'' \<Longrightarrow> A \<subseteq> C \<Longrightarrow> A' \<subseteq> C \<Longrightarrow> relinks C m m''"
  unfolding relinks_def by (metis subset_iff)

lemma relinks_mono: "relinks A m m' \<Longrightarrow> A \<subseteq> C \<Longrightarrow> relinks C m m'"
  by (auto simp: relinks_def)

lemma relinks_cells: "relinks A m m' \<Longrightarrow> set ps \<inter> A = {} \<Longrightarrow> seg m p ps q \<Longrightarrow> seg m' p ps q"
  by (auto simp: relinks_def intro!: seg_cong [of ps m' m])

lemma set_tl_cells: "p \<notin> set ps \<Longrightarrow> seg m a ps b \<Longrightarrow> seg (set_tl p t m) a ps b"
  by (rule seg_cong [of ps "set_tl p t m" m]) auto

lemma imp_rev_loop_spec:
  assumes "cells m second ys" and "cells m first xs" and "set ys \<inter> set xs = {}"
  shows "\<exists>r m'. imp_rev_loop first second m = Some (r, m') \<and> cells m' r (rev ys @ xs) \<and> relinks (set ys) m m'"
  using assms
proof (induction ys arbitrary: first second xs m)
  case Nil
  then show ?case by (auto simp: imp_rev_loop.simps)
next
  case (Cons y ys)
  let ?m = "set_tl y first m"
  from Cons.prems have y: "second = y" "y \<noteq> NULL" "y \<in> set (used m)" "cells m (tlf m y) ys" "y \<notin> set ys" "y \<notin> set xs"
    using cells_distinct [OF Cons.prems(1)] by auto
  have 1: "cells ?m (tlf m y) ys" "cells ?m y (y # xs)"
    using set_tl_cells [OF y(5,4)] set_tl_cells [OF y(6) Cons.prems(2)] y(2,3) by auto
  have "set ys \<inter> set (y # xs) = {}" using Cons.prems(3) y(5) by auto
  from Cons.IH [OF 1 this] obtain r m' where "imp_rev_loop y (tlf m y) ?m = Some (r, m')" "cells m' r (rev ys @ y # xs)"
    "relinks (set ys) ?m m'" by blast
  then show ?case using y(1,2) by (subst imp_rev_loop.simps) (auto simp: Let_def intro: relinks_set_tl)
qed

lemma imp_rev_spec:
  assumes "cells m x ps"
  shows "\<exists>r m'. Cyc_List_imp_rev x m = Some (r, m') \<and> cells m' r (rev ps) \<and> relinks (set ps) m m'"
proof (cases ps)
  case Nil
  then show ?thesis using assms by (auto simp: Cyc_List_imp_rev_def)
next
  case (Cons a qs)
  let ?m = "set_tl a NULL m"
  have a: "x = a" "a \<noteq> NULL" "a \<in> set (used m)" "cells m (tlf m a) qs" "a \<notin> set qs"
    using assms cells_distinct [OF assms] Cons by auto
  have 1: "cells ?m (tlf m a) qs" "cells ?m a [a]" "set qs \<inter> set [a] = {}"
    using set_tl_cells [OF a(5,4)] a(2,3,5) by auto
  from imp_rev_loop_spec [OF this] obtain r m' where "imp_rev_loop a (tlf m a) ?m = Some (r, m')"
    "cells m' r (rev qs @ [a])" "relinks (set qs) ?m m'" by blast
  then show ?thesis using a(1,2) Cons by (auto simp: Cyc_List_imp_rev_def Let_def intro: relinks_set_tl)
qed

lemma last_cell_spec: "cells m z ps \<Longrightarrow> ps \<noteq> [] \<Longrightarrow> last_cell z m = Some (Inr (last ps))"
proof (induction ps arbitrary: z)
  case (Cons a ps)
  then show ?case by (cases ps) (auto simp: last_cell.simps)
qed simp

lemma seg_set_last:
  "cells m p ps \<Longrightarrow> ps \<noteq> [] \<Longrightarrow> seg (set_tl (last ps) t m) p ps t"
proof (induction ps arbitrary: p)
  case (Cons a ps)
  have "distinct (a # ps)" by (rule cells_distinct [OF Cons.prems(1)])
  then show ?case using Cons by (cases ps) auto
qed simp

lemma imp_append_spec:
  assumes "cells m x ps" and "cells m y qs" and "set ps \<inter> set qs = {}"
  shows "\<exists>r m'. Cyc_List_imp_append x y m = Some (Inr (r, m')) \<and> cells m' r (ps @ qs) \<and> relinks (set ps) m m'"
proof (cases "ps = [] \<or> qs = []")
  case True
  then show ?thesis using assms(1,2) by (cases ps; cases qs) (auto simp: Cyc_List_imp_append_def)
next
  case False
  then have xy: "x \<noteq> NULL" "y \<noteq> NULL" using assms(1,2) by (cases ps; cases qs; auto)+
  have "last ps \<in> set ps" using False by simp
  then have "last ps \<notin> set qs" using assms(3) by blast
  then have "cells (set_tl (last ps) y m) x (ps @ qs)"
    using seg_set_last [OF assms(1)] False set_tl_cells [OF _ assms(2)] by (auto simp: seg_append)
  moreover have "relinks (set ps) m (set_tl (last ps) y m)" using False by (auto simp: relinks_def)
  ultimately show ?thesis using xy False last_cell_spec [OF assms(1)] by (simp add: Cyc_List_imp_append_def)
qed

subsection \<open>Sorting\<close>

abbreviation sorted_by :: "(ptr \<Rightarrow> ptr \<Rightarrow> int) \<Rightarrow> lmem \<Rightarrow> ptr list \<Rightarrow> bool" where
  "sorted_by cmp m \<equiv> sorted_wrt (\<lambda>p q. cmp (hdf m p) (hdf m q) \<le> 0)"

text \<open>Linking \<open>c\<close> in front of a merged rest that starts with \<open>p\<close>.\<close>

lemma merge_prepend:
  assumes "cells m' p (p # qs)" "sorted_by cmp m (p # qs)" "relinks (insert p A) (set_tl c p m) m'"
    and "c \<notin> insert p A" "c \<noteq> NULL" "c \<in> set (used m)" "\<forall>q \<in> set (p # qs). cmp (hdf m c) (hdf m q) \<le> 0"
  shows "cells m' c (c # p # qs)" and "sorted_by cmp m (c # p # qs)" and "relinks (insert c (insert p A)) m m'"
proof -
  have "tlf m' c = p" "used m' = used m" using assms(3,4) by (auto simp: relinks_def)
  then show "cells m' c (c # p # qs)" using assms(1,5,6) by simp
  show "sorted_by cmp m (c # p # qs)" using assms(2,7) by simp
  show "relinks (insert c (insert p A)) m m'" by (rule relinks_set_tl [OF assms(3)])
qed

lemma imp_merge_loop_end:
  assumes "cells m p ps" "c \<notin> set ps" "c \<noteq> NULL" "c \<in> set (used m)"
  shows "cells (set_tl c p m) c (c # ps)" and "relinks (insert c A) m (set_tl c p m)"
  using set_tl_cells [OF assms(2,1)] assms(3,4) by (auto simp: relinks_def)

lemma imp_merge_loop_spec:
  assumes c: "total_cmp cmp"
    and "cells m a as" "cells m b bs" "set as \<inter> set bs = {}" "c \<notin> set as \<union> set bs" "c \<noteq> NULL" "c \<in> set (used m)"
    and "sorted_by cmp m (c # as)" "sorted_by cmp m (c # bs)"
  shows "\<exists>m' qs. imp_merge_loop cmp a b c m = Some m' \<and> cells m' c (c # qs) \<and> mset qs = mset as + mset bs
     \<and> sorted_by cmp m (c # qs) \<and> relinks (insert c (set as \<union> set bs)) m m'"
  using assms(2-9)
proof (induction "length as + length bs" arbitrary: a b as bs c m rule: less_induct)
  case less
  consider (a) "as = []" | (b) "bs = []" "as \<noteq> []"
    | (both) as1 bs1 where "as = a # as1" "bs = b # bs1" using less.prems(1,2) by (cases as; cases bs) auto
  then show ?case
  proof cases
    case a
    then have "imp_merge_loop cmp a b c m = Some (set_tl c b m)"
      using less.prems(1) by (subst imp_merge_loop.simps) simp
    then show ?thesis
      using a less.prems(8) imp_merge_loop_end [OF less.prems(2)] less.prems(4-6) by (intro exI [of _ "set_tl c b m"] exI [of _ bs]) auto
  next
    case b
    then have "imp_merge_loop cmp a b c m = Some (set_tl c a m)"
      using less.prems(1,2) by (subst imp_merge_loop.simps) auto
    then show ?thesis
      using b less.prems(7) imp_merge_loop_end [OF less.prems(1)] less.prems(4-6) by (intro exI [of _ "set_tl c a m"] exI [of _ as]) auto
  next
    case both
    have A: "a \<noteq> NULL" "a \<in> set (used m)" "cells m (tlf m a) as1" "a \<notin> set as1"
      and B: "b \<noteq> NULL" "b \<in> set (used m)" "cells m (tlf m b) bs1" "b \<notin> set bs1"
      using less.prems(1,2) cells_distinct [OF less.prems(1)] cells_distinct [OF less.prems(2)] both by auto
    have cc: "c \<notin> set as" "c \<notin> set bs" using less.prems(4) by auto
    show ?thesis
    proof (cases "cmp (hdf m a) (hdf m b) \<le> 0")
      case True
      let ?m = "set_tl c a m"
      have p: "cells ?m (tlf ?m a) as1" "cells ?m b bs" "set as1 \<inter> set bs = {}" "a \<notin> set as1 \<union> set bs" "a \<noteq> NULL" "a \<in> set (used ?m)"
        using set_tl_cells [OF _ A(3), of c] set_tl_cells [OF cc(2) less.prems(2)] A less.prems(3) cc both by auto
      have s: "sorted_by cmp ?m (a # as1)" "sorted_by cmp ?m (a # bs)"
        using less.prems(7,8) True total_cmp.cmp_trans [OF c] both by auto
      have "length as1 + length bs < length as + length bs" using both by simp
      from less.hyps [OF this p s] obtain m' qs where r: "imp_merge_loop cmp (tlf ?m a) b a ?m = Some m'" "cells m' a (a # qs)"
        "mset qs = mset as1 + mset bs" "sorted_by cmp m (a # qs)" "relinks (insert a (set as1 \<union> set bs)) ?m m'" by auto
      have q: "set qs = set as1 \<union> set bs" using r(3) by (metis set_mset_mset set_mset_union)
      have "\<forall>q \<in> set (a # qs). cmp (hdf m c) (hdf m q) \<le> 0" using less.prems(7,8) q both by auto
      note P = merge_prepend [OF r(2,4,5) _ less.prems(5,6) this]
      have "imp_merge_loop cmp a b c m = Some m'" using r(1) True A(1) B(1) by (subst imp_merge_loop.simps) (simp add: Let_def)
      then show ?thesis using P r(3) cc both by (intro exI [of _ m'] exI [of _ "a # qs"]) (auto simp: insert_commute)
    next
      case False
      let ?m = "set_tl c b m"
      have p: "cells ?m a as" "cells ?m (tlf ?m b) bs1" "set as \<inter> set bs1 = {}" "b \<notin> set as \<union> set bs1" "b \<noteq> NULL" "b \<in> set (used ?m)"
        using set_tl_cells [OF _ B(3), of c] set_tl_cells [OF cc(1) less.prems(1)] B less.prems(3) cc both by auto
      have ba: "cmp (hdf m b) (hdf m a) \<le> 0" using False total_cmp.cmp_le_iff [OF c] by (metis linorder_le_cases)
      have s: "sorted_by cmp ?m (b # as)" "sorted_by cmp ?m (b # bs1)"
        using less.prems(7,8) ba total_cmp.cmp_trans [OF c] both by auto
      have "length as + length bs1 < length as + length bs" using both by simp
      from less.hyps [OF this p s] obtain m' qs where r: "imp_merge_loop cmp a (tlf ?m b) b ?m = Some m'" "cells m' b (b # qs)"
        "mset qs = mset as + mset bs1" "sorted_by cmp m (b # qs)" "relinks (insert b (set as \<union> set bs1)) ?m m'" by auto
      have q: "set qs = set as \<union> set bs1" using r(3) by (metis set_mset_mset set_mset_union)
      have "\<forall>q \<in> set (b # qs). cmp (hdf m c) (hdf m q) \<le> 0" using less.prems(7,8) q both by auto
      note P = merge_prepend [OF r(2,4,5) _ less.prems(5,6) this]
      have "imp_merge_loop cmp a b c m = Some m'" using r(1) False A(1) B(1) by (subst imp_merge_loop.simps) (simp add: Let_def)
      then show ?thesis using P r(3) cc both by (intro exI [of _ m'] exI [of _ "b # qs"]) (auto simp: insert_commute)
    qed
  qed
qed

text \<open>What an operation that sorts or merges the cells \<open>ps\<close> in place returns.\<close>

definition sorts_to :: "(ptr \<Rightarrow> ptr \<Rightarrow> int) \<Rightarrow> ptr multiset \<Rightarrow> lmem \<Rightarrow> (ptr \<times> lmem) option \<Rightarrow> bool" where
  "sorts_to cmp ps m o1 \<longleftrightarrow> (\<exists>r m' qs. o1 = Some (r, m') \<and> cells m' r qs \<and> mset qs = ps
     \<and> sorted_by cmp m qs \<and> relinks (set_mset ps) m m')"

lemma imp_merge_spec:
  assumes c: "total_cmp cmp" and ab: "cells m a as" "cells m b bs" "set as \<inter> set bs = {}" "sorted_by cmp m as" "sorted_by cmp m bs"
  shows "sorts_to cmp (mset as + mset bs) m (Cyc_List_imp_merge cmp a b m)"
proof (cases "as = [] \<or> bs = []")
  case True
  then have "Cyc_List_imp_merge cmp a b m = Some (if as = [] then b else a, m)"
    using ab(1,2) by (cases as; cases bs) (auto simp: Cyc_List_imp_merge_def)
  moreover have "cells m (if as = [] then b else a) (as @ bs)" "sorted_by cmp m (as @ bs)" using True ab by auto
  ultimately show ?thesis unfolding sorts_to_def by (metis mset_append relinks_refl)
next
  case False
  then obtain as1 bs1 where e: "as = a # as1" "bs = b # bs1" using ab by (cases as; cases bs) auto
  have A: "a \<noteq> NULL" "a \<in> set (used m)" "cells m (tlf m a) as1" "a \<notin> set as1"
    and B: "b \<noteq> NULL" "b \<in> set (used m)" "cells m (tlf m b) bs1" "b \<notin> set bs1"
    using ab(1,2) cells_distinct [OF ab(1)] cells_distinct [OF ab(2)] e by auto
  show ?thesis
  proof (cases "cmp (hdf m a) (hdf m b) \<le> 0")
    case True
    have "set as1 \<inter> set bs = {}" "a \<notin> set as1 \<union> set bs" using ab(3) A(4) e by auto
    moreover have "sorted_by cmp m (a # as1)" "sorted_by cmp m (a # bs)"
      using ab(4,5) True e total_cmp.cmp_trans [OF c] by auto
    ultimately obtain m' qs where "imp_merge_loop cmp (tlf m a) b a m = Some m'" "cells m' a (a # qs)"
      "mset qs = mset as1 + mset bs" "sorted_by cmp m (a # qs)" "relinks (insert a (set as1 \<union> set bs)) m m'"
      using imp_merge_loop_spec [OF c A(3) ab(2) _ _ A(1,2)] by blast
    then show ?thesis using A(1) B(1) True e
      by (auto simp: Cyc_List_imp_merge_def sorts_to_def insert_commute intro!: exI [of _ "a # qs"])
  next
    case False
    have ba: "cmp (hdf m b) (hdf m a) \<le> 0" using False total_cmp.cmp_le_iff [OF c] by (metis linorder_le_cases)
    have "set as \<inter> set bs1 = {}" "b \<notin> set as \<union> set bs1" using ab(3) B(4) e by auto
    moreover have "sorted_by cmp m (b # as)" "sorted_by cmp m (b # bs1)"
      using ab(4,5) ba e total_cmp.cmp_trans [OF c] by auto
    ultimately obtain m' qs where "imp_merge_loop cmp a (tlf m b) b m = Some m'" "cells m' b (b # qs)"
      "mset qs = mset as + mset bs1" "sorted_by cmp m (b # qs)" "relinks (insert b (set as \<union> set bs1)) m m'"
      using imp_merge_loop_spec [OF c ab(1) B(3) _ _ B(1,2)] by blast
    then show ?thesis using A(1) B(1) False e
      by (auto simp: Cyc_List_imp_merge_def sorts_to_def insert_commute intro!: exI [of _ "b # qs"])
  qed
qed

text \<open>The deal, with the two ends closed as \<open>rimp_merge_sort\<close> closes them.\<close>

lemma split_loop_spec:
  assumes "cells m x xs" "a \<notin> set xs" "b \<notin> set xs" "a \<noteq> b" "a \<noteq> NULL" "b \<noteq> NULL" "a \<in> set (used m)" "b \<in> set (used m)"
  shows "\<exists>a' b' m' as bs. split_loop x a b m = Some (a', b', m')
     \<and> cells (set_tl b' NULL (set_tl a' NULL m')) a (a # as) \<and> cells (set_tl b' NULL (set_tl a' NULL m')) b (b # bs)
     \<and> mset xs = mset as + mset bs \<and> relinks (insert a (insert b (set xs))) m (set_tl b' NULL (set_tl a' NULL m'))"
  using assms
proof (induction xs arbitrary: x a b m rule: induct_list012)
  case 1
  then show ?case by (auto simp: split_loop.simps relinks_def)
next
  case (2 y)
  then have "split_loop x a b m = Some (y, b, set_tl a y m)" by (auto simp: split_loop.simps)
  then show ?case using 2 by (auto simp: relinks_def intro!: exI [of _ "[y]"] exI [of _ "[]"])
next
  case (3 y z zs)
  let ?m = "set_tl b z (set_tl a y m)"
  have yz: "x = y" "y \<noteq> NULL" "z \<noteq> NULL" "y \<in> set (used m)" "z \<in> set (used m)" "tlf m y = z" "cells m (tlf m z) zs"
    "y \<noteq> z" "y \<notin> set zs" "z \<notin> set zs" "a \<noteq> y" "a \<noteq> z" "b \<noteq> y" "b \<noteq> z" "a \<notin> set zs" "b \<notin> set zs"
    using "3.prems" cells_distinct [OF "3.prems"(1)] by auto
  have c: "cells ?m (tlf m z) zs" using yz by (intro set_tl_cells) auto
  have u: "y \<in> set (used ?m)" "z \<in> set (used ?m)" using yz by auto
  from "3.IH"(1) [OF c yz(9,10,8,2,3) u] obtain a' b' m' as bs where r: "split_loop (tlf m z) y z ?m = Some (a', b', m')"
    and R: "cells (set_tl b' NULL (set_tl a' NULL m')) y (y # as)" "cells (set_tl b' NULL (set_tl a' NULL m')) z (z # bs)"
     "mset zs = mset as + mset bs" "relinks (insert y (insert z (set zs))) ?m (set_tl b' NULL (set_tl a' NULL m'))" by blast
  define n where "n = set_tl b' NULL (set_tl a' NULL m')"
  have R: "cells n y (y # as)" "cells n z (z # bs)" "relinks (insert y (insert z (set zs))) ?m n" using R by (simp_all add: n_def)
  have "split_loop x a b m = Some (a', b', m')" using r yz by (subst split_loop.simps) (simp add: Let_def)
  moreover have "tlf n a = y" "tlf n b = z" "used n = used m" using R(3) yz "3.prems"(4) by (auto simp: relinks_def)
  then have "cells n a (a # y # as)" "cells n b (b # z # bs)" using R(1,2) "3.prems"(5-8) by auto
  moreover have "relinks (insert a (insert b (set (y # z # zs)))) m n" using R(3) by (auto simp: relinks_def)
  moreover have "mset (y # z # zs) = mset (y # as) + mset (z # bs)" using \<open>mset zs = _\<close> by simp
  ultimately show ?case unfolding n_def by blast
qed

lemma rimp_merge_sort_spec:
  assumes c: "total_cmp cmp"
  shows "cells m x ps \<Longrightarrow> sorts_to cmp (mset ps) m (Cyc_List_rimp_merge_sort cmp x m)"
proof (induction "length ps" arbitrary: x m ps rule: less_induct)
  case less
  consider (small) "length ps < 2" | (big) b xs where "ps = x # b # xs"
    using less.prems by (cases ps rule: remdups_adj.cases) auto
  then show ?case
  proof cases
    case small
    then have "Cyc_List_rimp_merge_sort cmp x m = Some (x, m)"
      using less.prems by (cases ps) (auto simp: Cyc_List_rimp_merge_sort.simps)
    then show ?thesis using small less.prems by (cases ps) (auto simp: sorts_to_def)
  next
    case big
    have P: "cells m (tlf m b) xs" "x \<notin> set xs" "b \<notin> set xs" "x \<noteq> b" "x \<noteq> NULL" "b \<noteq> NULL" "x \<in> set (used m)" "b \<in> set (used m)"
      "tlf m x = b" using less.prems cells_distinct [OF less.prems] big by auto
    from split_loop_spec [OF P(1-8)] obtain a' b' m' as bs where S: "split_loop (tlf m b) x b m = Some (a', b', m')"
      "cells (set_tl b' NULL (set_tl a' NULL m')) x (x # as)" "cells (set_tl b' NULL (set_tl a' NULL m')) b (b # bs)"
      "mset xs = mset as + mset bs" "relinks (insert x (insert b (set xs))) m (set_tl b' NULL (set_tl a' NULL m'))" by blast
    define n where "n = set_tl b' NULL (set_tl a' NULL m')"
    have n: "cells n x (x # as)" "cells n b (b # bs)" "relinks (set ps) m n" using S big by (simp_all add: n_def)
    have M: "mset ps = mset (x # as) + mset (b # bs)" using S(4) big by simp
    then have "distinct ((x # as) @ (b # bs))"
      using cells_distinct [OF less.prems] by (metis mset_append mset_eq_imp_distinct_iff)
    then have dis: "set (x # as) \<inter> set (b # bs) = {}" by auto
    have len: "length (x # as) < length ps" "length (b # bs) < length ps"
      using arg_cong [OF M, of size] by simp_all
    obtain r1 m1 q1 where 1: "Cyc_List_rimp_merge_sort cmp x n = Some (r1, m1)" "cells m1 r1 q1" "mset q1 = mset (x # as)"
      "sorted_by cmp n q1" "relinks (set (x # as)) n m1"
      using less.hyps [OF len(1) n(1)] by (auto simp: sorts_to_def)
    have nb: "cells m1 b (b # bs)" by (rule relinks_cells [OF 1(5) _ n(2)]) (use dis in auto)
    obtain r2 m2 q2 where 2: "Cyc_List_rimp_merge_sort cmp b m1 = Some (r2, m2)" "cells m2 r2 q2" "mset q2 = mset (b # bs)"
      "sorted_by cmp m1 q2" "relinks (set (b # bs)) m1 m2"
      using less.hyps [OF len(2) nb] by (auto simp: sorts_to_def)
    have s: "set q1 = set (x # as)" "set q2 = set (b # bs)" using 1(3) 2(3) by (metis set_mset_mset)+
    have na: "cells m2 r1 q1" by (rule relinks_cells [OF 2(5) _ 1(2)]) (use dis s in auto)
    have hd: "hdf n = hdf m" "hdf m1 = hdf m" "hdf m2 = hdf m" using n(3) 1(5) 2(5) by (auto simp: relinks_def)
    have "sorts_to cmp (mset q1 + mset q2) m2 (Cyc_List_imp_merge cmp r1 r2 m2)"
      using imp_merge_spec [OF c na 2(2)] dis s hd 1(4) 2(4) by simp
    moreover have "Cyc_List_rimp_merge_sort cmp x m = Cyc_List_imp_merge cmp r1 r2 m2"
      using P(5,9,6) S(1) 1(1) 2(1) by (subst Cyc_List_rimp_merge_sort.simps) (simp add: n_def Let_def)
    moreover have "relinks (set ps) m m2"
    proof (rule relinks_trans [OF n(3)])
      show "relinks (set ps) n m2"
        by (rule relinks_trans [OF 1(5) 2(5)]) (use arg_cong [OF M, of set_mset] in auto)
    qed auto
    ultimately show ?thesis using M 1(3) 2(3) hd relinks_trans [of "set ps" m m2 "set ps" _ "set ps"]
      unfolding sorts_to_def by (metis order_refl set_mset_mset)
  qed
qed

lemma cells_tl_eq: "cells m x ps \<Longrightarrow> cells m' x ps \<Longrightarrow> q \<in> set ps \<Longrightarrow> tlf m' q = tlf m q"
proof (induction ps arbitrary: x)
  case (Cons a ps)
  show ?case
  proof (cases "q = a")
    case True
    then show ?thesis using Cons.prems(1,2) by (cases ps) auto
  next
    case False
    have "tlf m' a = tlf m a" using Cons.prems(1,2) by (cases ps) auto
    then show ?thesis using Cons.IH [of "tlf m a"] Cons.prems False by auto
  qed
qed simp

lemma relinks_same_cells:
  fixes m m' :: lmem
  assumes "relinks (set ps) m m'" "cells m x ps" "cells m' x ps"
  shows "m' = m"
proof -
  have "tlf m' q = tlf m q" for q
    using assms(1) cells_tl_eq [OF assms(2,3)] by (cases "q \<in> set ps") (auto simp: relinks_def)
  then show ?thesis using assms(1) by (auto simp: relinks_def intro!: lmem.equality ext)
qed

subsection \<open>Searching\<close>

lemma nth_spec:
  "cells m x ps \<Longrightarrow> Cyc_List_nth x i m =
     Some (if 0 \<le> i \<and> i < int (length ps) then Inr (hdf m (ps ! nat i)) else Inl (Throw Nth))"
proof (induction ps arbitrary: x i)
  case Nil
  then show ?case by (auto simp: Cyc_List_nth.simps)
next
  case (Cons a ps)
  then have a: "x = a" "a \<noteq> NULL" "cells m (tlf m a) ps" by auto
  show ?case
  proof (cases "i > 0")
    case True
    then have "nat i = Suc (nat (i - 1))" by simp
    then show ?thesis using True a Cons.IH [OF a(3), of "i - 1"] by (subst Cyc_List_nth.simps) auto
  next
    case False
    then show ?thesis using a by (auto simp: Cyc_List_nth.simps)
  qed
qed

subsection \<open>No dangling links\<close>

text \<open>
  The type of a cell says that its tail is null or again a cell: a store in which every link of an
  allocated cell leads to an allocated cell or to null.
\<close>

definition cell_ptr :: "lmem \<Rightarrow> ptr \<Rightarrow> bool" where
  "cell_ptr m p \<longleftrightarrow> p = NULL \<or> p \<in> set (used m)"

definition lmem_ok :: "lmem \<Rightarrow> bool" where
  "lmem_ok m \<longleftrightarrow> NULL \<notin> set (used m) \<and> (\<forall>p \<in> set (used m). cell_ptr m (tlf m p))"

text \<open>\<open>grows m p m'\<close>: the new store is well formed, has the old cells, and \<open>p\<close> is a list of it.\<close>

definition grows :: "lmem \<Rightarrow> ptr \<Rightarrow> lmem \<Rightarrow> bool" where
  "grows m p m' \<longleftrightarrow> lmem_ok m' \<and> cell_ptr m' p \<and> set (used m) \<subseteq> set (used m')"

lemma cell_ptr_NULL [simp]: "cell_ptr m NULL"
  by (simp add: cell_ptr_def)

lemma lmem_ok_tl: "lmem_ok m \<Longrightarrow> cell_ptr m x \<Longrightarrow> x \<noteq> NULL \<Longrightarrow> cell_ptr m (tlf m x)"
  by (auto simp: lmem_ok_def cell_ptr_def)

lemma cell_ptr_mono: "cell_ptr m x \<Longrightarrow> set (used m) \<subseteq> set (used m') \<Longrightarrow> cell_ptr m' x"
  by (auto simp: cell_ptr_def)

lemma set_tl_ok [simp]: "lmem_ok m \<Longrightarrow> cell_ptr m t \<Longrightarrow> lmem_ok (set_tl p t m)"
  by (auto simp: lmem_ok_def cell_ptr_def)

lemma cell_ptr_set_tl [simp]: "cell_ptr (set_tl p t m) q \<longleftrightarrow> cell_ptr m q"
  by (simp add: cell_ptr_def)

lemma grows_set_tl [simp]: "grows (set_tl p t m) q m' \<longleftrightarrow> grows m q m'"
  by (simp add: grows_def)

lemma grows_trans: "grows m p m' \<Longrightarrow> grows m' q m'' \<Longrightarrow> grows m q m''"
  by (auto simp: grows_def)

lemma grows_mono: "grows m p m' \<Longrightarrow> cell_ptr m x \<Longrightarrow> cell_ptr m' x"
  by (auto simp: grows_def cell_ptr_def)

lemma new_cell_f_grows: "new_cell_f new f t m = Inr (p, m') \<Longrightarrow> lmem_ok m \<Longrightarrow> cell_ptr m t \<Longrightarrow> grows m p m'"
  unfolding new_cell_f_def alloc_obj_def
  by (cases "f (m\<lparr>used := new m # used m\<rparr>)") (auto simp: grows_def lmem_ok_def cell_ptr_def split: if_splits)

lemma imp_rev_loop_grows:
  assumes "imp_rev_loop a b m = Some z" "lmem_ok m" "cell_ptr m a" "cell_ptr m b"
  shows "grows m (fst z) (snd z)"
proof -
  define Q where "Q a b m z \<longleftrightarrow> lmem_ok m \<longrightarrow> cell_ptr m a \<longrightarrow> cell_ptr m b \<longrightarrow> grows m (fst z) (snd z)" for a b m and z :: "ptr \<times> lmem"
  have "Q a b m z"
  proof (rule imp_rev_loop.raw_induct [OF _ assms(1)])
    fix loop a b m z
    assume IH: "\<And>a b m z. loop a b m = Some z \<Longrightarrow> Q a b m z"
      and e: "(if b \<noteq> NULL then let temp = tlf m b; m = set_tl b a m in loop b temp m else Some (a, m)) = Some z"
    show "Q a b m z"
    proof (cases "b = NULL")
      case True
      then show ?thesis using e by (auto simp: Q_def grows_def)
    next
      case False
      then have "Q b (tlf m b) (set_tl b a m) z" using e IH by (simp add: Let_def)
      then show ?thesis using lmem_ok_tl False by (simp add: Q_def)
    qed
  qed
  then show ?thesis using assms(2-4) by (simp add: Q_def)
qed

lemma map_loop_grows:
  assumes "map_loop new f x prev m = Some (Inr (l, m'))" "lmem_ok m" "cell_ptr m x" "cell_ptr m prev"
  shows "grows m l m'"
proof -
  define Q where "Q new f x prev m z \<longleftrightarrow> (\<forall>l m'. z = Inr (l, m') \<longrightarrow> lmem_ok m \<longrightarrow> cell_ptr m x \<longrightarrow> cell_ptr m prev \<longrightarrow> grows m l m')"
    for new :: allocator and f :: "ptr \<Rightarrow> ptr res" and x prev m and z :: "(ptr \<times> lmem) res"
  have step: "Q new f x prev m z"
    if IH: "\<And>new f x prev m z. loop new f x prev m = Some z \<Longrightarrow> Q new f x prev m z"
      and e: "(if x \<noteq> NULL then bind_ores (Some (new_cell_f new (\<lambda>m. f (hdf m x)) NULL m)) (\<lambda>(temp, m).
             let m = set_tl prev temp m in loop new f (tlf m x) temp m) else Some (Inr (prev, m))) = Some z"
    for loop new f x prev m z
  proof (unfold Q_def, intro allI impI)
    fix l m' assume z: "z = Inr (l, m')" and m: "lmem_ok m" and x: "cell_ptr m x" and p: "cell_ptr m prev"
    show "grows m l m'"
    proof (cases "x = NULL")
      case True
      then show ?thesis using e z m p by (auto simp: grows_def)
    next
      case False
      with e z obtain t n where n: "new_cell_f new (\<lambda>m. f (hdf m x)) NULL m = Inr (t, n)"
        "loop new f (tlf (set_tl prev t n) x) t (set_tl prev t n) = Some z"
        by (cases "new_cell_f new (\<lambda>m. f (hdf m x)) NULL m") (auto simp: Let_def)
      have g: "grows m t n" by (rule new_cell_f_grows [OF n(1) m]) simp
      have "cell_ptr (set_tl prev t n) (tlf (set_tl prev t n) x)"
        by (rule lmem_ok_tl) (use g False grows_mono [OF g x] in \<open>auto simp: grows_def\<close>)
      then have "grows n l m'" using IH [OF n(2)] z g by (simp add: Q_def grows_def)
      then show ?thesis using grows_trans [OF g] by blast
    qed
  qed
  have "Q new f x prev m (Inr (l, m'))"
    by (rule map_loop.raw_induct [of Q "((((new, f), x), prev), m)" "Inr (l, m')", unfolded prod.case, OF _ assms(1)])
      (erule (1) step)
  then show ?thesis using assms(2-4) by (simp add: Q_def)
qed

lemma rrevappend_grows:
  assumes "Cyc_List_rrevappend new x y m = Some (Inr (l, m'))" "lmem_ok m" "cell_ptr m x" "cell_ptr m y"
  shows "grows m l m'"
proof -
  define Q where "Q new x y m z \<longleftrightarrow> (\<forall>l m'. z = Inr (l, m') \<longrightarrow> lmem_ok m \<longrightarrow> cell_ptr m x \<longrightarrow> cell_ptr m y \<longrightarrow> grows m l m')"
    for new :: allocator and x y m and z :: "(ptr \<times> lmem) res"
  have step: "Q new x y m z"
    if IH: "\<And>new x y m z. loop new x y m = Some z \<Longrightarrow> Q new x y m z"
      and e: "(if x \<noteq> NULL then bind_ores (Some (new_cell new (hdf m x) y m)) (\<lambda>(y, m). loop new (tlf m x) y m)
               else Some (Inr (y, m))) = Some z"
    for loop new x y m z
  proof (unfold Q_def, intro allI impI)
    fix l m' assume z: "z = Inr (l, m')" and m: "lmem_ok m" and x: "cell_ptr m x" and y: "cell_ptr m y"
    show "grows m l m'"
    proof (cases "x = NULL")
      case True
      then show ?thesis using e z m y by (auto simp: grows_def)
    next
      case False
      with e z obtain t n where n: "new_cell new (hdf m x) y m = Inr (t, n)" "loop new (tlf n x) t n = Some z"
        by (cases "new_cell new (hdf m x) y m") auto
      have g: "grows m t n" by (rule new_cell_f_grows [OF n(1) [unfolded new_cell_eq] m y])
      have "cell_ptr n (tlf n x)"
        by (rule lmem_ok_tl) (use g False grows_mono [OF g x] in \<open>auto simp: grows_def\<close>)
      then have "grows n l m'" using IH [OF n(2)] z g by (simp add: Q_def grows_def)
      then show ?thesis using grows_trans [OF g] by blast
    qed
  qed
  have "Q new x y m (Inr (l, m'))"
    by (rule Cyc_List_rrevappend.raw_induct [of Q "(((new, x), y), m)" "Inr (l, m')", unfolded prod.case, OF _ assms(1)])
      (erule (1) step)
  then show ?thesis using assms(2-4) by (simp add: Q_def)
qed

lemma rmap_grows:
  assumes "Cyc_List_rmap new f x m = Some (Inr (l, m'))" "lmem_ok m" "cell_ptr m x"
  shows "grows m l m'"
proof (cases "x = NULL")
  case True
  then show ?thesis using assms by (auto simp: Cyc_List_rmap_def grows_def)
next
  case False
  with assms(1) obtain n k where n: "new_cell_f new (\<lambda>m. f (hdf m x)) NULL m = Inr (l, n)"
    "map_loop new f (tlf n x) l n = Some (Inr (k, m'))"
    by (auto simp: Cyc_List_rmap_def bind_ores_eq_Inr)
  have g: "grows m l n" by (rule new_cell_f_grows [OF n(1) assms(2)]) simp
  then have "cell_ptr n (tlf n x)" using lmem_ok_tl False grows_mono [OF g assms(3)] by (auto simp: grows_def)
  then have "grows n k m'" using map_loop_grows [OF n(2)] g by (auto simp: grows_def)
  then show ?thesis using g by (auto simp: grows_def cell_ptr_def)
qed

lemma rappend_grows:
  assumes "Cyc_List_rappend new x y m = Some (Inr (l, m'))" "lmem_ok m" "cell_ptr m x" "cell_ptr m y"
  shows "grows m l m'"
proof -
  consider "x = NULL" | "y = NULL" "x \<noteq> NULL" | (both) "x \<noteq> NULL" "y \<noteq> NULL" by blast
  then show ?thesis
  proof cases
    case 1
    then show ?thesis using assms by (auto simp: Cyc_List_rappend_def grows_def)
  next
    case 2
    then show ?thesis using assms rmap_grows [of new Inr x m] by (simp add: Cyc_List_rappend_def rcopy_eq_rmap)
  next
    case both
    with assms(1) obtain n k m1 where n: "new_cell new (hdf m x) NULL m = Inr (l, n)"
      "map_loop new Inr (tlf n x) l n = Some (Inr (k, m1))" "m' = set_tl k y m1"
      by (auto simp: Cyc_List_rappend_def bind_ores_eq_Inr)
    have g: "grows m l n" by (rule new_cell_f_grows [OF n(1) [unfolded new_cell_eq] assms(2)]) simp
    then have "cell_ptr n (tlf n x)" using lmem_ok_tl both(1) grows_mono [OF g assms(3)] by (auto simp: grows_def)
    then have g1: "grows n k m1" using map_loop_grows [OF n(2)] g by (auto simp: grows_def)
    have "cell_ptr m1 y" by (rule grows_mono [OF g1 grows_mono [OF g assms(4)]])
    then show ?thesis using g g1 n(3) by (auto simp: grows_def cell_ptr_def)
  qed
qed

lemma imp_rev_grows:
  "Cyc_List_imp_rev x m = Some (l, m') \<Longrightarrow> lmem_ok m \<Longrightarrow> cell_ptr m x \<Longrightarrow> grows m l m'"
  using imp_rev_loop_grows [of x "tlf m x" "set_tl x NULL m" "(l, m')"] lmem_ok_tl [of m x]
  by (auto simp: Cyc_List_imp_rev_def Let_def grows_def split: if_splits)

lemma imp_append_grows:
  "Cyc_List_imp_append x y m = Some (Inr (l, m')) \<Longrightarrow> lmem_ok m \<Longrightarrow> cell_ptr m x \<Longrightarrow> cell_ptr m y \<Longrightarrow> grows m l m'"
  by (auto simp: Cyc_List_imp_append_def grows_def bind_ores_eq_Inr split: if_splits)

text \<open>A result is a list of a well-formed store; a throw and a run for ever have none.\<close>

definition list_typed :: "(ptr \<times> lmem) ores \<Rightarrow> bool" where
  "list_typed o1 = (case o1 of Some (Inr (l, m')) \<Rightarrow> lmem_ok m' \<and> cell_ptr m' l | _ \<Rightarrow> True)"

lemma list_typedI: "(\<And>l m'. o1 = Some (Inr (l, m')) \<Longrightarrow> grows m l m') \<Longrightarrow> list_typed o1"
  by (auto simp: list_typed_def grows_def split: option.split sum.split)

subsection \<open>Properties\<close>

text \<open>C16: \<open>rimp_merge_sort\<close> returns on every list: the result has the same cells, in the order of the
  comparison, the heads are as they were, and only the links of these cells change.
\<close>

theorem list_merge_sort_correct:
  assumes "total_cmp cmp" and "cells m x ps"
  shows "\<exists>r m' qs. Cyc_List_rimp_merge_sort cmp x m = Some (r, m') \<and> cells m' r qs \<and> mset qs = mset ps
     \<and> sorted_wrt (\<lambda>p q. cmp (hdf m' p) (hdf m' q) \<le> 0) qs \<and> relinks (set ps) m m'"
  using rimp_merge_sort_spec [OF assms] by (auto simp: sorts_to_def relinks_def)

definition three_cells :: lmem where
  "three_cells = \<lparr>used = [4, 8, 12], hdf = (\<lambda>p. if p = 4 then 30 else if p = 8 then 10 else 20),
     tlf = (\<lambda>p. if p = 4 then 8 else if p = 8 then 12 else NULL), pair_at = (\<lambda>_. (0, 0)), triple_at = (\<lambda>_. (0, 0, 0))\<rparr>"

theorem list_merge_sort_correct_witness:
  "cells three_cells 4 [4, 8, 12] \<and>
   (\<exists>r m' qs. Cyc_List_rimp_merge_sort Cyc_Core_nptrcmp 4 three_cells = Some (r, m') \<and> cells m' r qs \<and> mset qs = mset [4, 8, 12]
     \<and> sorted_wrt (\<lambda>p q. Cyc_Core_nptrcmp (hdf m' p) (hdf m' q) \<le> 0) qs \<and> relinks {4, 8, 12} three_cells m')"
  using list_merge_sort_correct [OF nptrcmp.total_cmp_axioms, of three_cells 4 "[4, 8, 12]"] by (simp add: three_cells_def)

text \<open>\<open>imp_rev\<close> returns the cells in reverse order and changes only the links of these cells; a second
  \<open>imp_rev\<close> gives the first list and the first store back.
\<close>

theorem list_imp_rev_roundtrip:
  fixes m :: lmem
  assumes "cells m x ps"
  shows "\<exists>r m'. Cyc_List_imp_rev x m = Some (r, m') \<and> cells m' r (rev ps) \<and> relinks (set ps) m m'
     \<and> Cyc_List_imp_rev r m' = Some (x, m)"
proof -
  obtain r m' where 1: "Cyc_List_imp_rev x m = Some (r, m')" "cells m' r (rev ps)" "relinks (set ps) m m'"
    using imp_rev_spec [OF assms] by blast
  obtain x' m2 where 2: "Cyc_List_imp_rev r m' = Some (x', m2)" "cells m2 x' ps" "relinks (set ps) m' m2"
    using imp_rev_spec [OF 1(2)] by auto
  have "x' = x" using 2(2) assms by (cases ps) auto
  moreover have "m2 = m"
    using relinks_same_cells [OF relinks_trans [OF 1(3) 2(3) order_refl order_refl] assms] 2(2) calculation by simp
  ultimately show ?thesis using 1 2(1) by blast
qed

theorem list_imp_rev_roundtrip_witness:
  "cells three_cells 4 [4, 8, 12] \<and>
   (\<exists>r m'. Cyc_List_imp_rev 4 three_cells = Some (r, m') \<and> cells m' r [12, 8, 4] \<and> relinks {4, 8, 12} three_cells m'
     \<and> Cyc_List_imp_rev r m' = Some (4, three_cells))"
  using list_imp_rev_roundtrip [of three_cells 4 "[4, 8, 12]"] by (simp add: three_cells_def)

text \<open>\<open>rmap\<close> throws \<open>Bad_alloc\<close>, and that only if the allocator refuses some request, or returns a list of new cells with the images of the heads in order;
  every cell that was there before is as it was.
\<close>

theorem list_rmap_copies:
  assumes "fresh_ok new" and "\<And>v. f v = Inr (g v)" and "cells m x xs"
  shows "Cyc_List_rmap new f x m = Some (Inl (Throw Bad_alloc)) \<and> (\<exists>n. new n = NULL) \<or>
     (\<exists>r m' ns. Cyc_List_rmap new f x m = Some (Inr (r, m')) \<and> cells m' r ns \<and> set ns \<inter> set (used m) = {}
        \<and> map (hdf m') ns = map (\<lambda>q. g (hdf m q)) xs \<and> ext m m')"
  using rmap_copied [where f = f and g = g, OF assms] unfolding copied_def by blast

definition bump :: allocator where
  "bump m = (case List.find (\<lambda>p. p \<notin> set (used m)) [16, 20, 24] of Some p \<Rightarrow> p | None \<Rightarrow> NULL)"

lemma bump_fresh: "fresh_ok bump"
  by (auto simp: fresh_ok_def bump_def)

theorem list_rmap_copies_witness:
  "fresh_ok bump \<and> cells three_cells 4 [4, 8, 12] \<and>
   (Cyc_List_rmap bump (\<lambda>v. Inr (v + 1)) 4 three_cells = Some (Inl (Throw Bad_alloc)) \<and> (\<exists>n. bump n = NULL) \<or>
     (\<exists>r m' ns. Cyc_List_rmap bump (\<lambda>v. Inr (v + 1)) 4 three_cells = Some (Inr (r, m')) \<and> cells m' r ns
        \<and> set ns \<inter> {4, 8, 12} = {} \<and> map (hdf m') ns = [31, 11, 21] \<and> ext three_cells m'))"
  using list_rmap_copies [of bump "\<lambda>v. Inr (v + 1)" "\<lambda>v. v + 1" three_cells 4 "[4, 8, 12]"] bump_fresh
  by (simp add: three_cells_def)



end
