(* ===== verification/Cyc_Queue.thy ===== *)
theory Cyc_Queue
  imports Cyc_List
begin

section \<open>The queue library\<close>

text \<open>
  Namespace Queue of the Cyclone library (lib/queue.cyc, compiled to bin/genfiles/queue.c): a queue is
  a list of cells with a pointer to the first and to the last one and a count.  Queues are objects with
  an address, because \<open>take_match\<close> works on two of them; their cells are those of the list library.
  The element is a pointer.  \<open>unsigned\<close> counts are machine words and wrap around.
\<close>

subsection \<open>Operations\<close>

record queue =
  front :: ptr
  rear :: ptr
  len :: u32

record qmem =
  qcells :: lmem
  q_at :: "ptr \<Rightarrow> queue"

definition set_queue :: "ptr \<Rightarrow> queue \<Rightarrow> qmem \<Rightarrow> qmem" where
  "set_queue q v s = s\<lparr>q_at := (q_at s)(q := v)\<rparr>"

definition Cyc_Queue_is_empty :: "ptr \<Rightarrow> qmem \<Rightarrow> bool" where
  "Cyc_Queue_is_empty q s \<longleftrightarrow> front (q_at s q) = NULL"

definition Cyc_Queue_rcreate :: "allocator \<Rightarrow> qmem \<Rightarrow> (ptr \<times> qmem) res" where
  "Cyc_Queue_rcreate new s =
     bind_res (alloc_obj new (qcells s)) (\<lambda>(q, m).
       Inr (q, set_queue q \<lparr>front = NULL, rear = NULL, len = 0\<rparr> (s\<lparr>qcells := m\<rparr>)))"

definition Cyc_Queue_create :: "allocator \<Rightarrow> qmem \<Rightarrow> (ptr \<times> qmem) res" where
  "Cyc_Queue_create heap s = Cyc_Queue_rcreate heap s"

definition Cyc_Queue_radd :: "allocator \<Rightarrow> ptr \<Rightarrow> ptr \<Rightarrow> qmem \<Rightarrow> qmem res" where
  "Cyc_Queue_radd new q x s =
     bind_res (new_cell new x NULL (qcells s)) (\<lambda>(cell, m).
       let v = q_at s q
       in if front v = NULL
          then Inr (set_queue q \<lparr>front = cell, rear = cell, len = len v + 1\<rparr> (s\<lparr>qcells := m\<rparr>))
          else if rear v = NULL then Inl (Throw Null_Exception)
          else Inr (set_queue q \<lparr>front = front v, rear = cell, len = len v + 1\<rparr> (s\<lparr>qcells := set_tl (rear v) cell m\<rparr>)))"

definition Cyc_Queue_add :: "allocator \<Rightarrow> ptr \<Rightarrow> ptr \<Rightarrow> qmem \<Rightarrow> qmem res" where
  "Cyc_Queue_add heap q x s = Cyc_Queue_radd heap q x s"

definition Cyc_Queue_rpush :: "allocator \<Rightarrow> ptr \<Rightarrow> ptr \<Rightarrow> qmem \<Rightarrow> qmem res" where
  "Cyc_Queue_rpush new q x s =
     (let v = q_at s q
      in bind_res (new_cell new x (front v) (qcells s)) (\<lambda>(cell, m).
           Inr (set_queue q \<lparr>front = cell, rear = if rear v = NULL then cell else rear v, len = len v + 1\<rparr> (s\<lparr>qcells := m\<rparr>))))"

definition Cyc_Queue_push :: "allocator \<Rightarrow> ptr \<Rightarrow> ptr \<Rightarrow> qmem \<Rightarrow> qmem res" where
  "Cyc_Queue_push heap q x s = Cyc_Queue_rpush heap q x s"

text \<open>The common end of the two operations that remove the first cell.\<close>

definition drop_front :: "ptr \<Rightarrow> qmem \<Rightarrow> qmem" where
  "drop_front q s =
     (let v = q_at s q; f = tlf (qcells s) (front v)
      in set_queue q \<lparr>front = f, rear = if f = NULL then NULL else rear v, len = len v - 1\<rparr> s)"

definition Cyc_Queue_take :: "ptr \<Rightarrow> qmem \<Rightarrow> (ptr \<times> qmem) res" where
  "Cyc_Queue_take q s =
     (if front (q_at s q) = NULL then Inl (Throw Empty)
      else Inr (hdf (qcells s) (front (q_at s q)), drop_front q s))"

text \<open>\<open>noalias_take\<close> swaps its argument into the cell it removes.\<close>

definition Cyc_Queue_noalias_take :: "ptr \<Rightarrow> ptr \<Rightarrow> qmem \<Rightarrow> (ptr \<times> qmem) res" where
  "Cyc_Queue_noalias_take q null_elem s =
     (let p = front (q_at s q); m = qcells s
      in if p = NULL then Inl (Throw Empty)
         else Inr (hdf m p, drop_front q (s\<lparr>qcells := m\<lparr>hdf := (hdf m)(p := null_elem)\<rparr>\<rparr>)))"

definition Cyc_Queue_ptr_take :: "ptr \<Rightarrow> qmem \<Rightarrow> (ptr \<times> qmem) res" where
  "Cyc_Queue_ptr_take q s = Cyc_Queue_noalias_take q NULL s"

definition Cyc_Queue_peek :: "ptr \<Rightarrow> qmem \<Rightarrow> ptr res" where
  "Cyc_Queue_peek q s =
     (if front (q_at s q) = NULL then Inl (Throw Empty) else Inr (hdf (qcells s) (front (q_at s q))))"

definition Cyc_Queue_clear :: "ptr \<Rightarrow> qmem \<Rightarrow> qmem" where
  "Cyc_Queue_clear q s = set_queue q \<lparr>front = NULL, rear = NULL, len = 0\<rparr> s"

text \<open>\<open>remove\<close>: \<open>y\<close> is the cell before \<open>x\<close>; the cell found first is unlinked.\<close>

definition unlink_cell :: "ptr \<Rightarrow> ptr \<Rightarrow> ptr \<Rightarrow> qmem \<Rightarrow> qmem res" where
  "unlink_cell q x y s =
     (let v = q_at s q; n = tlf (qcells s) x; r = (if rear v = x then y else rear v)
      in if front v = x then Inr (set_queue q \<lparr>front = n, rear = r, len = len v - 1\<rparr> s)
         else if y = NULL then Inl (Throw Null_Exception)
         else Inr (set_queue q \<lparr>front = front v, rear = r, len = len v - 1\<rparr> (s\<lparr>qcells := set_tl y n (qcells s)\<rparr>)))"

partial_function (option) remove_loop :: "ptr \<Rightarrow> ptr \<Rightarrow> ptr \<Rightarrow> ptr \<Rightarrow> qmem \<Rightarrow> qmem ores" where
  "remove_loop q v x y s =
     (if x \<noteq> NULL
      then if hdf (qcells s) x = v then Some (unlink_cell q x y s)
           else remove_loop q v (tlf (qcells s) x) x s
      else Some (Inr s))"

definition Cyc_Queue_remove :: "ptr \<Rightarrow> ptr \<Rightarrow> qmem \<Rightarrow> qmem ores" where
  "Cyc_Queue_remove q v s = remove_loop q v (front (q_at s q)) NULL s"

text \<open>
  \<open>take_match\<close> moves elements to a second queue until one satisfies the test, takes that one out and
  moves the others back.  The second queue lives in a region of its own, whose allocator is \<open>newg\<close>;
  its cells are not used again after the region is freed.
\<close>

partial_function (option) match_loop ::
    "allocator \<Rightarrow> ptr \<Rightarrow> ptr \<Rightarrow> ('e \<Rightarrow> ptr \<Rightarrow> bool) \<Rightarrow> 'e \<Rightarrow> qmem \<Rightarrow> (bool \<times> qmem) ores" where
  "match_loop newg q saveq f env s =
     bind_ores (Some (Cyc_Queue_ptr_take q s)) (\<lambda>(x, s).
     let ok = f env x
     in bind_ores (Some (Cyc_Queue_rpush newg saveq x s)) (\<lambda>s.
        if ok then Some (Inr (True, s))
        else if \<not> Cyc_Queue_is_empty q s then match_loop newg q saveq f env s
        else Some (Inr (False, s))))"

partial_function (option) restore_loop :: "allocator \<Rightarrow> ptr \<Rightarrow> ptr \<Rightarrow> qmem \<Rightarrow> qmem ores" where
  "restore_loop new q saveq s =
     (if \<not> Cyc_Queue_is_empty saveq s
      then bind_ores (Some (Cyc_Queue_ptr_take saveq s)) (\<lambda>(x, s).
           bind_ores (Some (Cyc_Queue_rpush new q x s)) (\<lambda>s. restore_loop new q saveq s))
      else Some (Inr s))"

definition Cyc_Queue_take_match ::
    "allocator \<Rightarrow> allocator \<Rightarrow> ptr \<Rightarrow> ('e \<Rightarrow> ptr \<Rightarrow> bool) \<Rightarrow> 'e \<Rightarrow> qmem \<Rightarrow> (ptr \<times> qmem) ores" where
  "Cyc_Queue_take_match newg new q f env s =
     bind_ores (Some (Cyc_Queue_rcreate newg s)) (\<lambda>(saveq, s).
     if Cyc_Queue_is_empty q s then Some (Inr (NULL, s))
     else bind_ores (match_loop newg q saveq f env s) (\<lambda>(ok, s).
          bind_ores (Some (if ok then Cyc_Queue_ptr_take saveq s else Inr (NULL, s))) (\<lambda>(x, s).
          bind_ores (restore_loop new q saveq s) (\<lambda>s. Some (Inr (x, s))))))"

definition Cyc_Queue_length :: "ptr \<Rightarrow> qmem \<Rightarrow> int" where
  "Cyc_Queue_length q s = sint (len (q_at s q))"

text \<open>The loops of \<open>iter\<close> and \<open>app\<close>; the function works on a state of its own.\<close>

partial_function (option) visit_loop :: "(ptr \<Rightarrow> 's \<Rightarrow> 's res) \<Rightarrow> ptr \<Rightarrow> qmem \<Rightarrow> 's \<Rightarrow> 's ores" where
  "visit_loop f x s t =
     (if x \<noteq> NULL then bind_ores (Some (f (hdf (qcells s) x) t)) (\<lambda>t. visit_loop f (tlf (qcells s) x) s t)
      else Some (Inr t))"

definition Cyc_Queue_iter :: "(ptr \<Rightarrow> 's \<Rightarrow> 's res) \<Rightarrow> ptr \<Rightarrow> qmem \<Rightarrow> 's \<Rightarrow> 's ores" where
  "Cyc_Queue_iter f q s t = visit_loop f (front (q_at s q)) s t"

definition Cyc_Queue_app :: "(ptr \<Rightarrow> 's \<Rightarrow> (ptr \<times> 's) res) \<Rightarrow> ptr \<Rightarrow> qmem \<Rightarrow> 's \<Rightarrow> 's ores" where
  "Cyc_Queue_app f q s t = visit_loop (\<lambda>x t. bind_res (f x t) (\<lambda>(_, t). Inr t)) (front (q_at s q)) s t"

subsection \<open>The queue as a sequence\<close>

text \<open>\<open>q_rep s q ps\<close>: the queue at \<open>q\<close> consists of the cells \<open>ps\<close>.\<close>

definition q_rep :: "qmem \<Rightarrow> ptr \<Rightarrow> ptr list \<Rightarrow> bool" where
  "q_rep s q ps \<longleftrightarrow> cells (qcells s) (front (q_at s q)) ps
     \<and> rear (q_at s q) = (if ps = [] then NULL else last ps) \<and> len (q_at s q) = of_nat (length ps)"

text \<open>Two queues that share no cell, with their elements.\<close>

definition q_two :: "qmem \<Rightarrow> ptr \<Rightarrow> ptr \<Rightarrow> ptr list \<Rightarrow> ptr list \<Rightarrow> bool" where
  "q_two s q r xs ys \<longleftrightarrow> (\<exists>ps qs. q_rep s q ps \<and> q_rep s r qs \<and> set ps \<inter> set qs = {}
     \<and> map (hdf (qcells s)) ps = xs \<and> map (hdf (qcells s)) qs = ys)"

lemma set_queue_sel [simp]:
  "qcells (set_queue q v s) = qcells s" "q_at (set_queue q v s) r = (if r = q then v else q_at s r)"
  by (simp_all add: set_queue_def)

lemma q_two_sym: "q_two s q r xs ys \<Longrightarrow> q_two s r q ys xs"
  by (auto simp: q_two_def)

lemma q_rep_used: "q_rep s q ps \<Longrightarrow> set ps \<subseteq> set (used (qcells s)) \<and> NULL \<notin> set ps"
  unfolding q_rep_def by (metis seg_used)

lemma q_rep_last: "q_rep s q ps \<Longrightarrow> ps \<noteq> [] \<Longrightarrow> last ps \<in> set (used (qcells s)) \<and> last ps \<noteq> NULL"
  using q_rep_used [of s q ps] last_in_set [of ps] by (metis subsetD)

lemma q_rep_front: "q_rep s q ps \<Longrightarrow> front (q_at s q) = NULL \<longleftrightarrow> ps = []"
  by (cases ps) (auto simp: q_rep_def)

lemma q_rep_cong:
  assumes "q_rep s q ps" and "q_at s' q = q_at s q" and "set (used (qcells s)) \<subseteq> set (used (qcells s'))"
    and "\<And>p. p \<in> set ps \<Longrightarrow> tlf (qcells s') p = tlf (qcells s) p"
  shows "q_rep s' q ps"
  using assms seg_cong [of ps "qcells s'" "qcells s"] by (auto simp: q_rep_def)

lemma rpush_rep:
  assumes "fresh_ok new" and "q_rep s q ps"
  obtains (fail) "new (qcells s) = NULL" "Cyc_Queue_rpush new q x s = Inl (Throw Bad_alloc)"
    | (ok) p s' where "Cyc_Queue_rpush new q x s = Inr s'" "q_rep s' q (p # ps)" "p \<notin> set (used (qcells s))"
      "qcells s' = set_cell p x (front (q_at s q)) (qcells s\<lparr>used := p # used (qcells s)\<rparr>)" "\<And>r. r \<noteq> q \<Longrightarrow> q_at s' r = q_at s r"
proof (cases rule: new_cell_cases [OF assms(1), of "qcells s" x "front (q_at s q)"])
  case 1
  then show thesis using fail by (simp add: Cyc_Queue_rpush_def Let_def)
next
  case (2 p)
  define s' where "s' = set_queue q \<lparr>front = p, rear = if rear (q_at s q) = NULL then p else rear (q_at s q), len = len (q_at s q) + 1\<rparr>
    (s\<lparr>qcells := set_cell p x (front (q_at s q)) (qcells s\<lparr>used := p # used (qcells s)\<rparr>)\<rparr>)"
  have e: "Cyc_Queue_rpush new q x s = Inr s'" using 2(3) by (simp add: Cyc_Queue_rpush_def Let_def s'_def)
  note u = q_rep_used [OF assms(2)]
  have "cells (qcells s') (front (q_at s q)) ps"
    by (rule seg_cong [of ps _ "qcells s"]) (use 2(2) u assms(2) in \<open>auto simp: s'_def q_rep_def\<close>)
  moreover have "rear (q_at s q) = NULL \<longleftrightarrow> ps = []" using assms(2) q_rep_last [OF assms(2)] by (auto simp: q_rep_def)
  ultimately have "q_rep s' q (p # ps)" using assms(2) 2(1) by (auto simp: q_rep_def s'_def)
  then show thesis by (rule ok [OF e]) (use 2(2) in \<open>auto simp: s'_def\<close>)
qed

lemma radd_rep:
  assumes "fresh_ok new" and "q_rep s q ps"
  obtains (fail) "new (qcells s) = NULL" "Cyc_Queue_radd new q x s = Inl (Throw Bad_alloc)"
    | (ok) p s' where "Cyc_Queue_radd new q x s = Inr s'" "q_rep s' q (ps @ [p])" "p \<notin> set (used (qcells s))"
      "hdf (qcells s') = (hdf (qcells s))(p := x)" "\<And>r. r \<noteq> q \<Longrightarrow> q_at s' r = q_at s r"
proof (cases rule: new_cell_cases [OF assms(1), of "qcells s" x NULL])
  case 1
  then show thesis using fail by (simp add: Cyc_Queue_radd_def Let_def)
next
  case (2 p)
  let ?v = "q_at s q" and ?m = "set_cell p x NULL (qcells s\<lparr>used := p # used (qcells s)\<rparr>)"
  note u = q_rep_used [OF assms(2)]
  have m: "cells ?m (front ?v) ps" by (rule seg_cong [of ps _ "qcells s"]) (use 2(2) u assms(2) in \<open>auto simp: q_rep_def\<close>)
  show thesis
  proof (cases "ps = []")
    case True
    let ?s = "set_queue q \<lparr>front = p, rear = p, len = len ?v + 1\<rparr> (s\<lparr>qcells := ?m\<rparr>)"
    have "Cyc_Queue_radd new q x s = Inr ?s" using 2(3) True m by (simp add: Cyc_Queue_radd_def Let_def)
    moreover have "q_rep ?s q (ps @ [p])" using True 2(1) assms(2) by (simp add: q_rep_def)
    ultimately show thesis by (rule ok) (use 2(2) in \<open>auto simp: fun_eq_iff\<close>)
  next
    case False
    let ?s = "set_queue q \<lparr>front = front ?v, rear = p, len = len ?v + 1\<rparr> (s\<lparr>qcells := set_tl (last ps) p ?m\<rparr>)"
    have r: "rear ?v = last ps" "last ps \<noteq> NULL" "front ?v \<noteq> NULL" "last ps \<noteq> p"
      using False assms(2) q_rep_last [OF assms(2) False] 2(2) q_rep_front [OF assms(2)] by (auto simp: q_rep_def)
    have "Cyc_Queue_radd new q x s = Inr ?s" using 2(3) r by (simp add: Cyc_Queue_radd_def Let_def)
    moreover have "q_rep ?s q (ps @ [p])" using seg_set_last [OF m False] 2(1) r(4) assms(2) by (auto simp: q_rep_def seg_append)
    ultimately show thesis by (rule ok) (use 2(2) in \<open>auto simp: fun_eq_iff\<close>)
  qed
qed

lemma ptr_take_rep:
  assumes "q_rep s q (p # ps)"
  obtains s' where "Cyc_Queue_ptr_take q s = Inr (hdf (qcells s) p, s')" "q_rep s' q ps" "p \<notin> set ps"
    "used (qcells s') = used (qcells s)" "hdf (qcells s') = (hdf (qcells s))(p := NULL)" "tlf (qcells s') = tlf (qcells s)"
    "\<And>r. r \<noteq> q \<Longrightarrow> q_at s' r = q_at s r"
proof -
  let ?n = "s\<lparr>qcells := qcells s\<lparr>hdf := (hdf (qcells s))(p := NULL)\<rparr>\<rparr>"
  have c: "front (q_at s q) = p" "p \<noteq> NULL" "cells (qcells s) (tlf (qcells s) p) ps" using assms by (auto simp: q_rep_def)
  have "Cyc_Queue_ptr_take q s = Inr (hdf (qcells s) p, drop_front q ?n)"
    using c by (simp add: Cyc_Queue_ptr_take_def Cyc_Queue_noalias_take_def Let_def)
  moreover have "cells (qcells ?n) (tlf (qcells s) p) ps" by (rule seg_cong [of ps _ "qcells s"]) (use c in auto)
  then have "q_rep (drop_front q ?n) q ps" using assms c by (cases ps) (auto simp: q_rep_def drop_front_def Let_def)
  moreover have "p \<notin> set ps" using cells_distinct [of "qcells s" _ "p # ps"] assms by (auto simp: q_rep_def)
  ultimately show thesis by (rule that) (auto simp: drop_front_def Let_def)
qed

lemma take_rep:
  assumes "q_rep s q (p # ps)"
  obtains s' where "Cyc_Queue_take q s = Inr (hdf (qcells s) p, s')" "q_rep s' q ps" "qcells s' = qcells s"
    "\<And>r. r \<noteq> q \<Longrightarrow> q_at s' r = q_at s r"
proof -
  have c: "front (q_at s q) = p" "p \<noteq> NULL" "cells (qcells s) (tlf (qcells s) p) ps" using assms by (auto simp: q_rep_def)
  have "Cyc_Queue_take q s = Inr (hdf (qcells s) p, drop_front q s)" using c by (simp add: Cyc_Queue_take_def)
  moreover have "q_rep (drop_front q s) q ps" using assms c by (cases ps) (auto simp: q_rep_def drop_front_def Let_def)
  ultimately show thesis by (rule that) (auto simp: drop_front_def Let_def)
qed

subsection \<open>Two queues side by side\<close>

lemma q_two_push:
  assumes "fresh_ok new" and "q_two s q r xs ys" and "q \<noteq> r"
  obtains (fail) "new (qcells s) = NULL" "Cyc_Queue_rpush new q x s = Inl (Throw Bad_alloc)"
    | (ok) s' where "Cyc_Queue_rpush new q x s = Inr s'" "q_two s' q r (x # xs) ys"
proof -
  obtain ps qs where R: "q_rep s q ps" "q_rep s r qs" "set ps \<inter> set qs = {}" "map (hdf (qcells s)) ps = xs" "map (hdf (qcells s)) qs = ys"
    using assms(2) by (auto simp: q_two_def)
  show thesis
  proof (cases rule: rpush_rep [OF assms(1) R(1), of x])
    case 1
    then show thesis using fail by blast
  next
    case (2 p s')
    have n: "p \<notin> set ps" "p \<notin> set qs" using 2(3) q_rep_used [OF R(1)] q_rep_used [OF R(2)] by auto
    have "q_rep s' r qs" by (rule q_rep_cong [OF R(2)]) (use 2(4,5) assms(3) n in auto)
    moreover have "map (hdf (qcells s')) (p # ps) = x # xs" "map (hdf (qcells s')) qs = ys" using 2(4) R(4,5) n by auto
    ultimately have "q_two s' q r (x # xs) ys" unfolding q_two_def
      by (intro exI [of _ "p # ps"] exI [of _ qs] conjI) (use 2(2) R(3) n in auto)
    then show thesis using ok 2(1) by blast
  qed
qed

lemma q_two_take:
  assumes "q_two s q r (x # xs) ys" and "q \<noteq> r"
  obtains s' where "Cyc_Queue_ptr_take q s = Inr (x, s')" "q_two s' q r xs ys"
proof -
  obtain p ps qs where R: "q_rep s q (p # ps)" "q_rep s r qs" "set (p # ps) \<inter> set qs = {}"
    "hdf (qcells s) p = x" "map (hdf (qcells s)) ps = xs" "map (hdf (qcells s)) qs = ys"
    using assms(1) by (auto simp: q_two_def)
  obtain s' where S: "Cyc_Queue_ptr_take q s = Inr (x, s')" "q_rep s' q ps" "p \<notin> set ps"
    "used (qcells s') = used (qcells s)" "hdf (qcells s') = (hdf (qcells s))(p := NULL)" "tlf (qcells s') = tlf (qcells s)"
    "\<And>r. r \<noteq> q \<Longrightarrow> q_at s' r = q_at s r"
    using ptr_take_rep [OF R(1)] R(4) by metis
  have "q_rep s' r qs" by (rule q_rep_cong [OF R(2)]) (use S assms(2) in auto)
  moreover have "map (hdf (qcells s')) ps = xs" "map (hdf (qcells s')) qs = ys" using S(3,5) R(3,5,6) by auto
  ultimately have "q_two s' q r xs ys" unfolding q_two_def
    by (intro exI [of _ ps] exI [of _ qs] conjI) (use S(2) R(3) in auto)
  then show thesis using that S(1) by blast
qed

lemma q_two_empty: "q_two s q r xs ys \<Longrightarrow> Cyc_Queue_is_empty q s \<longleftrightarrow> xs = []"
  by (auto simp: q_two_def Cyc_Queue_is_empty_def q_rep_front)

lemma restore_loop_spec:
  assumes "fresh_ok new" and "q \<noteq> r"
  shows "q_two s q r xs ys \<Longrightarrow> restore_loop new q r s = Some (Inl (Throw Bad_alloc)) \<and> (\<exists>n. new n = NULL) \<or>
     (\<exists>s'. restore_loop new q r s = Some (Inr s') \<and> q_two s' q r (rev ys @ xs) [])"
proof (induction ys arbitrary: s xs)
  case Nil
  then have "Cyc_Queue_is_empty r s" using q_two_empty [OF q_two_sym] by blast
  then show ?case using Nil by (auto simp: restore_loop.simps)
next
  case (Cons y ys)
  have e: "\<not> Cyc_Queue_is_empty r s" using q_two_empty [OF q_two_sym [OF Cons.prems]] by blast
  from q_two_take [OF q_two_sym [OF Cons.prems]] obtain s1
    where 1: "Cyc_Queue_ptr_take r s = Inr (y, s1)" "q_two s1 r q ys xs" using assms(2) by metis
  show ?case
  proof (cases rule: q_two_push [OF assms(1) q_two_sym [OF 1(2)] assms(2), of y])
    case 1
    then show ?thesis using e \<open>Cyc_Queue_ptr_take r s = _\<close> by (subst (1) restore_loop.simps) auto
  next
    case (2 s2)
    then have "restore_loop new q r s = restore_loop new q r s2" using e 1(1) by (subst restore_loop.simps) simp
    then show ?thesis using Cons.IH [OF 2(2)] by simp
  qed
qed

lemma match_loop_spec:
  assumes "fresh_ok newg" and "q \<noteq> r"
  shows "q_two s q r xs ys \<Longrightarrow> xs \<noteq> [] \<Longrightarrow>
     match_loop newg q r f env s = Some (Inl (Throw Bad_alloc)) \<and> (\<exists>n. newg n = NULL) \<or>
     (\<exists>s'. match_loop newg q r f env s = Some (Inr (dropWhile (\<lambda>x. \<not> f env x) xs \<noteq> [], s'))
        \<and> q_two s' q r (tl (dropWhile (\<lambda>x. \<not> f env x) xs))
            (take 1 (dropWhile (\<lambda>x. \<not> f env x) xs) @ rev (takeWhile (\<lambda>x. \<not> f env x) xs) @ ys))"
proof (induction xs arbitrary: s ys)
  case (Cons x xs)
  from q_two_take [OF Cons.prems(1) assms(2)] obtain s1
    where 1: "Cyc_Queue_ptr_take q s = Inr (x, s1)" "q_two s1 q r xs ys" by metis
  show ?case
  proof (cases rule: q_two_push [OF assms(1) q_two_sym [OF 1(2)] assms(2) [symmetric], of x])
    case 1
    then show ?thesis using \<open>Cyc_Queue_ptr_take q s = _\<close> by (subst (1) match_loop.simps) (auto simp: Let_def)
  next
    case (2 s2)
    note t = q_two_sym [OF 2(2)]
    have step: "match_loop newg q r f env s =
      (if f env x then Some (Inr (True, s2)) else if xs \<noteq> [] then match_loop newg q r f env s2 else Some (Inr (False, s2)))"
      using 1(1) 2(1) q_two_empty [OF t] by (subst match_loop.simps) (simp add: Let_def)
    show ?thesis
    proof (cases "f env x \<or> xs = []")
      case True
      then show ?thesis using step t by auto
    next
      case False
      then show ?thesis using step Cons.IH [OF t] by simp
    qed
  qed
qed simp

text \<open>The elements of one queue.\<close>

definition q_elems :: "qmem \<Rightarrow> ptr \<Rightarrow> ptr list \<Rightarrow> bool" where
  "q_elems s q xs \<longleftrightarrow> (\<exists>ps. q_rep s q ps \<and> map (hdf (qcells s)) ps = xs)"

lemma q_two_elems: "q_two s q r xs ys \<Longrightarrow> q_elems s q xs"
  by (auto simp: q_two_def q_elems_def)

lemma rcreate_two:
  assumes "fresh_ok new" and "q_elems s q xs" and "q \<in> set (used (qcells s))"
  obtains (fail) "new (qcells s) = NULL" "Cyc_Queue_rcreate new s = Inl (Throw Bad_alloc)"
    | (ok) r s' where "Cyc_Queue_rcreate new s = Inr (r, s')" "q \<noteq> r" "q_two s' q r xs []"
proof (cases "new (qcells s) = NULL")
  case True
  then show thesis using fail by (simp add: Cyc_Queue_rcreate_def alloc_obj_def)
next
  case False
  let ?r = "new (qcells s)"
  let ?s = "set_queue ?r \<lparr>front = NULL, rear = NULL, len = 0\<rparr> (s\<lparr>qcells := (qcells s)\<lparr>used := ?r # used (qcells s)\<rparr>\<rparr>)"
  have n: "q \<noteq> ?r" using assms(1,3) False by (auto simp: fresh_ok_def)
  obtain ps where ps: "q_rep s q ps" "map (hdf (qcells s)) ps = xs" using assms(2) by (auto simp: q_elems_def)
  have "q_rep ?s q ps" by (rule q_rep_cong [OF ps(1)]) (use n in auto)
  moreover have "q_rep ?s ?r []" by (simp add: q_rep_def)
  ultimately have "q_two ?s q ?r xs []" unfolding q_two_def using ps(2)
    by (intro exI [of _ ps] exI [of _ "[]"]) simp
  moreover have "Cyc_Queue_rcreate new s = Inr (?r, ?s)" using False by (simp add: Cyc_Queue_rcreate_def alloc_obj_def)
  ultimately show thesis using ok n by blast
qed

text \<open>What \<open>take_match\<close> does to the sequence: the first element that satisfies the test is taken out.\<close>

lemma take_match_found:
  assumes "fresh_ok new" "q \<noteq> r" "q_two s q r bs (y # rev as)"
  shows "bind_ores (Some (Cyc_Queue_ptr_take r s)) (\<lambda>(x, s). bind_ores (restore_loop new q r s) (\<lambda>s. Some (Inr (x, s))))
      = Some (Inl (Throw Bad_alloc)) \<and> (\<exists>n. new n = NULL)
    \<or> (\<exists>s'. bind_ores (Some (Cyc_Queue_ptr_take r s)) (\<lambda>(x, s). bind_ores (restore_loop new q r s) (\<lambda>s. Some (Inr (x, s))))
      = Some (Inr (y, s')) \<and> q_elems s' q (as @ bs))"
proof -
  from q_two_take [OF q_two_sym [OF assms(3)]] obtain s1
    where 1: "Cyc_Queue_ptr_take r s = Inr (y, s1)" "q_two s1 r q (rev as) bs" using assms(2) by metis
  from restore_loop_spec [OF assms(1,2) q_two_sym [OF 1(2)]] show ?thesis
    using 1(1) q_two_elems by fastforce
qed

lemma take_match_none:
  assumes "fresh_ok new" "q \<noteq> r" "q_two s q r [] (rev xs)"
  shows "bind_ores (restore_loop new q r s) (\<lambda>s. Some (Inr (NULL, s))) = Some (Inl (Throw Bad_alloc)) \<and> (\<exists>n. new n = NULL)
    \<or> (\<exists>s'. bind_ores (restore_loop new q r s) (\<lambda>s. Some (Inr (NULL, s))) = Some (Inr (NULL, s')) \<and> q_elems s' q xs)"
  using restore_loop_spec [OF assms] q_two_elems by fastforce

subsection \<open>Removal\<close>

lemma seg_set_end: "seg m p ps x \<Longrightarrow> ps \<noteq> [] \<Longrightarrow> distinct ps \<Longrightarrow> seg (set_tl (last ps) t m) p ps t"
proof (induction ps arbitrary: p)
  case (Cons a ps)
  then show ?case by (cases ps) auto
qed simp

lemma unlink_cell_spec:
  assumes "q_rep s q (as @ b # bs)"
  shows "\<exists>s'. unlink_cell q b (if as = [] then NULL else last as) s = Inr s' \<and> q_rep s' q (as @ bs)
     \<and> hdf (qcells s') = hdf (qcells s)"
proof -
  let ?v = "q_at s q" and ?m = "qcells s"
  have c: "seg ?m (front ?v) as b" "b \<noteq> NULL" "b \<in> set (used ?m)" "cells ?m (tlf ?m b) bs"
    and v: "rear ?v = last (b # bs)" "len ?v = of_nat (length (as @ b # bs))"
    using assms by (auto simp: q_rep_def seg_append)
  have d: "distinct (as @ b # bs)" using assms unfolding q_rep_def by (metis cells_distinct)
  have r: "rear ?v = b \<longleftrightarrow> bs = []" using v(1) d last_in_set [of bs] by auto
  show ?thesis
  proof (cases "as = []")
    case True
    then have "front ?v = b" using c(1) by simp
    then show ?thesis using True c(4) v r by (auto simp: unlink_cell_def q_rep_def Let_def)
  next
    case False
    have l: "last as \<in> set as" "last as \<noteq> NULL"
      using q_rep_used [OF assms] last_in_set [OF False] by (force, metis Un_iff set_append)
    have f: "front ?v \<noteq> b" using c(1) False d by (cases as) auto
    have "seg (set_tl (last as) (tlf ?m b) ?m) (front ?v) as (tlf ?m b)" using seg_set_end [OF c(1) False] d by simp
    moreover have "cells (set_tl (last as) (tlf ?m b) ?m) (tlf ?m b) bs" using set_tl_cells [OF _ c(4)] d l(1) by auto
    ultimately have "cells (set_tl (last as) (tlf ?m b) ?m) (front ?v) (as @ bs)" by (auto simp: seg_append)
    then show ?thesis using False f l v r by (auto simp: unlink_cell_def q_rep_def Let_def)
  qed
qed

lemma remove_loop_spec:
  "q_rep s q (as @ bs) \<Longrightarrow> cells (qcells s) x bs \<Longrightarrow> v \<notin> hdf (qcells s) ` set as \<Longrightarrow>
     \<exists>s'. remove_loop q v x (if as = [] then NULL else last as) s = Some (Inr s')
       \<and> q_elems s' q (remove1 v (map (hdf (qcells s)) (as @ bs)))"
proof (induction bs arbitrary: as x)
  case Nil
  then have "remove1 v (map (hdf (qcells s)) (as @ [])) = map (hdf (qcells s)) as" by (simp add: remove1_idem)
  then show ?case using Nil by (auto simp: remove_loop.simps q_elems_def)
next
  case (Cons b bs)
  then have b: "x = b" "b \<noteq> NULL" "cells (qcells s) (tlf (qcells s) b) bs" by auto
  show ?case
  proof (cases "hdf (qcells s) b = v")
    case True
    obtain s' where "unlink_cell q b (if as = [] then NULL else last as) s = Inr s'" "q_rep s' q (as @ bs)"
      "hdf (qcells s') = hdf (qcells s)" using unlink_cell_spec [OF Cons.prems(1)] by blast
    moreover have "remove1 v (map (hdf (qcells s)) (as @ b # bs)) = map (hdf (qcells s)) (as @ bs)"
      using Cons.prems(3) True by (simp add: remove1_append)
    ultimately show ?thesis using b True unfolding q_elems_def
      by (subst remove_loop.simps) (auto intro!: exI [of _ "as @ bs"])
  next
    case False
    have "remove_loop q v x (if as = [] then NULL else last as) s = remove_loop q v (tlf (qcells s) b) b s"
      using b(1,2) False by (subst remove_loop.simps) simp
    then show ?thesis using Cons.IH [of "as @ [b]"] Cons.prems b(3) False by simp
  qed
qed

subsection \<open>Properties\<close>

text \<open>C19: The operations refine those of a sequence: \<open>radd\<close> appends, \<open>rpush\<close> prepends, \<open>take\<close> removes
  the first element and throws \<open>Empty\<close> exactly on the empty queue, \<open>remove\<close> removes the first
  occurrence and always ends, \<open>length\<close> is the length as a machine integer; an addition fails only
  if the allocator does.\<close>

theorem queue_refines_sequence:
  assumes "fresh_ok new" and "q_elems s q xs"
  shows "(case Cyc_Queue_radd new q x s of Inl e \<Rightarrow> e = Throw Bad_alloc \<and> new (qcells s) = NULL
           | Inr s' \<Rightarrow> q_elems s' q (xs @ [x]))
     \<and> (case Cyc_Queue_rpush new q x s of Inl e \<Rightarrow> e = Throw Bad_alloc \<and> new (qcells s) = NULL
           | Inr s' \<Rightarrow> q_elems s' q (x # xs))
     \<and> (case Cyc_Queue_take q s of Inl e \<Rightarrow> e = Throw Empty \<and> xs = []
           | Inr (y, s') \<Rightarrow> xs \<noteq> [] \<and> y = hd xs \<and> q_elems s' q (tl xs))
     \<and> (\<exists>s'. Cyc_Queue_remove q x s = Some (Inr s') \<and> q_elems s' q (remove1 x xs))
     \<and> Cyc_Queue_length q s = sint (of_nat (length xs) :: u32)"
proof -
  obtain ps where ps: "q_rep s q ps" "map (hdf (qcells s)) ps = xs" using assms(2) by (auto simp: q_elems_def)
  note u = q_rep_used [OF ps(1)]
  have add: "case Cyc_Queue_radd new q x s of Inl e \<Rightarrow> e = Throw Bad_alloc \<and> new (qcells s) = NULL | Inr s' \<Rightarrow> q_elems s' q (xs @ [x])"
  proof (cases rule: radd_rep [OF assms(1) ps(1), of x])
    case (2 p s')
    then show ?thesis using ps(2) u by (auto simp: q_elems_def intro!: exI [of _ "ps @ [p]"])
  qed simp
  have push: "case Cyc_Queue_rpush new q x s of Inl e \<Rightarrow> e = Throw Bad_alloc \<and> new (qcells s) = NULL | Inr s' \<Rightarrow> q_elems s' q (x # xs)"
  proof (cases rule: rpush_rep [OF assms(1) ps(1), of x])
    case (2 p s')
    then show ?thesis using ps(2) u by (auto simp: q_elems_def intro!: exI [of _ "p # ps"])
  qed simp
  have take: "case Cyc_Queue_take q s of Inl e \<Rightarrow> e = Throw Empty \<and> xs = [] | Inr (y, s') \<Rightarrow> xs \<noteq> [] \<and> y = hd xs \<and> q_elems s' q (tl xs)"
  proof (cases ps)
    case Nil
    then show ?thesis using ps q_rep_front [OF ps(1)] by (simp add: Cyc_Queue_take_def)
  next
    case (Cons p qs)
    from take_rep [OF ps(1) [unfolded Cons]] obtain s' where
      "Cyc_Queue_take q s = Inr (hdf (qcells s) p, s')" "q_rep s' q qs" "qcells s' = qcells s" by metis
    then show ?thesis using ps(2) Cons by (auto simp: q_elems_def)
  qed
  have "\<exists>s'. Cyc_Queue_remove q x s = Some (Inr s') \<and> q_elems s' q (remove1 x xs)"
    using remove_loop_spec [of s q "[]" ps "front (q_at s q)" x] ps by (simp add: Cyc_Queue_remove_def q_rep_def)
  moreover have "Cyc_Queue_length q s = sint (of_nat (length xs) :: u32)" using ps by (auto simp: Cyc_Queue_length_def q_rep_def)
  ultimately show ?thesis using add push take by blast
qed

definition two_queued :: qmem where
  "two_queued = \<lparr>qcells = \<lparr>used = [4, 8, 12], hdf = (\<lambda>p. if p = 4 then 30 else 10),
     tlf = (\<lambda>p. if p = 4 then 8 else NULL), pair_at = (\<lambda>_. (0, 0)), triple_at = (\<lambda>_. (0, 0, 0))\<rparr>,
     q_at = (\<lambda>_. \<lparr>front = 4, rear = 8, len = 2\<rparr>)\<rparr>"

lemma two_queued_elems: "q_elems two_queued 12 [30, 10]"
  unfolding q_elems_def by (rule exI [of _ "[4, 8]"]) (simp add: q_rep_def two_queued_def)

theorem queue_refines_sequence_witness:
  "fresh_ok bump \<and> q_elems two_queued 12 [30, 10] \<and>
   (\<exists>s'. Cyc_Queue_remove 12 10 two_queued = Some (Inr s') \<and> q_elems s' 12 [30])"
  using queue_refines_sequence [OF bump_fresh two_queued_elems, of 10] bump_fresh two_queued_elems by simp



end
