(* ===== verification/Cyc_Set.thy ===== *)
theory Cyc_Set
  imports Cyc_List
begin

section \<open>The set library\<close>

text \<open>
  Namespace Set of the Cyclone library (lib/set.cyc, compiled to bin/genfiles/set.c): a set is a
  comparison function, a number of elements and a list of cells that the operations keep strictly
  increasing.  Sets are objects with an address: \<open>union_two\<close> and \<open>intersect\<close> compare addresses, and
  the imperative operations change a set in place.  The cells are those of the list library; \<open>heap\<close> is
  the allocator of the heap, which \<open>_cycalloc\<close> uses too.  \<open>int\<close> counts are machine words.
\<close>

subsection \<open>Sets\<close>

record sset =
  scmp :: "ptr \<Rightarrow> ptr \<Rightarrow> int"
  card_of :: u32
  nodes :: ptr

text \<open>\<open>env_at\<close> holds the positions of iterators.\<close>

record smem =
  scells :: lmem
  set_at :: "ptr \<Rightarrow> sset"
  env_at :: "ptr \<Rightarrow> ptr"

definition new_obj :: "allocator \<Rightarrow> smem \<Rightarrow> (ptr \<times> smem) res" where
  "new_obj new s = bind_res (alloc_obj new (scells s)) (\<lambda>(p, m). Inr (p, s\<lparr>scells := m\<rparr>))"

definition put_set :: "ptr \<Rightarrow> (ptr \<Rightarrow> ptr \<Rightarrow> int) \<Rightarrow> u32 \<Rightarrow> ptr \<Rightarrow> smem \<Rightarrow> smem" where
  "put_set p cmp c n s = s\<lparr>set_at := (set_at s)(p := \<lparr>scmp = cmp, card_of = c, nodes = n\<rparr>)\<rparr>"

definition Cyc_Set_rempty :: "allocator \<Rightarrow> (ptr \<Rightarrow> ptr \<Rightarrow> int) \<Rightarrow> smem \<Rightarrow> (ptr \<times> smem) res" where
  "Cyc_Set_rempty new cmp s = bind_res (new_obj new s) (\<lambda>(p, s). Inr (p, put_set p cmp 0 NULL s))"

definition Cyc_Set_empty :: "allocator \<Rightarrow> (ptr \<Rightarrow> ptr \<Rightarrow> int) \<Rightarrow> smem \<Rightarrow> (ptr \<times> smem) res" where
  "Cyc_Set_empty heap cmp s = bind_res (new_obj heap s) (\<lambda>(p, s). Inr (p, put_set p cmp 0 NULL s))"

definition Cyc_Set_singleton :: "allocator \<Rightarrow> (ptr \<Rightarrow> ptr \<Rightarrow> int) \<Rightarrow> ptr \<Rightarrow> smem \<Rightarrow> (ptr \<times> smem) res" where
  "Cyc_Set_singleton heap cmp x s =
     bind_res (new_obj heap s) (\<lambda>(p, s).
     bind_res (new_cell heap x NULL (scells s)) (\<lambda>(n, m).
     Inr (p, put_set p cmp 1 n (s\<lparr>scells := m\<rparr>))))"

definition Cyc_Set_cardinality :: "ptr \<Rightarrow> smem \<Rightarrow> int" where
  "Cyc_Set_cardinality p s = sint (card_of (set_at s p))"

definition Cyc_Set_is_empty :: "ptr \<Rightarrow> smem \<Rightarrow> bool" where
  "Cyc_Set_is_empty p s \<longleftrightarrow> card_of (set_at s p) = 0"

subsection \<open>Membership and insertion\<close>

partial_function (option) Cyc_Set_member_b :: "(ptr \<Rightarrow> ptr \<Rightarrow> int) \<Rightarrow> ptr \<Rightarrow> ptr \<Rightarrow> lmem \<Rightarrow> bool option" where
  "Cyc_Set_member_b cmp n elt m =
     (if n \<noteq> NULL
      then let i = cmp elt (hdf m n)
           in if i = 0 then Some True else if i < 0 then Some False else Cyc_Set_member_b cmp (tlf m n) elt m
      else Some False)"

definition Cyc_Set_member :: "ptr \<Rightarrow> ptr \<Rightarrow> smem \<Rightarrow> bool option" where
  "Cyc_Set_member p elt s = Cyc_Set_member_b (scmp (set_at s p)) (nodes (set_at s p)) elt (scells s)"

text \<open>
  \<open>insert_b\<close> copies the cells before the place of the element and shares the rest.  The loop gets the
  last copied cell; \<open>_region_malloc\<close> throws rather than return null, so it is never null.
\<close>

partial_function (option) insert_b_loop ::
    "allocator \<Rightarrow> (ptr \<Rightarrow> ptr \<Rightarrow> int) \<Rightarrow> ptr \<Rightarrow> ptr \<Rightarrow> ptr \<Rightarrow> lmem \<Rightarrow> lmem ores" where
  "insert_b_loop new cmp n elt prev m =
     (if n \<noteq> NULL \<and> cmp (hdf m n) elt < 0
      then bind_ores (Some (new_cell new (hdf m n) NULL m)) (\<lambda>(temp, m).
             let m = set_tl prev temp m in insert_b_loop new cmp (tlf m n) elt temp m)
      else bind_ores (Some (new_cell new elt n m)) (\<lambda>(temp, m). Some (Inr (set_tl prev temp m))))"

definition Cyc_Set_insert_b :: "allocator \<Rightarrow> (ptr \<Rightarrow> ptr \<Rightarrow> int) \<Rightarrow> ptr \<Rightarrow> ptr \<Rightarrow> lmem \<Rightarrow> (ptr \<times> lmem) ores" where
  "Cyc_Set_insert_b new cmp n elt m =
     (if n = NULL then Some (new_cell new elt NULL m)
      else if cmp elt (hdf m n) < 0 then Some (new_cell new elt n m)
      else bind_ores (Some (new_cell new (hdf m n) NULL m)) (\<lambda>(result, m).
           bind_ores (insert_b_loop new cmp (tlf m n) elt result m) (\<lambda>m. Some (Inr (result, m)))))"

text \<open>\<open>rinsert\<close>, and \<open>insert\<close> on the heap: the new set is allocated before its cells.\<close>

definition Cyc_Set_rinsert :: "allocator \<Rightarrow> ptr \<Rightarrow> ptr \<Rightarrow> smem \<Rightarrow> (ptr \<times> smem) ores" where
  "Cyc_Set_rinsert new p elt s =
     Option.bind (Cyc_Set_member p elt s) (\<lambda>b.
     if b then Some (Inr (p, s))
     else bind_ores (Some (new_obj new s)) (\<lambda>(t, s).
          let v = set_at s p
          in bind_ores (Cyc_Set_insert_b new (scmp v) (nodes v) elt (scells s)) (\<lambda>(n, m).
             Some (Inr (t, put_set t (scmp v) (card_of v + 1) n (s\<lparr>scells := m\<rparr>))))))"

definition Cyc_Set_insert :: "allocator \<Rightarrow> ptr \<Rightarrow> ptr \<Rightarrow> smem \<Rightarrow> (ptr \<times> smem) ores" where
  "Cyc_Set_insert heap p elt s = Cyc_Set_rinsert heap p elt s"

partial_function (option) imp_insert_loop ::
    "allocator \<Rightarrow> (ptr \<Rightarrow> ptr \<Rightarrow> int) \<Rightarrow> ptr \<Rightarrow> ptr \<Rightarrow> ptr \<Rightarrow> lmem \<Rightarrow> lmem ores" where
  "imp_insert_loop new cmp n elt prev m =
     (if n \<noteq> NULL \<and> cmp (hdf m n) elt < 0
      then if prev = NULL then Some (Inl (Throw Null_Exception))
           else imp_insert_loop new cmp (tlf m n) elt (tlf m prev) m
      else bind_ores (Some (new_cell new elt n m)) (\<lambda>(temp, m).
           if prev = NULL then Some (Inl (Throw Null_Exception)) else Some (Inr (set_tl prev temp m))))"

definition Cyc_Set_imp_insert_b :: "allocator \<Rightarrow> (ptr \<Rightarrow> ptr \<Rightarrow> int) \<Rightarrow> ptr \<Rightarrow> ptr \<Rightarrow> lmem \<Rightarrow> (ptr \<times> lmem) ores" where
  "Cyc_Set_imp_insert_b new cmp n elt m =
     (if n = NULL then Some (new_cell new elt NULL m)
      else if cmp elt (hdf m n) < 0 then Some (new_cell new elt n m)
      else bind_ores (imp_insert_loop new cmp (tlf m n) elt n m) (\<lambda>m. Some (Inr (n, m))))"

text \<open>Only the cells change: the count of the set stays as it is.\<close>

definition Cyc_Set_imp_rinsert :: "allocator \<Rightarrow> ptr \<Rightarrow> ptr \<Rightarrow> smem \<Rightarrow> smem ores" where
  "Cyc_Set_imp_rinsert new p elt s =
     Option.bind (Cyc_Set_member p elt s) (\<lambda>b.
     if b then Some (Inr s)
     else let v = set_at s p
          in bind_ores (Cyc_Set_imp_insert_b new (scmp v) (nodes v) elt (scells s)) (\<lambda>(n, m).
             Some (Inr (put_set p (scmp v) (card_of v) n (s\<lparr>scells := m\<rparr>)))))"

definition Cyc_Set_imp_insert :: "allocator \<Rightarrow> ptr \<Rightarrow> ptr \<Rightarrow> smem \<Rightarrow> smem ores" where
  "Cyc_Set_imp_insert heap p elt s = Cyc_Set_imp_rinsert heap p elt s"

subsection \<open>Union\<close>

text \<open>Appends a new cell to the list \<open>nodes\<close> whose last cell is \<open>cur\<close>, null if it is empty.\<close>

definition snoc_cell :: "allocator \<Rightarrow> ptr \<Rightarrow> ptr \<Rightarrow> ptr \<Rightarrow> lmem \<Rightarrow> (ptr \<times> ptr \<times> lmem) res" where
  "snoc_cell heap h ns cur m =
     bind_res (new_cell heap h NULL m) (\<lambda>(c, m).
     if cur = NULL then Inr (c, c, m) else Inr (ns, c, set_tl cur c m))"

partial_function (option) union_loop ::
    "allocator \<Rightarrow> (ptr \<Rightarrow> ptr \<Rightarrow> int) \<Rightarrow> ptr \<Rightarrow> ptr \<Rightarrow> ptr \<Rightarrow> ptr \<Rightarrow> u32 \<Rightarrow> lmem \<Rightarrow> (ptr \<times> ptr \<times> ptr \<times> ptr \<times> u32 \<times> lmem) ores" where
  "union_loop heap cmp x1 x2 ns cur cnt m =
     (if x1 \<noteq> NULL \<and> x2 \<noteq> NULL
      then let i = cmp (hdf m x1) (hdf m x2)
           in if i = 0 then union_loop heap cmp x1 (tlf m x2) ns cur cnt m
              else if i < 0
              then bind_ores (Some (snoc_cell heap (hdf m x1) ns cur m)) (\<lambda>(ns, cur, m).
                     union_loop heap cmp (tlf m x1) x2 ns cur (cnt + 1) m)
              else bind_ores (Some (snoc_cell heap (hdf m x2) ns cur m)) (\<lambda>(ns, cur, m).
                     union_loop heap cmp x1 (tlf m x2) ns cur (cnt + 1) m)
      else Some (Inr (x1, x2, ns, cur, cnt, m)))"

text \<open>The rest of one argument is shared by the result.\<close>

definition link_rest :: "ptr \<Rightarrow> ptr \<Rightarrow> ptr \<Rightarrow> u32 \<Rightarrow> lmem \<Rightarrow> (ptr \<times> u32 \<times> lmem) option" where
  "link_rest x ns cur cnt m =
     (let (ns, m) = (if cur = NULL then (x, m) else (ns, set_tl cur x m))
      in map_option (\<lambda>l. (ns, cnt + l, m)) (Cyc_List_length x m))"

definition Cyc_Set_union_two :: "allocator \<Rightarrow> ptr \<Rightarrow> ptr \<Rightarrow> smem \<Rightarrow> (ptr \<times> smem) ores" where
  "Cyc_Set_union_two heap s1 s2 s =
     (let v1 = set_at s s1; v2 = set_at s s2
      in if s1 = s2 then Some (Inr (s1, s))
         else if card_of v1 = 0 then Some (Inr (s2, s))
         else if card_of v2 = 0 then Some (Inr (s1, s))
         else bind_ores (union_loop heap (scmp v1) (nodes v1) (nodes v2) NULL NULL 0 (scells s)) (\<lambda>(x1, x2, ns, cur, cnt, m).
              Option.bind (if x1 \<noteq> NULL then link_rest x1 ns cur cnt m
                           else if x2 \<noteq> NULL then link_rest x2 ns cur cnt m else Some (ns, cnt, m)) (\<lambda>(ns, cnt, m).
              bind_ores (Some (new_obj heap (s\<lparr>scells := m\<rparr>))) (\<lambda>(t, s).
              Some (Inr (t, put_set t (scmp v1) cnt ns s))))))"

subsection \<open>Deletion\<close>

text \<open>The loop of \<open>delete_b\<close>: copies the cells before the element and shares the rest.\<close>

partial_function (option) delete_b_loop ::
    "allocator \<Rightarrow> (ptr \<Rightarrow> ptr \<Rightarrow> int) \<Rightarrow> ptr \<Rightarrow> ptr \<Rightarrow> ptr \<Rightarrow> lmem \<Rightarrow> lmem ores" where
  "delete_b_loop heap cmp n elt prev m =
     (if n \<noteq> NULL \<and> cmp (hdf m n) elt \<noteq> 0
      then bind_ores (Some (new_cell heap (hdf m n) NULL m)) (\<lambda>(temp, m).
             let m = set_tl prev temp m in delete_b_loop heap cmp (tlf m n) elt temp m)
      else if n = NULL then Some (Inl (Throw Null_Exception))
      else Some (Inr (set_tl prev (tlf m n) m)))"

definition Cyc_Set_delete_b :: "allocator \<Rightarrow> (ptr \<Rightarrow> ptr \<Rightarrow> int) \<Rightarrow> ptr \<Rightarrow> ptr \<Rightarrow> lmem \<Rightarrow> (ptr \<times> lmem) ores" where
  "Cyc_Set_delete_b heap cmp n elt m =
     (if n = NULL then Some (Inl (Throw Null_Exception))
      else if cmp (hdf m n) elt = 0 then Some (Inr (tlf m n, m))
      else bind_ores (Some (new_cell heap (hdf m n) NULL m)) (\<lambda>(result, m).
           bind_ores (delete_b_loop heap cmp (tlf m n) elt result m) (\<lambda>m. Some (Inr (result, m)))))"

definition Cyc_Set_delete :: "allocator \<Rightarrow> ptr \<Rightarrow> ptr \<Rightarrow> smem \<Rightarrow> (ptr \<times> smem) ores" where
  "Cyc_Set_delete heap p elt s =
     Option.bind (Cyc_Set_member p elt s) (\<lambda>b.
     if b
     then bind_ores (Some (new_obj heap s)) (\<lambda>(t, s).
          let v = set_at s p
          in bind_ores (Cyc_Set_delete_b heap (scmp v) (nodes v) elt (scells s)) (\<lambda>(n, m).
             Some (Inr (t, put_set t (scmp v) (card_of v - 1) n (s\<lparr>scells := m\<rparr>)))))
     else Some (Inr (p, s)))"

text \<open>
  \<open>imp_delete_b\<close> stores the element it removes through \<open>ret\<close>, but not when it is the first one:
  then the value \<open>ret\<close> had before is returned.
\<close>

partial_function (option) imp_delete_loop ::
    "(ptr \<Rightarrow> ptr \<Rightarrow> int) \<Rightarrow> ptr \<Rightarrow> ptr \<Rightarrow> ptr \<Rightarrow> lmem \<Rightarrow> (ptr \<times> lmem) ores" where
  "imp_delete_loop cmp n elt prev m =
     (if n \<noteq> NULL \<and> cmp (hdf m n) elt \<noteq> 0
      then if prev = NULL then Some (Inl (Throw Null_Exception))
           else imp_delete_loop cmp (tlf m n) elt (tlf m prev) m
      else if n = NULL \<or> prev = NULL then Some (Inl (Throw Null_Exception))
      else Some (Inr (hdf m n, set_tl prev (tlf m n) m)))"

definition Cyc_Set_imp_delete_b :: "(ptr \<Rightarrow> ptr \<Rightarrow> int) \<Rightarrow> ptr \<Rightarrow> ptr \<Rightarrow> ptr \<Rightarrow> lmem \<Rightarrow> (ptr \<times> ptr \<times> lmem) ores" where
  "Cyc_Set_imp_delete_b cmp n elt ret m =
     (if n = NULL then Some (Inl (Throw Null_Exception))
      else if cmp (hdf m n) elt = 0 then Some (Inr (tlf m n, ret, m))
      else bind_ores (imp_delete_loop cmp (tlf m n) elt n m) (\<lambda>(ret, m). Some (Inr (n, ret, m))))"

definition Cyc_Set_imp_delete :: "ptr \<Rightarrow> ptr \<Rightarrow> smem \<Rightarrow> (ptr \<times> smem) ores" where
  "Cyc_Set_imp_delete p elt s =
     Option.bind (Cyc_Set_member p elt s) (\<lambda>b.
     if b
     then let v = set_at s p
          in bind_ores (Cyc_Set_imp_delete_b (scmp v) (nodes v) elt elt (scells s)) (\<lambda>(n, ret, m).
             Some (Inr (ret, put_set p (scmp v) (card_of v) n (s\<lparr>scells := m\<rparr>))))
     else Some (Inr (elt, s)))"

subsection \<open>Folds\<close>

partial_function (option) fold_loop :: "(ptr \<Rightarrow> 'a \<Rightarrow> 'a res) \<Rightarrow> ptr \<Rightarrow> lmem \<Rightarrow> 'a \<Rightarrow> 'a ores" where
  "fold_loop f n m accum =
     (if n \<noteq> NULL then bind_ores (Some (f (hdf m n) accum)) (\<lambda>accum. fold_loop f (tlf m n) m accum)
      else Some (Inr accum))"

definition Cyc_Set_fold :: "(ptr \<Rightarrow> 'a \<Rightarrow> 'a res) \<Rightarrow> ptr \<Rightarrow> 'a \<Rightarrow> smem \<Rightarrow> 'a ores" where
  "Cyc_Set_fold f p accum s = fold_loop f (nodes (set_at s p)) (scells s) accum"

definition Cyc_Set_fold_c :: "('e \<Rightarrow> ptr \<Rightarrow> 'a \<Rightarrow> 'a res) \<Rightarrow> 'e \<Rightarrow> ptr \<Rightarrow> 'a \<Rightarrow> smem \<Rightarrow> 'a ores" where
  "Cyc_Set_fold_c f env p accum s = fold_loop (f env) (nodes (set_at s p)) (scells s) accum"

definition Cyc_Set_app :: "(ptr \<Rightarrow> 't \<Rightarrow> (ptr \<times> 't) res) \<Rightarrow> ptr \<Rightarrow> smem \<Rightarrow> 't \<Rightarrow> 't ores" where
  "Cyc_Set_app f p s t = Cyc_List_app f (nodes (set_at s p)) (scells s) t"

definition Cyc_Set_iter :: "(ptr \<Rightarrow> 't \<Rightarrow> 't res) \<Rightarrow> ptr \<Rightarrow> smem \<Rightarrow> 't \<Rightarrow> 't ores" where
  "Cyc_Set_iter f p s t = Cyc_List_iter f (nodes (set_at s p)) (scells s) t"

definition Cyc_Set_iter_c :: "('e \<Rightarrow> ptr \<Rightarrow> 't \<Rightarrow> 't res) \<Rightarrow> 'e \<Rightarrow> ptr \<Rightarrow> smem \<Rightarrow> 't \<Rightarrow> 't ores" where
  "Cyc_Set_iter_c f env p s t = Cyc_List_iter_c f env (nodes (set_at s p)) (scells s) t"

subsection \<open>Intersection, sets from lists, comparison\<close>

partial_function (option) set_intersect_loop ::
    "allocator \<Rightarrow> (ptr \<Rightarrow> ptr \<Rightarrow> int) \<Rightarrow> ptr \<Rightarrow> ptr \<Rightarrow> ptr \<Rightarrow> ptr \<Rightarrow> u32 \<Rightarrow> lmem \<Rightarrow> (ptr \<times> u32 \<times> lmem) ores" where
  "set_intersect_loop heap cmp x1 x2 result prev cnt m =
     (if x1 \<noteq> NULL \<and> x2 \<noteq> NULL
      then let i = cmp (hdf m x1) (hdf m x2)
           in if i = 0
              then bind_ores (Some (snoc_cell heap (hdf m x1) result prev m)) (\<lambda>(result, prev, m).
                     set_intersect_loop heap cmp (tlf m x1) (tlf m x2) result prev (cnt + 1) m)
              else if i < 0 then set_intersect_loop heap cmp (tlf m x1) x2 result prev cnt m
              else set_intersect_loop heap cmp x1 (tlf m x2) result prev cnt m
      else Some (Inr (result, cnt, m)))"

definition Cyc_Set_intersect :: "allocator \<Rightarrow> ptr \<Rightarrow> ptr \<Rightarrow> smem \<Rightarrow> (ptr \<times> smem) ores" where
  "Cyc_Set_intersect heap s1 s2 s =
     (let v1 = set_at s s1; v2 = set_at s s2
      in if s1 = s2 then Some (Inr (s1, s))
         else if nodes v1 = NULL then Some (Inr (s1, s))
         else if nodes v2 = NULL then Some (Inr (s2, s))
         else bind_ores (set_intersect_loop heap (scmp v1) (nodes v1) (nodes v2) NULL NULL 0 (scells s)) (\<lambda>(result, cnt, m).
              bind_ores (Some (new_obj heap (s\<lparr>scells := m\<rparr>))) (\<lambda>(t, s).
              Some (Inr (t, put_set t (scmp v1) cnt result s)))))"

text \<open>The loop of \<open>from_list\<close> that drops duplicates: one per visited cell.\<close>

partial_function (option) dedup_loop :: "(ptr \<Rightarrow> ptr \<Rightarrow> int) \<Rightarrow> ptr \<Rightarrow> lmem \<Rightarrow> lmem option" where
  "dedup_loop cmp y m =
     (if y \<noteq> NULL
      then let m = (if tlf m y \<noteq> NULL \<and> cmp (hdf m y) (hdf m (tlf m y)) = 0 then set_tl y (tlf m (tlf m y)) m else m)
           in dedup_loop cmp (tlf m y) m
      else Some m)"

definition Cyc_Set_from_list :: "allocator \<Rightarrow> (ptr \<Rightarrow> ptr \<Rightarrow> int) \<Rightarrow> ptr \<Rightarrow> smem \<Rightarrow> (ptr \<times> smem) ores" where
  "Cyc_Set_from_list heap cmp x s =
     bind_ores (Cyc_List_merge_sort heap cmp x (scells s)) (\<lambda>(z, m).
     Option.bind (dedup_loop cmp z m) (\<lambda>m.
     bind_ores (Some (new_obj heap (s\<lparr>scells := m\<rparr>))) (\<lambda>(t, s).
     Option.bind (Cyc_List_length z (scells s)) (\<lambda>l. Some (Inr (t, put_set t cmp l z s))))))"

partial_function (option) subset_loop :: "(ptr \<Rightarrow> ptr \<Rightarrow> int) \<Rightarrow> ptr \<Rightarrow> ptr \<Rightarrow> lmem \<Rightarrow> bool option" where
  "subset_loop cmp x1 x2 m =
     (if x1 = NULL then Some True
      else if x2 = NULL then Some False
      else let i = cmp (hdf m x1) (hdf m x2)
           in if i = 0 then subset_loop cmp (tlf m x1) (tlf m x2) m
              else if i > 0 then subset_loop cmp x1 (tlf m x2) m
              else Some False)"

definition Cyc_Set_subset :: "ptr \<Rightarrow> ptr \<Rightarrow> smem \<Rightarrow> bool option" where
  "Cyc_Set_subset s1 s2 s = subset_loop (scmp (set_at s s1)) (nodes (set_at s s1)) (nodes (set_at s s2)) (scells s)"

partial_function (option) diff_loop ::
    "allocator \<Rightarrow> (ptr \<Rightarrow> ptr \<Rightarrow> int) \<Rightarrow> ptr \<Rightarrow> ptr \<Rightarrow> u32 \<Rightarrow> lmem \<Rightarrow> (ptr \<times> u32 \<times> lmem) ores" where
  "diff_loop heap cmp x1 x2 cnt m =
     (if x2 \<noteq> NULL
      then Option.bind (Cyc_Set_member_b cmp x1 (hdf m x2) m) (\<lambda>b.
           if b
           then bind_ores (Cyc_Set_delete_b heap cmp x1 (hdf m x2) m) (\<lambda>(x1, m).
                  diff_loop heap cmp x1 (tlf m x2) (cnt - 1) m)
           else diff_loop heap cmp x1 (tlf m x2) cnt m)
      else Some (Inr (x1, cnt, m)))"

definition Cyc_Set_diff :: "allocator \<Rightarrow> ptr \<Rightarrow> ptr \<Rightarrow> smem \<Rightarrow> (ptr \<times> smem) ores" where
  "Cyc_Set_diff heap s1 s2 s =
     (let v1 = set_at s s1; x2 = nodes (set_at s s2)
      in if x2 = NULL then Some (Inr (s1, s))
         else bind_ores (diff_loop heap (scmp v1) (nodes v1) x2 (card_of v1) (scells s)) (\<lambda>(x1, cnt, m).
              bind_ores (Some (new_obj heap (s\<lparr>scells := m\<rparr>))) (\<lambda>(t, s).
              Some (Inr (t, put_set t (scmp v1) cnt x1 s)))))"

text \<open>\<open>setcmp\<close> relies on the counts: it walks the second list without a test for its end.\<close>

partial_function (option) setcmp_loop :: "(ptr \<Rightarrow> ptr \<Rightarrow> int) \<Rightarrow> ptr \<Rightarrow> ptr \<Rightarrow> lmem \<Rightarrow> int ores" where
  "setcmp_loop cmp x1 x2 m =
     (if x1 \<noteq> NULL
      then if x2 = NULL then Some (Inl (Throw Null_Exception))
           else let diff = cmp (hdf m x1) (hdf m x2)
                in if diff \<noteq> 0 then Some (Inr diff) else setcmp_loop cmp (tlf m x1) (tlf m x2) m
      else Some (Inr 0))"

definition Cyc_Set_setcmp :: "ptr \<Rightarrow> ptr \<Rightarrow> smem \<Rightarrow> int ores" where
  "Cyc_Set_setcmp s1 s2 s =
     (let v1 = set_at s s1; v2 = set_at s s2
      in if card_of v1 \<noteq> card_of v2 then Some (Inr (sint (card_of v1 - card_of v2)))
         else setcmp_loop (scmp v1) (nodes v1) (nodes v2) (scells s))"

definition Cyc_Set_equals :: "ptr \<Rightarrow> ptr \<Rightarrow> smem \<Rightarrow> bool ores" where
  "Cyc_Set_equals s1 s2 s = bind_ores (Cyc_Set_setcmp s1 s2 s) (\<lambda>i. Some (Inr (i = 0)))"

definition Cyc_Set_choose :: "ptr \<Rightarrow> smem \<Rightarrow> ptr res" where
  "Cyc_Set_choose p s =
     (if nodes (set_at s p) = NULL then Inl (Throw Absent) else Inr (hdf (scells s) (nodes (set_at s p))))"

text \<open>The iterator: \<open>iter_f\<close> returns the next element and moves the position.\<close>

definition Cyc_Set_iter_f :: "ptr \<Rightarrow> smem \<Rightarrow> (ptr option \<times> smem)" where
  "Cyc_Set_iter_f elts_left s =
     (let n = env_at s elts_left
      in if n = NULL then (None, s)
         else (Some (hdf (scells s) n), s\<lparr>env_at := (env_at s)(elts_left := tlf (scells s) n)\<rparr>))"

definition Cyc_Set_make_iter :: "allocator \<Rightarrow> ptr \<Rightarrow> smem \<Rightarrow> (ptr \<times> smem) res" where
  "Cyc_Set_make_iter new p s =
     bind_res (new_obj new s) (\<lambda>(e, s). Inr (e, s\<lparr>env_at := (env_at s)(e := nodes (set_at s p))\<rparr>))"

subsection \<open>Sets as sorted sequences\<close>

abbreviation increasing :: "(ptr \<Rightarrow> ptr \<Rightarrow> int) \<Rightarrow> ptr list \<Rightarrow> bool" where
  "increasing cmp \<equiv> sorted_wrt (\<lambda>a b. cmp a b < 0)"

text \<open>The set at \<open>p\<close> is well formed and its elements are \<open>hs\<close>.\<close>

definition set_rep :: "smem \<Rightarrow> ptr \<Rightarrow> ptr list \<Rightarrow> bool" where
  "set_rep s p hs \<longleftrightarrow> (\<exists>ps. cells (scells s) (nodes (set_at s p)) ps \<and> map (hdf (scells s)) ps = hs)
     \<and> increasing (scmp (set_at s p)) hs \<and> card_of (set_at s p) = of_nat (length hs)"

lemma put_set_sel [simp]:
  "scells (put_set p cmp c n s) = scells s"
  "set_at (put_set p cmp c n s) q = (if q = p then \<lparr>scmp = cmp, card_of = c, nodes = n\<rparr> else set_at s q)"
  by (simp_all add: put_set_def)

lemma member_b_spec:
  assumes c: "total_cmp cmp"
  shows "cells m n ps \<Longrightarrow> increasing cmp (map (hdf m) ps) \<Longrightarrow>
    Cyc_Set_member_b cmp n elt m = Some (\<exists>h \<in> set (map (hdf m) ps). cmp elt h = 0)"
proof (induction ps arbitrary: n)
  case Nil
  then show ?case by (simp add: Cyc_Set_member_b.simps)
next
  case (Cons a ps)
  then have a: "n = a" "a \<noteq> NULL" "cells m (tlf m a) ps" "increasing cmp (map (hdf m) ps)"
    "\<And>h. h \<in> set (map (hdf m) ps) \<Longrightarrow> cmp (hdf m a) h < 0" by auto
  consider "cmp elt (hdf m a) = 0" | (less) "cmp elt (hdf m a) < 0" | (greater) "cmp elt (hdf m a) > 0" by linarith
  then show ?case
  proof cases
    case less
    have "cmp elt h < 0" if "h \<in> set (map (hdf m) ps)" for h
      using total_cmp.cmp_less_trans [OF c less a(5) [OF that]] .
    then show ?thesis using less a(1,2) by (subst Cyc_Set_member_b.simps) fastforce
  next
    case greater
    then show ?thesis using a(1,2) Cons.IH [OF a(3,4)] by (subst Cyc_Set_member_b.simps) (simp add: Let_def)
  qed (use a(1,2) in \<open>subst Cyc_Set_member_b.simps, simp\<close>)
qed

text \<open>The place of an element that is not there yet.\<close>

definition insert_elt :: "(ptr \<Rightarrow> ptr \<Rightarrow> int) \<Rightarrow> ptr \<Rightarrow> ptr list \<Rightarrow> ptr list" where
  "insert_elt cmp elt hs = takeWhile (\<lambda>h. cmp h elt < 0) hs @ elt # dropWhile (\<lambda>h. cmp h elt < 0) hs"

lemma insert_elt_Cons: "insert_elt cmp elt (h # hs) = (if cmp h elt < 0 then h # insert_elt cmp elt hs else elt # h # hs)"
  by (simp add: insert_elt_def)

lemma set_insert_elt [simp]: "set (insert_elt cmp elt hs) = insert elt (set hs)"
  by (induction hs) (auto simp: insert_elt_def)

lemma length_insert_elt [simp]: "length (insert_elt cmp elt hs) = Suc (length hs)"
  by (induction hs) (auto simp: insert_elt_def)

lemma insert_elt_increasing:
  assumes c: "total_cmp cmp"
  shows "increasing cmp hs \<Longrightarrow> \<forall>h \<in> set hs. cmp elt h \<noteq> 0 \<Longrightarrow> increasing cmp (insert_elt cmp elt hs)"
proof (induction hs)
  case Nil
  then show ?case by (simp add: insert_elt_def)
next
  case (Cons h hs)
  show ?case
  proof (cases "cmp h elt < 0")
    case True
    then show ?thesis using Cons by (auto simp: insert_elt_Cons)
  next
    case False
    then have "cmp elt h < 0" using Cons.prems(2) total_cmp.cmp_neg [OF c, of h elt] total_cmp.cmp_le_iff [OF c, of elt h] by force
    then show ?thesis using False Cons.prems(1) total_cmp.cmp_less_trans [OF c, of elt h] by (auto simp: insert_elt_Cons)
  qed
qed

text \<open>A loop has linked cells with the heads \<open>hs\<close> behind \<open>prev\<close>; the other cells are as they were.\<close>

definition linked :: "allocator \<Rightarrow> ptr \<Rightarrow> lmem \<Rightarrow> ptr list \<Rightarrow> lmem ores \<Rightarrow> bool" where
  "linked new prev m hs o1 \<longleftrightarrow> o1 = Some (Inl (Throw Bad_alloc)) \<and> (\<exists>k. new k = NULL) \<or>
     (\<exists>m' qs. o1 = Some (Inr m') \<and> cells m' prev (prev # qs) \<and> map (hdf m') qs = hs \<and> set (used m) \<subseteq> set (used m')
        \<and> (\<forall>q \<in> set (used m). hdf m' q = hdf m q \<and> (q \<noteq> prev \<longrightarrow> tlf m' q = tlf m q)))"

text \<open>One more cell \<open>p\<close> with head \<open>h\<close> between \<open>prev\<close> and what the rest of the loop links.\<close>

lemma linked_step:
  assumes "linked new p (set_tl prev p (set_cell p h NULL (m\<lparr>used := p # used m\<rparr>))) hs o1"
    and "p \<notin> set (used m)" "prev \<in> set (used m)" "prev \<noteq> NULL"
  shows "linked new prev m (h # hs) o1"
proof -
  let ?m = "set_tl prev p (set_cell p h NULL (m\<lparr>used := p # used m\<rparr>))"
  have k: "prev \<noteq> p" using assms(2,3) by auto
  from assms(1) [unfolded linked_def] show ?thesis
  proof (elim disjE exE conjE)
    fix m' qs
    assume r: "o1 = Some (Inr m')" "cells m' p (p # qs)" "map (hdf m') qs = hs" "set (used ?m) \<subseteq> set (used m')"
      "\<forall>q \<in> set (used ?m). hdf m' q = hdf ?m q \<and> (q \<noteq> p \<longrightarrow> tlf m' q = tlf ?m q)"
    have "tlf m' prev = p" "hdf m' p = h" using r(5) k assms(3) by auto
    then have "cells m' prev (prev # p # qs)" "map (hdf m') (p # qs) = h # hs" using r(2-4) assms(3,4) by auto
    moreover have "hdf m' q = hdf m q \<and> (q \<noteq> prev \<longrightarrow> tlf m' q = tlf m q)" if "q \<in> set (used m)" for q
      using that r(5) assms(2) by auto
    ultimately show ?thesis using r(1,4) unfolding linked_def by (intro disjI2 exI [of _ m'] exI [of _ "p # qs"]) auto
  qed (auto simp: linked_def)
qed

lemma insert_b_loop_end:
  assumes new: "fresh_ok new" and m: "cells m n ns" "prev \<in> set (used m)" "prev \<notin> set ns" "prev \<noteq> NULL"
    and e: "\<not> (n \<noteq> NULL \<and> cmp (hdf m n) elt < 0)"
  shows "linked new prev m (elt # map (hdf m) ns) (insert_b_loop new cmp n elt prev m)"
proof (cases rule: new_cell_cases [OF new, of m elt n])
  case 1
  then have "insert_b_loop new cmp n elt prev m = Some (Inl (Throw Bad_alloc))" using e by (subst insert_b_loop.simps) auto
  then show ?thesis using 1 by (auto simp: linked_def)
next
  case (2 p)
  define m' where "m' = set_tl prev p (set_cell p elt n (m\<lparr>used := p # used m\<rparr>))"
  have "insert_b_loop new cmp n elt prev m = Some (Inr m')" using e 2(3) by (subst insert_b_loop.simps) (auto simp: m'_def)
  moreover have p: "p \<notin> set ns" "p \<noteq> prev" using 2(2) m(2) seg_used [OF m(1)] by auto
  moreover have "cells m' n ns" by (rule seg_cong [of ns m' m]) (use p m(1,3) in \<open>auto simp: m'_def\<close>)
  ultimately show ?thesis using 2(1,2) m(2,4) unfolding linked_def
    by (intro disjI2 exI [of _ m'] exI [of _ "p # ns"]) (auto simp: m'_def)
qed

lemma insert_b_loop_spec:
  assumes new: "fresh_ok new"
  shows "cells m n ns \<Longrightarrow> prev \<in> set (used m) \<Longrightarrow> prev \<notin> set ns \<Longrightarrow> prev \<noteq> NULL \<Longrightarrow>
    linked new prev m (insert_elt cmp elt (map (hdf m) ns)) (insert_b_loop new cmp n elt prev m)"
proof (induction ns arbitrary: n prev m)
  case Nil
  then show ?case using insert_b_loop_end [OF new Nil, of cmp elt] by (simp add: insert_elt_def)
next
  case (Cons a ns)
  then have a: "n = a" "a \<noteq> NULL" "a \<in> set (used m)" "cells m (tlf m a) ns" "a \<noteq> prev" "prev \<notin> set ns" by auto
  show ?case
  proof (cases "cmp (hdf m a) elt < 0")
    case False
    then show ?thesis using insert_b_loop_end [OF new Cons.prems, of cmp elt] a(1) by (simp add: insert_elt_Cons)
  next
    case less: True
    show ?thesis
    proof (cases rule: new_cell_cases [OF new, of m "hdf m a" NULL])
      case 1
      then have "insert_b_loop new cmp n elt prev m = Some (Inl (Throw Bad_alloc))" using a less by (subst insert_b_loop.simps) simp
      then show ?thesis using 1 by (auto simp: linked_def)
    next
      case (2 p)
      define m2 where "m2 = set_tl prev p (set_cell p (hdf m a) NULL (m\<lparr>used := p # used m\<rparr>))"
      have sub: "set ns \<subseteq> set (used m)" using seg_used [OF a(4)] by blast
      have p: "p \<notin> set ns" "p \<noteq> a" using sub 2(2) a(3) by auto
      have c2: "cells m2 (tlf m2 a) ns" by (rule seg_cong [of ns _ m]) (use a p in \<open>auto simp: m2_def\<close>)
      have h: "map (hdf m2) ns = map (hdf m) ns" "p \<in> set (used m2)" using p by (auto simp: m2_def)
      have step: "insert_b_loop new cmp n elt prev m = insert_b_loop new cmp (tlf m2 a) elt p m2"
        using a 2(3) less by (subst insert_b_loop.simps) (simp add: Let_def m2_def)
      have "linked new p m2 (insert_elt cmp elt (map (hdf m) ns)) (insert_b_loop new cmp n elt prev m)"
        unfolding step using Cons.IH [OF c2 h(2) p(1) 2(1)] unfolding h(1) .
      then show ?thesis using linked_step [OF _ 2(2) Cons.prems(2,4)] less by (simp add: insert_elt_Cons m2_def)
    qed
  qed
qed

lemma new_cell_front:
  assumes "cells m n ps" "p \<noteq> NULL" "p \<notin> set (used m)"
  shows "cells (set_cell p h n (m\<lparr>used := p # used m\<rparr>)) p (p # ps)"
    and "map (hdf (set_cell p h n (m\<lparr>used := p # used m\<rparr>))) (p # ps) = h # map (hdf m) ps"
    and "ext m (set_cell p h n (m\<lparr>used := p # used m\<rparr>))"
proof -
  let ?m = "set_cell p h n (m\<lparr>used := p # used m\<rparr>)"
  show e: "ext m ?m" using assms(3) by (auto simp: ext_def)
  from ext_cells [OF e assms(1)] show "cells ?m p (p # ps)" "map (hdf ?m) (p # ps) = h # map (hdf m) ps"
    using assms(2) by auto
qed

lemma insert_b_spec:
  assumes new: "fresh_ok new" and c: "total_cmp cmp" and m: "cells m n ps" and ne: "\<forall>h \<in> set (map (hdf m) ps). cmp elt h \<noteq> 0"
  obtains (fail) k where "new k = NULL" "Cyc_Set_insert_b new cmp n elt m = Some (Inl (Throw Bad_alloc))"
    | (ok) r m' qs where "Cyc_Set_insert_b new cmp n elt m = Some (Inr (r, m'))" "cells m' r qs"
      "map (hdf m') qs = insert_elt cmp elt (map (hdf m) ps)" "ext m m'"
proof (cases "ps = [] \<or> cmp elt (hdf m n) < 0")
  case True
  have "insert_elt cmp elt (map (hdf m) ps) = elt # map (hdf m) ps"
    using True m total_cmp.cmp_neg [OF c, of elt "hdf m n"] by (cases ps) (auto simp: insert_elt_Cons insert_elt_def)
  moreover have e: "Cyc_Set_insert_b new cmp n elt m = Some (new_cell new elt n m)"
    using True m by (cases ps) (auto simp: Cyc_Set_insert_b_def)
  ultimately show thesis
  proof (cases rule: new_cell_cases [OF new, of m elt n])
    case (2 p)
    note F = new_cell_front [OF m 2(1,2), of elt]
    then show thesis using 2(3) e ok [OF _ F(1) _ F(3)] \<open>insert_elt _ _ _ = _\<close> F(2) by simp
  qed (use fail e in simp)
next
  case False
  then obtain qs where ps: "ps = n # qs" using m by (cases ps) auto
  then have n: "n \<noteq> NULL" "n \<in> set (used m)" "cells m (tlf m n) qs" using m by auto
  have lt: "cmp (hdf m n) elt < 0"
    using False ne ps total_cmp.cmp_neg [OF c, of "hdf m n" elt] by force
  show thesis
  proof (cases rule: new_cell_cases [OF new, of m "hdf m n" NULL])
    case 1
    then show thesis using fail n(1) False by (simp add: Cyc_Set_insert_b_def)
  next
    case (2 p)
    define m2 where "m2 = set_cell p (hdf m n) NULL (m\<lparr>used := p # used m\<rparr>)"
    have p: "p \<notin> set qs" "p \<noteq> n" "p \<in> set (used m2)" using 2(2) n(2) seg_used [OF n(3)] by (auto simp: m2_def)
    have c2: "cells m2 (tlf m2 n) qs" by (rule seg_cong [of qs _ m]) (use p n(3) in \<open>auto simp: m2_def\<close>)
    have h: "map (hdf m2) qs = map (hdf m) qs" "hdf m2 p = hdf m n" using p by (auto simp: m2_def)
    have step: "Cyc_Set_insert_b new cmp n elt m =
        bind_ores (insert_b_loop new cmp (tlf m2 n) elt p m2) (\<lambda>m. Some (Inr (p, m)))"
      using n(1) False ps 2(3) by (simp add: Cyc_Set_insert_b_def m2_def)
    from insert_b_loop_spec [OF new c2 p(3,1) 2(1), of cmp elt, unfolded linked_def h(1)] show thesis
    proof (elim disjE exE conjE)
      fix k assume "insert_b_loop new cmp (tlf m2 n) elt p m2 = Some (Inl (Throw Bad_alloc))" "new k = NULL"
      then show thesis using fail step by simp
    next
      fix m' rs
      assume r: "insert_b_loop new cmp (tlf m2 n) elt p m2 = Some (Inr m')" "cells m' p (p # rs)"
        "map (hdf m') rs = insert_elt cmp elt (map (hdf m) qs)" "set (used m2) \<subseteq> set (used m')"
        "\<forall>q \<in> set (used m2). hdf m' q = hdf m2 q \<and> (q \<noteq> p \<longrightarrow> tlf m' q = tlf m2 q)"
      have "map (hdf m') (p # rs) = insert_elt cmp elt (map (hdf m) ps)" using r(3,5) h(2) p(3) lt ps by (simp add: insert_elt_Cons)
      moreover have "ext m m'" using r(4,5) 2(2) by (auto simp: ext_def m2_def)
      moreover have "Cyc_Set_insert_b new cmp n elt m = Some (Inr (p, m'))" using step r(1) by simp
      ultimately show thesis using ok [OF _ r(2)] by blast
    qed
  qed
qed

lemma set_rep_cong:
  assumes "set_rep s p hs" and "set_at s' p = set_at s p" and "ext (scells s) (scells s')"
  shows "set_rep s' p hs"
  using assms(1,2) ext_cells [OF assms(3)] unfolding set_rep_def by fastforce

lemma member_spec:
  assumes "total_cmp (scmp (set_at s p))" and "set_rep s p hs"
  shows "Cyc_Set_member p elt s = Some (\<exists>h \<in> set hs. scmp (set_at s p) elt h = 0)"
  using member_b_spec [OF assms(1)] assms(2) by (auto simp: Cyc_Set_member_def set_rep_def)

lemma rinsert_new:
  assumes new: "fresh_ok new" and c: "total_cmp (scmp (set_at s p))" and r: "set_rep s p hs"
    and p: "p \<in> set (used (scells s))" and ne: "\<forall>h \<in> set hs. scmp (set_at s p) elt h \<noteq> 0"
  shows "Cyc_Set_rinsert new p elt s = Some (Inl (Throw Bad_alloc)) \<and> (\<exists>k. new k = NULL) \<or>
     (\<exists>t s'. Cyc_Set_rinsert new p elt s = Some (Inr (t, s')) \<and> set_rep s' p hs
        \<and> set_rep s' t (insert_elt (scmp (set_at s p)) elt hs) \<and> scmp (set_at s' t) = scmp (set_at s p))"
proof -
  let ?v = "set_at s p"
  have mem: "Cyc_Set_member p elt s = Some False" using member_spec [OF c r, of elt] ne by auto
  show ?thesis
  proof (cases "new (scells s) = NULL")
    case True
    then have "Cyc_Set_rinsert new p elt s = Some (Inl (Throw Bad_alloc))"
      using mem by (simp add: Cyc_Set_rinsert_def new_obj_def alloc_obj_def)
    then show ?thesis using True by blast
  next
    case False
    define t m where "t = new (scells s)" and "m = (scells s)\<lparr>used := t # used (scells s)\<rparr>"
    have t: "t \<noteq> p" using new p False by (auto simp: fresh_ok_def t_def)
    have e0: "ext (scells s) m" by (auto simp: ext_def m_def)
    obtain ps where ps: "cells m (nodes ?v) ps" "map (hdf m) ps = hs"
      using r ext_cells [OF e0] by (fastforce simp: set_rep_def)
    have step: "Cyc_Set_rinsert new p elt s = bind_ores (Cyc_Set_insert_b new (scmp ?v) (nodes ?v) elt m)
        (\<lambda>(n, m'). Some (Inr (t, put_set t (scmp ?v) (card_of ?v + 1) n (s\<lparr>scells := m'\<rparr>))))"
      using mem False by (simp add: Cyc_Set_rinsert_def new_obj_def alloc_obj_def t_def m_def Let_def)
    have ne': "\<forall>h \<in> set (map (hdf m) ps). scmp ?v elt h \<noteq> 0" using ne ps(2) by simp
    show ?thesis
    proof (cases rule: insert_b_spec [OF new c ps(1) ne'])
      case ok: (2 r' m' qs)
      let ?s = "put_set t (scmp ?v) (card_of ?v + 1) r' (s\<lparr>scells := m'\<rparr>)"
      have "ext (scells s) m'" using e0 ok(4) by (auto simp: ext_def)
      then have "set_rep ?s p hs" using t by (intro set_rep_cong [OF r]) auto
      moreover have "set_rep ?s t (insert_elt (scmp ?v) elt hs)"
        using ok(2,3) ps(2) insert_elt_increasing [OF c, of hs elt] ne r by (auto simp: set_rep_def)
      ultimately show ?thesis using step ok(1) by auto
    qed (use step in auto)
  qed
qed

subsection \<open>Properties\<close>


text \<open>A set with the elements 10 and 30.\<close>

definition small_set :: smem where
  "small_set = \<lparr>scells = \<lparr>used = [4, 8, 12], hdf = (\<lambda>p. if p = 4 then 10 else 30), tlf = (\<lambda>p. if p = 4 then 8 else NULL),
     pair_at = (\<lambda>_. (0, 0)), triple_at = (\<lambda>_. (0, 0, 0))\<rparr>,
     set_at = (\<lambda>_. \<lparr>scmp = Cyc_Core_nptrcmp, card_of = 2, nodes = 4\<rparr>), env_at = (\<lambda>_. NULL)\<rparr>"

lemma small_set_rep: "set_rep small_set 12 [10, 30]"
  unfolding set_rep_def by (intro conjI exI [of _ "[4, 8]"]) (simp_all add: small_set_def Cyc_Core_nptrcmp_def)


text \<open>The imperative operations leave the count as it was, whether or not the element was there.\<close>

lemma imp_rinsert_keeps_count:
  "Cyc_Set_imp_rinsert new p elt s = Some (Inr s') \<Longrightarrow> card_of (set_at s' p) = card_of (set_at s p)"
  by (auto simp: Cyc_Set_imp_rinsert_def Let_def bind_ores_eq_Inr bind_eq_Some_conv split: if_splits)

lemma imp_delete_keeps_count:
  "Cyc_Set_imp_delete p elt s = Some (Inr (ret, s')) \<Longrightarrow> card_of (set_at s' p) = card_of (set_at s p)"
  by (auto simp: Cyc_Set_imp_delete_def Let_def bind_ores_eq_Inr bind_eq_Some_conv split: if_splits)

text \<open>A list of three equal elements.\<close>

definition three_equal :: smem where
  "three_equal = \<lparr>scells = \<lparr>used = [4, 8, 12], hdf = (\<lambda>_. 7), tlf = (\<lambda>p. if p = 4 then 8 else if p = 8 then 12 else NULL),
     pair_at = (\<lambda>_. (0, 0)), triple_at = (\<lambda>_. (0, 0, 0))\<rparr>,
     set_at = (\<lambda>_. \<lparr>scmp = Cyc_Core_nptrcmp, card_of = 0, nodes = NULL\<rparr>), env_at = (\<lambda>_. NULL)\<rparr>"

definition next_addr :: allocator where
  "next_addr m = (if length (used m) < 10 then of_nat (4 * length (used m) + 4) else NULL)"

lemmas list_code [code] = Cyc_List_rimp_merge_sort.simps split_loop.simps imp_merge_loop.simps map_loop.simps
  length_loop.simps dedup_loop.simps Cyc_Set_member_b.simps


end
