(* ===== verification/Cyc_Xp.thy ===== *)
theory Cyc_Xp
  imports Prelude "HOL-Library.Signed_Division"
begin

section \<open>Multiple-precision arithmetic\<close>

text \<open>
  The library of numbers in base 256 (lib/xp.cyc, in C bin/genfiles/xp.c).  A number is an array of
  digits, the least significant one first, and a pointer into it is a fat pointer; calls may
  pass overlapping arrays, and the division works inside one scratch array, so the arrays are blocks
  of a memory and a pointer is a block with an offset.  Every access is checked.

  C's \<open>/\<close> and \<open>%\<close> on \<open>int\<close> truncate towards 0: \<open>sdiv\<close> and \<open>smod\<close>.  An overflow of an \<open>int\<close>
  is undefined in C, so an \<open>int\<close> is an integer here; an \<open>unsigned\<close> is a 32-bit word.
  \<open>assert\<close> of the library prints and ends the process.

  What the lemmas show: every operation is given as an equation between the numbers \<open>xval\<close> in the memories before and after
  it (\<open>XP_add_eq\<close> to \<open>XP_rshift_eq\<close>), for arguments that overlap where the loops allow it; the estimate of a
  digit of the quotient is off by one at most, so that one correction is enough (\<open>estimate\<close>, \<open>div_step_eq\<close>,
  \<open>XP_div_ok\<close>); numerals are read and printed correctly (\<open>XP_fromstr_ok\<close>, \<open>XP_tostr_ok\<close>); and no operation changes
  the size of an array.
\<close>

subsection \<open>Memory\<close>

type_synonym xmem = "nat \<Rightarrow> u8 list"

record xp_t =
  xblk :: nat
  xoff :: int

definition xp_read :: "xmem \<Rightarrow> xp_t \<Rightarrow> int \<Rightarrow> u8 res" where
  "xp_read M p i =
     (let j = xoff p + i
      in if 0 \<le> j \<and> j < int (length (M (xblk p))) then Inr (M (xblk p) ! nat j) else Inl (Throw Array_bounds))"

definition xp_write :: "xmem \<Rightarrow> xp_t \<Rightarrow> int \<Rightarrow> u8 \<Rightarrow> xmem res" where
  "xp_write M p i v =
     (let j = xoff p + i
      in if 0 \<le> j \<and> j < int (length (M (xblk p))) then Inr (M(xblk p := (M (xblk p))[nat j := v]))
         else Inl (Throw Array_bounds))"

definition xp_plus :: "xp_t \<Rightarrow> int \<Rightarrow> xp_t" where
  "xp_plus p k = p\<lparr>xoff := xoff p + k\<rparr>"

definition xp_numelts :: "xmem \<Rightarrow> xp_t \<Rightarrow> int" where
  "xp_numelts M p =
     (if 0 \<le> xoff p \<and> xoff p < int (length (M (xblk p))) then int (length (M (xblk p))) - xoff p else 0)"

text \<open>\<open>for (i = a; i < b; ++i)\<close> and \<open>for (i = a; i >= b; --i)\<close>, given the number of rounds.\<close>

fun for_up :: "(int \<Rightarrow> 's \<Rightarrow> 's res) \<Rightarrow> int \<Rightarrow> nat \<Rightarrow> 's \<Rightarrow> 's res" where
  "for_up f i 0 s = Inr s"
| "for_up f i (Suc k) s = bind_res (f i s) (for_up f (i + 1) k)"

fun for_down :: "(int \<Rightarrow> 's \<Rightarrow> 's res) \<Rightarrow> int \<Rightarrow> nat \<Rightarrow> 's \<Rightarrow> 's res" where
  "for_down f i 0 s = Inr s"
| "for_down f i (Suc k) s = bind_res (f i s) (for_down f (i - 1) k)"

text \<open>\<open>memset\<close> to 0 and \<open>memcpy\<close> of lib/string.cyc, on bytes.\<close>

definition xp_memset0 :: "xp_t \<Rightarrow> int \<Rightarrow> xmem \<Rightarrow> xmem res" where
  "xp_memset0 s n M =
     (if n < 0 \<or> xp_numelts M s < n then Inl (Throw (Invalid_argument ''memset''))
      else for_up (\<lambda>i M. xp_write M s i 0) 0 (nat n) M)"

definition xp_memcpy :: "xp_t \<Rightarrow> xp_t \<Rightarrow> int \<Rightarrow> xmem \<Rightarrow> xmem res" where
  "xp_memcpy d s n M =
     (if n < 0 \<or> xp_numelts M d < n \<or> xp_numelts M s < n then Inl (Throw (Invalid_argument ''memcpy''))
      else for_up (\<lambda>i M. bind_res (xp_read M s i) (\<lambda>v. xp_write M d i v)) 0 (nat n) M)"

subsection \<open>Conversion from and to machine integers\<close>

function fromint_loop :: "int \<Rightarrow> xp_t \<Rightarrow> int \<Rightarrow> u32 \<Rightarrow> xmem \<Rightarrow> (u32 \<times> int \<times> xmem) res" where
  "fromint_loop n z i u M =
     bind_res (xp_write M z i (ucast (u mod 256))) (\<lambda>M.
       let u' = u div 256; i = i + 1
       in if 0 < u' \<and> i < n then fromint_loop n z i u' M else Inr (u', i, M))"
  by pat_completeness auto
termination
proof (relation "measure (\<lambda>(n, z, i, u, M). unat u)", goal_cases)
  case (2 n z i u M M' u' i')
  have "unat (u div 256) < unat u"
    using 2 by (simp add: unat_div word_less_nat_alt) (metis div_less_dividend div_0 gr0I less_numeral_extra(3) one_less_numeral_iff semiring_norm(76))
  then show ?case using 2 by simp
qed simp

definition XP_fromint :: "int \<Rightarrow> xp_t \<Rightarrow> u32 \<Rightarrow> xmem \<Rightarrow> (u32 \<times> xmem) res" where
  "XP_fromint n z u M =
     bind_res (fromint_loop n z 0 u M) (\<lambda>(u, i, M).
     bind_res (for_up (\<lambda>i M. xp_write M z i 0) i (nat (n - i)) M) (\<lambda>M. Inr (u, M)))"

definition XP_toint :: "int \<Rightarrow> xp_t \<Rightarrow> xmem \<Rightarrow> u32 res" where
  "XP_toint n x M =
     (let i = (if 4 > n then n else 4)
      in for_down (\<lambda>i u. bind_res (xp_read M x i) (\<lambda>d. Inr (256 * u + ucast d))) (i - 1) (nat i) 0)"

fun xp_length_loop :: "nat \<Rightarrow> xp_t \<Rightarrow> xmem \<Rightarrow> int res" where
  "xp_length_loop (Suc (Suc n)) x M =
     bind_res (xp_read M x (int n + 1)) (\<lambda>d. if d = 0 then xp_length_loop (Suc n) x M else Inr (int n + 2))"
| "xp_length_loop n x M = Inr (int n)"

definition XP_length :: "int \<Rightarrow> xp_t \<Rightarrow> xmem \<Rightarrow> int res" where
  "XP_length n x M = (if n \<le> 1 then Inr n else xp_length_loop (nat n) x M)"

subsection \<open>Addition and subtraction\<close>

definition XP_add :: "int \<Rightarrow> xp_t \<Rightarrow> xp_t \<Rightarrow> xp_t \<Rightarrow> int \<Rightarrow> xmem \<Rightarrow> (int \<times> xmem) res" where
  "XP_add n z x y carry M =
     for_up (\<lambda>i (carry, M).
       bind_res (xp_read M x i) (\<lambda>a. bind_res (xp_read M y i) (\<lambda>b.
       let carry = carry + (uint a + uint b)
       in bind_res (xp_write M z i (of_int (carry smod 256))) (\<lambda>M. Inr (carry sdiv 256, M))))) 0 (nat n) (carry, M)"

definition XP_sub :: "int \<Rightarrow> xp_t \<Rightarrow> xp_t \<Rightarrow> xp_t \<Rightarrow> int \<Rightarrow> xmem \<Rightarrow> (int \<times> xmem) res" where
  "XP_sub n z x y borrow M =
     for_up (\<lambda>i (borrow, M).
       bind_res (xp_read M x i) (\<lambda>a. bind_res (xp_read M y i) (\<lambda>b.
       let d = (uint a + 256) - borrow - uint b
       in bind_res (xp_write M z i (of_int (d smod 256))) (\<lambda>M. Inr (1 - d sdiv 256, M))))) 0 (nat n) (borrow, M)"

definition XP_sum :: "int \<Rightarrow> xp_t \<Rightarrow> xp_t \<Rightarrow> int \<Rightarrow> xmem \<Rightarrow> (int \<times> xmem) res" where
  "XP_sum n z x y M =
     for_up (\<lambda>i (y, M).
       bind_res (xp_read M x i) (\<lambda>a.
       let y = y + uint a
       in bind_res (xp_write M z i (of_int (y smod 256))) (\<lambda>M. Inr (y sdiv 256, M)))) 0 (nat n) (y, M)"

definition XP_diff :: "int \<Rightarrow> xp_t \<Rightarrow> xp_t \<Rightarrow> int \<Rightarrow> xmem \<Rightarrow> (int \<times> xmem) res" where
  "XP_diff n z x y M =
     for_up (\<lambda>i (y, M).
       bind_res (xp_read M x i) (\<lambda>a.
       let d = (uint a + 256) - y
       in bind_res (xp_write M z i (of_int (d smod 256))) (\<lambda>M. Inr (1 - d sdiv 256, M)))) 0 (nat n) (y, M)"

text \<open>In the C file the complement is that of the promoted \<open>int\<close>, \<open>- x - 1\<close>.\<close>

definition XP_neg :: "int \<Rightarrow> xp_t \<Rightarrow> xp_t \<Rightarrow> int \<Rightarrow> xmem \<Rightarrow> (int \<times> xmem) res" where
  "XP_neg n z x carry M =
     for_up (\<lambda>i (carry, M).
       bind_res (xp_read M x i) (\<lambda>a.
       let carry = carry + (- uint a - 1)
       in bind_res (xp_write M z i (of_int (carry smod 256))) (\<lambda>M. Inr (carry sdiv 256, M)))) 0 (nat n) (carry, M)"

subsection \<open>Multiplication and division\<close>

text \<open>One round of an inner loop of \<open>XP_mul\<close>: \<open>term\<close> is the product, or 0 in the second loop.\<close>

definition mul_digit :: "xp_t \<Rightarrow> (xmem \<Rightarrow> int \<Rightarrow> int res) \<Rightarrow> int \<Rightarrow> int \<Rightarrow> u32 \<times> xmem \<Rightarrow> (u32 \<times> xmem) res" where
  "mul_digit z term i j = (\<lambda>(carry, M).
     bind_res (term M j) (\<lambda>t. bind_res (xp_read M z (i + j)) (\<lambda>d.
     let carry = carry + of_int (t + uint d)
     in bind_res (xp_write M z (i + j) (ucast (carry mod 256))) (\<lambda>M. Inr (carry div 256, M)))))"

definition XP_mul :: "xp_t \<Rightarrow> int \<Rightarrow> xp_t \<Rightarrow> int \<Rightarrow> xp_t \<Rightarrow> xmem \<Rightarrow> (u32 \<times> xmem) res" where
  "XP_mul z n x m y M =
     for_up (\<lambda>i (carryout, M).
       bind_res (for_up (mul_digit z (\<lambda>M j. bind_res (xp_read M x i) (\<lambda>a. bind_res (xp_read M y j) (\<lambda>b. Inr (uint a * uint b)))) i)
                   0 (nat m) (0, M)) (\<lambda>s.
       bind_res (for_up (mul_digit z (\<lambda>M j. Inr 0) i) (max 0 m) (nat (n + m - i - max 0 m)) s) (\<lambda>(carry, M).
         Inr (carryout OR carry, M)))) 0 (nat n) (0, M)"

definition XP_product :: "int \<Rightarrow> xp_t \<Rightarrow> xp_t \<Rightarrow> int \<Rightarrow> xmem \<Rightarrow> (int \<times> xmem) res" where
  "XP_product n z x y M =
     bind_res
       (for_up (\<lambda>i (carry, M).
          bind_res (xp_read M x i) (\<lambda>a.
          let carry = carry + of_int (uint a * y) :: u32
          in bind_res (xp_write M z i (ucast (carry mod 256))) (\<lambda>M. Inr (carry div 256, M)))) 0 (nat n) (0, M))
       (\<lambda>(carry, M). Inr (sint carry, M))"

text \<open>A division by 0 ends the process by a signal.\<close>

definition XP_quotient :: "int \<Rightarrow> xp_t \<Rightarrow> xp_t \<Rightarrow> int \<Rightarrow> xmem \<Rightarrow> (int \<times> xmem) res" where
  "XP_quotient n z x y M =
     bind_res
       (for_down (\<lambda>i (carry, M).
          bind_res (xp_read M x i) (\<lambda>a.
          let carry = carry * 256 + ucast a :: u32
          in bind_res (assert_c ((of_int y :: u32) \<noteq> 0) ''division by zero'') (\<lambda>_.
             bind_res (xp_write M z i (ucast (carry div of_int y))) (\<lambda>M. Inr (carry mod of_int y, M))))) (n - 1) (nat n) (0, M))
       (\<lambda>(carry, M). Inr (sint carry, M))"

text \<open>\<open>for (i = m; i > 0; i--) if (rem[i+k] != dq[i]) break;\<close>\<close>

fun first_diff :: "nat \<Rightarrow> xp_t \<Rightarrow> int \<Rightarrow> xp_t \<Rightarrow> xmem \<Rightarrow> int res" where
  "first_diff 0 rem k dq M = Inr 0"
| "first_diff (Suc i) rem k dq M =
     bind_res (xp_read M rem (int (Suc i) + k)) (\<lambda>a. bind_res (xp_read M dq (int (Suc i))) (\<lambda>b.
       if a \<noteq> b then Inr (int (Suc i)) else first_diff i rem k dq M))"

text \<open>The estimate of one digit of the quotient from three digits of the remainder and two of the divisor.\<close>

definition guess_digit :: "int \<Rightarrow> xp_t \<Rightarrow> xp_t \<Rightarrow> int \<Rightarrow> xmem \<Rightarrow> int res" where
  "guess_digit m y rem k M =
     (let km = k + m
      in bind_res (xp_read M y (m - 1)) (\<lambda>y1. bind_res (xp_read M y (m - 2)) (\<lambda>y0.
         bind_res (xp_read M rem km) (\<lambda>r2. bind_res (xp_read M rem (km - 1)) (\<lambda>r1. bind_res (xp_read M rem (km - 2)) (\<lambda>r0.
         let y2 = uint y1 * 256 + uint y0; r3 = uint r2 * 65536 + uint r1 * 256 + uint r0
         in bind_res (assert_c (y2 \<noteq> 0) ''division by zero'') (\<lambda>_.
              let qk = r3 div y2 in Inr (if 256 \<le> qk then 255 else qk))))))))"

definition set_product :: "int \<Rightarrow> xp_t \<Rightarrow> xp_t \<Rightarrow> int \<Rightarrow> xmem \<Rightarrow> xmem res" where
  "set_product m dq y qk M =
     bind_res (XP_product m dq y qk M) (\<lambda>(c, M). xp_write M dq m (of_int c))"

definition div_step :: "int \<Rightarrow> int \<Rightarrow> xp_t \<Rightarrow> xp_t \<Rightarrow> xp_t \<Rightarrow> xp_t \<Rightarrow> int \<Rightarrow> xmem \<Rightarrow> xmem res" where
  "div_step n m q y rem dq k M =
     bind_res (assert_c (2 \<le> m \<and> m \<le> k + m \<and> k + m \<le> n) ''2 <= m && m <= k+m && k+m <= n'') (\<lambda>_.
     bind_res (guess_digit m y rem k M) (\<lambda>qk.
     bind_res (set_product m dq y qk M) (\<lambda>M.
     bind_res (first_diff (nat m) rem k dq M) (\<lambda>i.
     bind_res (xp_read M rem (i + k)) (\<lambda>a. bind_res (xp_read M dq i) (\<lambda>b.
     bind_res (if a < b then bind_res (set_product m dq y (qk - 1) M) (\<lambda>M. Inr (qk - 1, M)) else Inr (qk, M)) (\<lambda>(qk, M).
     bind_res (xp_write M q k (of_int qk)) (\<lambda>M.
     bind_res (assert_c (0 \<le> k \<and> k \<le> k + m) ''0 <= k && k <= k+m'') (\<lambda>_.
     bind_res (XP_sub (m + 1) (xp_plus rem k) (xp_plus rem k) dq 0 M) (\<lambda>(borrow, M).
     bind_res (assert_c (borrow = 0) ''borrow == 0'') (\<lambda>_. Inr M)))))))))))"

definition long_div :: "int \<Rightarrow> int \<Rightarrow> int \<Rightarrow> int \<Rightarrow> xp_t \<Rightarrow> xp_t \<Rightarrow> xp_t \<Rightarrow> xp_t \<Rightarrow> xp_t \<Rightarrow> xmem \<Rightarrow> xmem res" where
  "long_div n m nx my q x y r tmp M =
     (let rem = tmp; dq = xp_plus (xp_plus tmp n) 1
      in bind_res (assert_c (2 \<le> m \<and> m \<le> n) ''2 <= m && m <= n'') (\<lambda>_.
         bind_res (xp_memcpy rem x n M) (\<lambda>M.
         bind_res (xp_write M rem n 0) (\<lambda>M.
         bind_res (for_down (div_step n m q y rem dq) (n - m) (nat (n - m + 1)) M) (\<lambda>M.
         bind_res (xp_memcpy r rem m M) (\<lambda>M.
         bind_res (for_up (\<lambda>i M. xp_write M q i 0) (n - m + 1) (nat (nx - (n - m + 1))) M) (\<lambda>M.
         for_up (\<lambda>i M. xp_write M r i 0) m (nat (my - m)) M)))))))"

definition XP_div :: "int \<Rightarrow> xp_t \<Rightarrow> xp_t \<Rightarrow> int \<Rightarrow> xp_t \<Rightarrow> xp_t \<Rightarrow> xp_t \<Rightarrow> xmem \<Rightarrow> (int \<times> xmem) res" where
  "XP_div nx q x my y r tmp M =
     bind_res (XP_length nx x M) (\<lambda>n. bind_res (XP_length my y M) (\<lambda>m.
       if m = 1
       then bind_res (xp_read M y 0) (\<lambda>y0.
              if y0 = 0 then Inr (0, M)
              else bind_res (XP_quotient nx q x (uint y0) M) (\<lambda>(c, M).
                   bind_res (xp_write M r 0 (of_int c)) (\<lambda>M.
                   bind_res (if 1 < xp_numelts M r then xp_memset0 (xp_plus r 1) (my - 1) M else Inr M) (\<lambda>M. Inr (1, M)))))
       else if n < m
       then bind_res (xp_memset0 q nx M) (\<lambda>M.
            bind_res (xp_memcpy r x n M) (\<lambda>M.
            bind_res (xp_memset0 (xp_plus r n) (my - n) M) (\<lambda>M. Inr (1, M))))
       else bind_res (long_div n m nx my q x y r tmp M) (\<lambda>M. Inr (1, M))))"

fun cmp_loop :: "nat \<Rightarrow> xp_t \<Rightarrow> xp_t \<Rightarrow> xmem \<Rightarrow> int res" where
  "cmp_loop 0 x y M = Inr 0"
| "cmp_loop (Suc i) x y M =
     bind_res (xp_read M x (int (Suc i))) (\<lambda>a. bind_res (xp_read M y (int (Suc i))) (\<lambda>b.
       if a = b then cmp_loop i x y M else Inr (int (Suc i))))"

definition XP_cmp :: "int \<Rightarrow> xp_t \<Rightarrow> xp_t \<Rightarrow> xmem \<Rightarrow> int res" where
  "XP_cmp n x y M =
     bind_res (if n - 1 > 0 then cmp_loop (nat (n - 1)) x y M else Inr (n - 1)) (\<lambda>i.
     bind_res (xp_read M x i) (\<lambda>a. bind_res (xp_read M y i) (\<lambda>b. Inr (uint a - uint b))))"

subsection \<open>Shifts and logical operations\<close>

definition XP_lshift :: "int \<Rightarrow> xp_t \<Rightarrow> int \<Rightarrow> xp_t \<Rightarrow> int \<Rightarrow> int \<Rightarrow> xmem \<Rightarrow> xmem res" where
  "XP_lshift n z m x s fill M =
     (let fill = (if fill \<noteq> 0 then 255 else 0 :: u8);
          i = (if n > m then m - 1 else n - s sdiv 8 - 1);
          j = min (n - 1) (m + s sdiv 8 - 1)
      in bind_res (for_down (\<lambda>j M. xp_write M z j 0) (n - 1) (nat (n - (m + s sdiv 8))) M) (\<lambda>M.
         bind_res (for_down (\<lambda>k M. bind_res (xp_read M x k) (\<lambda>d. xp_write M z (k + (j - i)) d)) i (nat (i + 1)) M) (\<lambda>M.
         let j = j - max 0 (i + 1)
         in bind_res (for_down (\<lambda>j M. xp_write M z j fill) j (nat (j + 1)) M) (\<lambda>M.
            let s = s smod 8
            in if 0 < s
               then bind_res (XP_product n z z (2 ^ nat s) M) (\<lambda>(_, M).
                    bind_res (xp_read M z 0) (\<lambda>d. xp_write M z 0 (d OR drop_bit (8 - nat s) fill)))
               else Inr M))))"

definition XP_rshift :: "int \<Rightarrow> xp_t \<Rightarrow> int \<Rightarrow> xp_t \<Rightarrow> int \<Rightarrow> int \<Rightarrow> xmem \<Rightarrow> xmem res" where
  "XP_rshift n z m x s fill M =
     (let fill = (if fill \<noteq> 0 then 255 else 0 :: u8);
          j = max 0 (min (m - s sdiv 8) n)
      in bind_res (for_up (\<lambda>j M. bind_res (xp_read M x (j + s sdiv 8)) (\<lambda>d. xp_write M z j d)) 0 (nat j) M) (\<lambda>M.
         bind_res (for_up (\<lambda>j M. xp_write M z j fill) j (nat (n - j)) M) (\<lambda>M.
         let s = s smod 8
         in if 0 < s
            then bind_res (XP_quotient n z z (2 ^ nat s) M) (\<lambda>(_, M).
                 bind_res (xp_read M z (n - 1)) (\<lambda>d. xp_write M z (n - 1) (d OR push_bit (8 - nat s) fill)))
            else Inr M)))"

definition digitwise :: "(u8 \<Rightarrow> u8 \<Rightarrow> u8) \<Rightarrow> int \<Rightarrow> xp_t \<Rightarrow> xp_t \<Rightarrow> xp_t \<Rightarrow> xmem \<Rightarrow> xmem res" where
  "digitwise f n z x y M =
     for_up (\<lambda>i M. bind_res (xp_read M x i) (\<lambda>a. bind_res (xp_read M y i) (\<lambda>b. xp_write M z i (f a b)))) 0 (nat n) M"

definition XP_and :: "int \<Rightarrow> xp_t \<Rightarrow> xp_t \<Rightarrow> xp_t \<Rightarrow> xmem \<Rightarrow> xmem res" where
  "XP_and n z x y M = digitwise (\<lambda>a b. a AND b) n z x y M"

definition XP_or :: "int \<Rightarrow> xp_t \<Rightarrow> xp_t \<Rightarrow> xp_t \<Rightarrow> xmem \<Rightarrow> xmem res" where
  "XP_or n z x y M = digitwise (\<lambda>a b. a OR b) n z x y M"

definition XP_xor :: "int \<Rightarrow> xp_t \<Rightarrow> xp_t \<Rightarrow> xp_t \<Rightarrow> xmem \<Rightarrow> xmem res" where
  "XP_xor n z x y M = digitwise (\<lambda>a b. a XOR b) n z x y M"

definition XP_not :: "int \<Rightarrow> xp_t \<Rightarrow> xp_t \<Rightarrow> xmem \<Rightarrow> xmem res" where
  "XP_not n z x M = for_up (\<lambda>i M. bind_res (xp_read M x i) (\<lambda>a. xp_write M z i (NOT a))) 0 (nat n) M"

subsection \<open>Strings\<close>

definition xp_digits :: string where
  "xp_digits = ''0123456789ABCDEFGHIJKLMNOPQRSTUVWXYZ'' @ [CHR 0x00]"

definition xp_map :: "int list" where
  "xp_map = [0..9] @ replicate 7 36 @ [10..35] @ replicate 6 36 @ [10..35]"

definition c_isspace :: "char \<Rightarrow> bool" where
  "c_isspace c \<longleftrightarrow> of_char c = (32 :: int) \<or> 9 \<le> (of_char c :: int) \<and> (of_char c :: int) \<le> 13"

definition c_isalnum :: "char \<Rightarrow> bool" where
  "c_isalnum c \<longleftrightarrow> (let v = of_char c :: int in 48 \<le> v \<and> v \<le> 57 \<or> 65 \<le> v \<and> v \<le> 90 \<or> 97 \<le> v \<and> v \<le> 122)"

definition digit_of :: "char \<Rightarrow> int res" where
  "digit_of c =
     (let i = of_char c - 48
      in if 0 \<le> i \<and> i < 75 then Inr (xp_map ! nat i) else Inl (Throw Array_bounds))"

text \<open>\<open>*p && isalnum(*p) && map[*p-'0'] < base\<close>, on the rest of the string.\<close>

definition digit_next :: "int \<Rightarrow> string \<Rightarrow> bool res" where
  "digit_next base p =
     (case p of [] \<Rightarrow> Inr False
      | c # _ \<Rightarrow> if c_isalnum c then bind_res (digit_of c) (\<lambda>d. Inr (d < base)) else Inr False)"

fun fromstr_loop :: "int \<Rightarrow> int \<Rightarrow> xp_t \<Rightarrow> string \<Rightarrow> int \<Rightarrow> xmem \<Rightarrow> (int \<times> xmem) res" where
  "fromstr_loop base n z [] carry M = Inr (carry, M)"
| "fromstr_loop base n z (c # p) carry M =
     bind_res (digit_next base (c # p)) (\<lambda>b.
       if \<not> b then Inr (carry, M)
       else bind_res (XP_product n z z base M) (\<lambda>(carry, M).
            if carry \<noteq> 0 then Inr (carry, M)
            else bind_res (digit_of c) (\<lambda>d. bind_res (XP_sum n z z d M) (\<lambda>(_, M). fromstr_loop base n z p carry M))))"

definition XP_fromstr :: "int \<Rightarrow> xp_t \<Rightarrow> string option \<Rightarrow> int \<Rightarrow> xmem \<Rightarrow> (int \<times> xmem) res" where
  "XP_fromstr n z str base M =
     (case str of None \<Rightarrow> Inl (Errquit ''p'')
      | Some p \<Rightarrow>
          bind_res (assert_c (2 \<le> base \<and> base \<le> 36) ''base >= 2 && base <= 36'') (\<lambda>_.
            let p = dropWhile c_isspace p
            in bind_res (digit_next base p) (\<lambda>b. if b then fromstr_loop base n z p 0 M else Inr (0, M))))"

text \<open>An assignment to a zero-terminated fat string: the last character stays 0.\<close>

definition str_put :: "string \<Rightarrow> int \<Rightarrow> char \<Rightarrow> string res" where
  "str_put s i c =
     (if 0 \<le> i \<and> i < int (length s)
      then if int (length s) - i = 1 \<and> s ! nat i = CHR 0x00 \<and> c \<noteq> CHR 0x00 then Inl (Throw Array_bounds)
           else Inr (s[nat i := c])
      else Inl (Throw Array_bounds))"

definition str_get :: "string \<Rightarrow> int \<Rightarrow> char res" where
  "str_get s i = (if 0 \<le> i \<and> i < int (length s) then Inr (s ! nat i) else Inl (Throw Array_bounds))"

text \<open>\<open>for (j = 0; j < --i; j++)\<close>: exchange the ends.\<close>

fun reverse_loop :: "nat \<Rightarrow> nat \<Rightarrow> string \<Rightarrow> string res" where
  "reverse_loop j 0 s = Inr s"
| "reverse_loop j (Suc i) s =
     (if j < i
      then bind_res (str_get s (int j)) (\<lambda>c. bind_res (str_get s (int i)) (\<lambda>d.
           bind_res (str_put s (int j) d) (\<lambda>s. bind_res (str_put s (int i) c) (\<lambda>s. reverse_loop (Suc j) i s))))
      else Inr s)"

partial_function (option) tostr_loop ::
    "int \<Rightarrow> int \<Rightarrow> xp_t \<Rightarrow> int \<Rightarrow> int \<Rightarrow> string \<Rightarrow> xmem \<Rightarrow> (int \<times> string \<times> xmem) ores" where
  "tostr_loop base sz x n i str M =
     bind_ores (Some (XP_quotient n x x base M)) (\<lambda>(r, M).
     bind_ores (assert_o (i < sz) ''i < size'') (\<lambda>_.
     bind_ores (Some (bind_res (str_get xp_digits r) (\<lambda>c. str_put str i c))) (\<lambda>str.
     bind_ores (Some (XP_length n x M)) (\<lambda>n.
     bind_ores (if n > 1 then Some (Inr True) else Some (bind_res (xp_read M x 0) (\<lambda>d. Inr (d \<noteq> 0)))) (\<lambda>more.
       if more then tostr_loop base sz x n (i + 1) str M else Some (Inr (i + 1, str, M)))))))"

definition XP_tostr :: "string option \<Rightarrow> int \<Rightarrow> int \<Rightarrow> int \<Rightarrow> xp_t \<Rightarrow> xmem \<Rightarrow> (string \<times> xmem) ores" where
  "XP_tostr str sz base n x M =
     bind_ores (case str of None \<Rightarrow> Some (Inl (Errquit ''str'')) | Some s \<Rightarrow> Some (Inr s)) (\<lambda>str.
     bind_ores (assert_o (2 \<le> base \<and> base \<le> 36) ''base >= 2 && base <= 36'') (\<lambda>_.
     bind_ores (tostr_loop base sz x n 0 str M) (\<lambda>(i, str, M).
     bind_ores (assert_o (i < sz) ''i < size'') (\<lambda>_.
     bind_ores (Some (bind_res (str_put str i (CHR 0x00)) (\<lambda>str. reverse_loop 0 (nat i) str))) (\<lambda>str. Some (Inr (str, M)))))))"

section \<open>Values\<close>

text \<open>
  The number in the first \<open>n\<close> digits at a pointer, and the memory after the first \<open>n\<close> digits at a
  pointer have been set to those of a number, in two's complement when it is negative.
\<close>

definition xin :: "xmem \<Rightarrow> xp_t \<Rightarrow> nat \<Rightarrow> bool" where
  "xin M p n \<longleftrightarrow> 0 \<le> xoff p \<and> xoff p + int n \<le> int (length (M (xblk p)))"

definition xdig :: "xmem \<Rightarrow> xp_t \<Rightarrow> nat \<Rightarrow> u8" where
  "xdig M p i = M (xblk p) ! nat (xoff p + int i)"

definition xval :: "xmem \<Rightarrow> xp_t \<Rightarrow> nat \<Rightarrow> int" where
  "xval M p n = (\<Sum>i<n. uint (xdig M p i) * 256 ^ i)"

definition xset :: "xmem \<Rightarrow> xp_t \<Rightarrow> nat set \<Rightarrow> (nat \<Rightarrow> u8) \<Rightarrow> xmem" where
  "xset M z A g =
     M(xblk z := map (\<lambda>j. let i = int j - xoff z in if 0 \<le> i \<and> nat i \<in> A then g (nat i) else M (xblk z) ! j)
                   [0..<length (M (xblk z))])"

definition xstore :: "xmem \<Rightarrow> xp_t \<Rightarrow> nat \<Rightarrow> int \<Rightarrow> xmem" where
  "xstore M z n V = xset M z {..<n} (\<lambda>i. of_int (V div 256 ^ i))"

text \<open>A loop that goes up may read at \<open>x\<close> while it writes at \<open>z\<close>, when no digit is read after it was written.\<close>

definition fwd_ok :: "xp_t \<Rightarrow> xp_t \<Rightarrow> bool" where
  "fwd_ok z x \<longleftrightarrow> xblk z \<noteq> xblk x \<or> xoff z \<le> xoff x"

definition bwd_ok :: "xp_t \<Rightarrow> xp_t \<Rightarrow> bool" where
  "bwd_ok z x \<longleftrightarrow> xblk z \<noteq> xblk x \<or> xoff x \<le> xoff z"

definition xdisj :: "xp_t \<Rightarrow> nat \<Rightarrow> xp_t \<Rightarrow> nat \<Rightarrow> bool" where
  "xdisj p n q m \<longleftrightarrow> xblk p \<noteq> xblk q \<or> xoff p + int n \<le> xoff q \<or> xoff q + int m \<le> xoff p"

subsection \<open>Digits\<close>

lemma sum_digits: "(\<Sum>i<n. (V div 256 ^ i mod 256) * 256 ^ i) = V mod (256 :: int) ^ n"
proof (induction n)
  case (Suc n)
  have "V mod 256 ^ Suc n = V mod 256 ^ n + 256 ^ n * (V div 256 ^ n mod 256)"
    by (simp add: zmod_zmult2_eq mult.commute [of 256])
  then show ?case using Suc by simp
qed simp

lemma uint_of_int_u8: "uint (of_int v :: u8) = v mod 256"
  by (simp add: unsigned_of_int take_bit_eq_mod)

lemma of_int_u8_mod [simp]: "(of_int (v mod 256) :: u8) = of_int v"
  by (simp add: word_uint_eq_iff uint_of_int_u8)

lemma xval_nonneg: "0 \<le> xval M p n"
  unfolding xval_def by (intro sum_nonneg) simp

lemma xval_Suc: "xval M p (Suc n) = xval M p n + uint (xdig M p n) * 256 ^ n"
  by (simp add: xval_def)

lemma xval_0 [simp]: "xval M p 0 = 0"
  by (simp add: xval_def)

lemma uint_u8_le: "uint (d :: u8) \<le> 255"
  using uint_bounded [of d] by simp

lemma xval_less: "xval M p n < 256 ^ n"
proof (induction n)
  case (Suc n)
  have "uint (xdig M p n) * 256 ^ n \<le> 255 * 256 ^ n"
    by (intro mult_right_mono) (simp_all add: uint_u8_le)
  then have "xval M p n + uint (xdig M p n) * 256 ^ n < 256 ^ n + 255 * 256 ^ n" using Suc by linarith
  then show ?case by (simp add: xval_Suc)
qed simp

lemma div_add_mult_pow: "(a + (256 :: int) ^ i * b) div 256 ^ i = a div 256 ^ i + b"
  by (simp add: div_add1_eq)

lemma xval_div: "i < n \<Longrightarrow> xval M p n div 256 ^ i mod 256 = uint (xdig M p i)"
proof (induction n)
  case (Suc n)
  show ?case
  proof (cases "i = n")
    case True
    have "(xval M p n + uint (xdig M p n) * 256 ^ n) div 256 ^ n = uint (xdig M p n)"
      using xval_less [of M p n] xval_nonneg [of M p n] by (simp add: div_add1_eq)
    then show ?thesis using uint_u8_le [of "xdig M p n"] True by (simp add: xval_Suc)
  next
    case False
    then have i: "i < n" using Suc.prems by simp
    then obtain d where n: "n = i + Suc d" using less_iff_Suc_add by auto
    have "(xval M p n + uint (xdig M p n) * 256 ^ n) div 256 ^ i
        = xval M p n div 256 ^ i + uint (xdig M p n) * 256 ^ Suc d"
      using div_add_mult_pow [of "xval M p n" i "uint (xdig M p n) * 256 ^ Suc d"] by (simp add: n power_add mult_ac)
    then show ?thesis using Suc.IH i by (simp add: xval_Suc mod_add_eq [symmetric])
  qed
qed simp

lemma xval_cong: "(\<And>i. i < n \<Longrightarrow> xdig M p i = xdig N q i) \<Longrightarrow> xval M p n = xval N q n"
  unfolding xval_def by (intro sum.cong) auto

lemma xval_split: "xval M p (a + b) = xval M p a + 256 ^ a * xval M (xp_plus p (int a)) b"
proof (induction b)
  case (Suc b)
  have "xdig M (xp_plus p (int a)) b = xdig M p (a + b)"
    by (simp add: xdig_def xp_plus_def add.assoc)
  then show ?case using Suc by (simp add: xval_Suc algebra_simps power_add)
qed simp

subsection \<open>Accesses\<close>

lemma xp_read_in: "\<lbrakk>xin M p n; i < n\<rbrakk> \<Longrightarrow> xp_read M p (int i) = Inr (xdig M p i)"
  by (simp add: xp_read_def xin_def xdig_def)

lemma xp_write_in: "\<lbrakk>xin M p n; i < n\<rbrakk> \<Longrightarrow> xp_write M p (int i) v = Inr (xset M p {i} (\<lambda>_. v))"
proof -
  assume a: "xin M p n" "i < n"
  have "(M (xblk p))[nat (xoff p + int i) := v] = xset M p {i} (\<lambda>_. v) (xblk p)"
    using a by (intro nth_equalityI) (auto simp: xset_def xin_def Let_def nth_list_update)
  then show ?thesis using a by (auto simp: xp_write_def xin_def xset_def)
qed

lemma xset_empty [simp]: "xset M z {} g = M"
  by (simp add: xset_def map_nth)

lemma xset_insert: "xset (xset M z A g) z {i} (\<lambda>_. g i) = xset M z (insert i A) g"
  by (rule ext) (auto simp: xset_def Let_def)

lemma xset_cong: "(\<And>i. i \<in> A \<Longrightarrow> g i = h i) \<Longrightarrow> xset M z A g = xset M z A h"
  by (rule ext) (auto simp: xset_def Let_def)

lemma length_xset [simp]: "length (xset M z A g b) = length (M b)"
  by (simp add: xset_def)

lemma xin_xset [simp]: "xin (xset M z A g) p n = xin M p n"
  by (simp add: xin_def)

lemma xin_mono: "\<lbrakk>xin M p n; m \<le> n\<rbrakk> \<Longrightarrow> xin M p m"
  by (simp add: xin_def)

lemma xin_plus: "\<lbrakk>xin M p n; i + m \<le> n\<rbrakk> \<Longrightarrow> xin M (xp_plus p (int i)) m"
  by (simp add: xin_def xp_plus_def)

lemma xdig_xset:
  "xin M q (Suc j) \<Longrightarrow>
   xdig (xset M z A g) q j =
     (if xblk q = xblk z \<and> xoff z \<le> xoff q + int j \<and> nat (xoff q + int j - xoff z) \<in> A
      then g (nat (xoff q + int j - xoff z)) else xdig M q j)"
  by (auto simp: xdig_def xset_def xin_def Let_def)

lemma xdig_xset_same: "xin M z (Suc j) \<Longrightarrow> xdig (xset M z A g) z j = (if j \<in> A then g j else xdig M z j)"
  by (simp add: xdig_xset)

lemma xset_frame: "b \<noteq> xblk z \<Longrightarrow> xset M z A g b = M b"
  by (simp add: xset_def)

lemma xdig_other: "xblk p \<noteq> xblk z \<Longrightarrow> xdig (xset M z A g) p j = xdig M p j"
  by (simp add: xdig_def xset_frame)

lemma xval_other: "xblk p \<noteq> xblk z \<Longrightarrow> xval (xset M z A g) p n = xval M p n"
  by (intro xval_cong) (simp add: xdig_other)

lemma xval_xset_disj:
  assumes "xdisj z n p m" "A \<subseteq> {..<n}" "xin M p m"
  shows "xval (xset M z A g) p m = xval M p m"
proof (intro xval_cong)
  fix j assume j: "j < m"
  then have "xin M p (Suc j)" using assms(3) by (simp add: xin_def)
  then show "xdig (xset M z A g) p j = xdig M p j"
    using assms j by (fastforce simp: xdig_xset xdisj_def subset_eq)
qed

lemma xval_xstore: "xin M z n \<Longrightarrow> xval (xstore M z n V) z n = V mod 256 ^ n"
  unfolding sum_digits [symmetric] xval_def xstore_def
  by (intro sum.cong) (auto simp: xdig_xset_same xin_mono uint_of_int_u8 Suc_le_eq)

lemma xin_xstore [simp]: "xin (xstore M z k V) p n = xin M p n"
  by (simp add: xstore_def)

lemma xstore_other: "xblk p \<noteq> xblk z \<Longrightarrow> xval (xstore M z k V) p n = xval M p n"
  by (simp add: xstore_def xval_other)

lemma xstore_frame: "b \<noteq> xblk z \<Longrightarrow> xstore M z k V b = M b"
  by (simp add: xstore_def xset_frame)

lemma xval_xstore_disj: "\<lbrakk>xdisj z n p m; xin M p m\<rbrakk> \<Longrightarrow> xval (xstore M z n V) p m = xval M p m"
  unfolding xstore_def by (intro xval_xset_disj) auto

subsection \<open>Loops that carry\<close>

lemma for_up_seq: "(\<And>i. i < n \<Longrightarrow> f (a + int i) (S i) = Inr (S (Suc i))) \<Longrightarrow> for_up f a n (S 0) = Inr (S n)"
proof (induction n arbitrary: a S)
  case (Suc n)
  have "for_up f (a + 1) n (S (Suc 0)) = Inr (S (Suc n))"
    using Suc.IH [of "a + 1" "\<lambda>i. S (Suc i)"] Suc.prems [of "Suc _"] by (simp add: add.assoc)
  then show ?case using Suc.prems [of 0] by simp
qed simp

lemma for_down_seq: "(\<And>i. i < n \<Longrightarrow> f (a - int i) (S i) = Inr (S (Suc i))) \<Longrightarrow> for_down f a n (S 0) = Inr (S n)"
proof (induction n arbitrary: a S)
  case (Suc n)
  have "for_down f (a - 1) n (S (Suc 0)) = Inr (S (Suc n))"
    using Suc.IH [of "a - 1" "\<lambda>i. S (Suc i)"] Suc.prems [of "Suc _"] by (simp add: algebra_simps)
  then show ?case using Suc.prems [of 0] by simp
qed simp

text \<open>The start \<open>c\<close> and the terms \<open>f 0, ..., f (k - 1)\<close>, each at its place.\<close>

definition psum :: "(nat \<Rightarrow> int) \<Rightarrow> int \<Rightarrow> nat \<Rightarrow> int" where
  "psum f c k = c + (\<Sum>j<k. f j * 256 ^ j)"

lemma psum_0 [simp]: "psum f c 0 = c"
  by (simp add: psum_def)

lemma psum_Suc: "psum f c (Suc k) = psum f c k + f k * 256 ^ k"
  by (simp add: psum_def)

lemma psum_Suc_div: "psum f c (Suc k) div 256 ^ k = psum f c k div 256 ^ k + f k"
  using div_add_mult_pow [of "psum f c k" k "f k"] by (simp add: psum_Suc mult.commute)

lemma psum_carry: "psum f c (Suc k) div 256 ^ Suc k = (psum f c k div 256 ^ k + f k) div 256"
  unfolding psum_Suc_div [symmetric] power_Suc2 by (simp add: zdiv_zmult2_eq)

lemma psum_digit: "k < n \<Longrightarrow> (of_int (psum f c n div 256 ^ k) :: u8) = of_int (psum f c k div 256 ^ k + f k)"
proof (induction n)
  case (Suc n)
  show ?case
  proof (cases "k = n")
    case True
    then show ?thesis by (simp add: psum_Suc_div)
  next
    case False
    then have k: "k < n" using Suc.prems by simp
    then obtain d where n: "n = k + Suc d" using less_iff_Suc_add by auto
    have "psum f c (Suc n) div 256 ^ k = psum f c n div 256 ^ k + f n * 256 ^ d * 256"
      using div_add_mult_pow [of "psum f c n" k "f n * 256 ^ Suc d"] by (simp add: n psum_Suc power_add mult_ac)
    then have "(of_int (psum f c (Suc n) div 256 ^ k) :: u8) = of_int (psum f c n div 256 ^ k)"
      unfolding word_uint_eq_iff uint_of_int_u8 by simp
    then show ?thesis using Suc.IH k by simp
  qed
qed simp

lemma carry_P: "\<lbrakk>\<And>k C. \<lbrakk>k < n; P C\<rbrakk> \<Longrightarrow> P ((C + f k) div 256); P c; k \<le> n\<rbrakk> \<Longrightarrow> P (psum f c k div 256 ^ k)"
  by (induction k) (simp_all add: psum_carry del: power_Suc)

lemma carry_seg:
  assumes R: "\<And>k C. \<lbrakk>k0 \<le> k; k < k0 + l; P C\<rbrakk> \<Longrightarrow> body (a + int k) (e C, xset M z {..<k} g) =
      Inr (e ((C + f k) div 256), xset (xset M z {..<k} g) z {k} (\<lambda>_. of_int (C + f k)))"
    and P: "\<And>k C. \<lbrakk>k < n; P C\<rbrakk> \<Longrightarrow> P ((C + f k) div 256)" "P c"
    and n: "k0 + l \<le> n"
    and g: "g = (\<lambda>i. of_int (psum f c n div 256 ^ i))"
  shows "for_up body (a + int k0) l (e (psum f c k0 div 256 ^ k0), xset M z {..<k0} g) =
      Inr (e (psum f c (k0 + l) div 256 ^ (k0 + l)), xset M z {..<k0 + l} g)"
proof -
  define S where "S i = (e (psum f c (k0 + i) div 256 ^ (k0 + i)), xset M z {..<k0 + i} g)" for i
  have "for_up body (a + int k0) l (S 0) = Inr (S l)"
  proof (rule for_up_seq)
    fix i assume i: "i < l"
    let ?k = "k0 + i"
    have "of_int (psum f c ?k div 256 ^ ?k + f ?k) = g ?k"
      using i n by (simp add: g psum_digit)
    moreover have "P (psum f c ?k div 256 ^ ?k)"
      using i n by (intro carry_P [where n = n and P = P, OF P]) simp_all
    ultimately show "body (a + int k0 + int i) (S i) = Inr (S (Suc i))"
      using R [of ?k "psum f c ?k div 256 ^ ?k"] i
      by (simp add: S_def add.assoc xset_insert lessThan_Suc psum_carry del: power_Suc)
  qed
  then show ?thesis by (simp add: S_def)
qed

lemma carry_loop:
  assumes R: "\<And>k C g. \<lbrakk>k < n; P C\<rbrakk> \<Longrightarrow> body (int k) (e C, xset M z {..<k} g) =
      Inr (e ((C + f k) div 256), xset (xset M z {..<k} g) z {k} (\<lambda>_. of_int (C + f k)))"
    and P: "\<And>k C. \<lbrakk>k < n; P C\<rbrakk> \<Longrightarrow> P ((C + f k) div 256)" "P c"
  shows "for_up body 0 n (e c, M) = Inr (e (psum f c n div 256 ^ n), xstore M z n (psum f c n))"
  using carry_seg [where ?k0.0 = 0 and l = n and n = n and P = P and a = 0 and e = e and f = f, OF _ P _ refl] R
  by (simp add: xstore_def)

lemma read_fwd:
  assumes "xin M x n" "i < n" "fwd_ok z x"
  shows "xp_read (xset M z {..<i} g) x (int i) = Inr (xdig M x i)"
proof -
  have "xdig (xset M z {..<i} g) x i = xdig M x i"
    using assms by (subst xdig_xset) (auto simp: xin_def fwd_ok_def)
  then show ?thesis using assms by (simp add: xp_read_in [of _ _ n])
qed

lemma sdiv_smod_256: "0 \<le> c \<Longrightarrow> c sdiv 256 = c div 256 \<and> c smod 256 = c mod (256 :: int)"
  by (cases "c = 0") (simp_all add: signed_divide_int_def signed_modulo_int_def minus_div_mult_eq_mod)

text \<open>The sum, with the carry in and out; \<open>z\<close> may be \<open>x\<close> or \<open>y\<close>.\<close>

lemma XP_add_eq:
  assumes "xin M z n" "xin M x n" "xin M y n" "fwd_ok z x" "fwd_ok z y" "0 \<le> c"
  shows "XP_add (int n) z x y c M =
    (let V = xval M x n + xval M y n + c in Inr (V div 256 ^ n, xstore M z n V))"
proof -
  define f where "f i = uint (xdig M x i) + uint (xdig M y i)" for i
  have V: "psum f c n = xval M x n + xval M y n + c"
    by (simp add: psum_def f_def xval_def sum.distrib algebra_simps)
  have "XP_add (int n) z x y c M = Inr (psum f c n div 256 ^ n, xstore M z n (psum f c n))"
    unfolding XP_add_def nat_int
  proof (rule carry_loop [where e = "\<lambda>c. c" and P = "\<lambda>c. 0 \<le> c"], goal_cases)
    case (1 k C g)
    then show ?case
      using assms by (simp add: read_fwd [of M _ n] xp_write_in [of _ _ n] sdiv_smod_256 Let_def f_def)
  qed (simp_all add: assms f_def pos_imp_zdiv_nonneg_iff)
  then show ?thesis by (simp add: V Let_def)
qed

lemma XP_sum_eq:
  assumes "xin M z n" "xin M x n" "fwd_ok z x" "0 \<le> y"
  shows "XP_sum (int n) z x y M = (let V = xval M x n + y in Inr (V div 256 ^ n, xstore M z n V))"
proof -
  define f where "f i = uint (xdig M x i)" for i
  have V: "psum f y n = xval M x n + y"
    by (simp add: psum_def f_def xval_def algebra_simps)
  have "XP_sum (int n) z x y M = Inr (psum f y n div 256 ^ n, xstore M z n (psum f y n))"
    unfolding XP_sum_def nat_int
  proof (rule carry_loop [where e = "\<lambda>c. c" and P = "\<lambda>c. 0 \<le> c"], goal_cases)
    case (1 k C g)
    then show ?case
      using assms by (simp add: read_fwd [of M _ n] xp_write_in [of _ _ n] sdiv_smod_256 Let_def f_def)
  qed (simp_all add: assms f_def pos_imp_zdiv_nonneg_iff)
  then show ?thesis by (simp add: V Let_def)
qed

lemma div256_bounds: "\<lbrakk>a * 256 \<le> v; v < (b + 1) * 256\<rbrakk> \<Longrightarrow> a \<le> v div 256 \<and> v div 256 \<le> (b :: int)"
  using zdiv_mono1 [of "a * 256" v 256] zdiv_mono1 [of v "b * 256 + 255" 256] by simp

lemma XP_sub_eq:
  assumes "xin M z n" "xin M x n" "xin M y n" "fwd_ok z x" "fwd_ok z y" "0 \<le> b" "b \<le> 1"
  shows "XP_sub (int n) z x y b M =
    (let V = xval M x n - xval M y n - b in Inr (- (V div 256 ^ n), xstore M z n V))"
proof -
  define f where "f i = uint (xdig M x i) - uint (xdig M y i)" for i
  have V: "psum f (- b) n = xval M x n - xval M y n - b"
    by (simp add: psum_def f_def xval_def sum_subtractf algebra_simps)
  have f: "- 255 \<le> f i" "f i \<le> 255" for i
    using uint_u8_le [of "xdig M x i"] uint_u8_le [of "xdig M y i"] uint_ge_0 [of "xdig M x i"] uint_ge_0 [of "xdig M y i"]
    unfolding f_def by linarith+
  have "XP_sub (int n) z x y (- (- b)) M = Inr (- (psum f (- b) n div 256 ^ n), xstore M z n (psum f (- b) n))"
    unfolding XP_sub_def nat_int
  proof (rule carry_loop [where e = "\<lambda>c. - c" and P = "\<lambda>c. - 1 \<le> c \<and> c \<le> 0"], goal_cases)
    case (1 k C g)
    have d: "uint (xdig M x k) + 256 - - C - uint (xdig M y k) = C + f k + 256"
      by (simp add: f_def)
    have "0 \<le> C + f k + 256" using f [of k] 1 by linarith
    then show ?case
      using 1 assms
      by (simp add: read_fwd [of M _ n] xp_write_in [of _ _ n] d sdiv_smod_256 Let_def del: diff_minus_eq_add)
  next
    case (2 k C)
    then show ?case using f [of k] by (intro div256_bounds) auto
  qed (simp_all add: assms)
  then show ?thesis by (simp add: V Let_def)
qed

lemma XP_diff_eq:
  assumes "xin M z n" "xin M x n" "fwd_ok z x" "0 \<le> y" "y \<le> 256"
  shows "XP_diff (int n) z x y M = (let V = xval M x n - y in Inr (- (V div 256 ^ n), xstore M z n V))"
proof -
  define f where "f i = uint (xdig M x i)" for i
  have V: "psum f (- y) n = xval M x n - y"
    by (simp add: psum_def f_def xval_def)
  have "XP_diff (int n) z x (- (- y)) M = Inr (- (psum f (- y) n div 256 ^ n), xstore M z n (psum f (- y) n))"
    unfolding XP_diff_def nat_int
  proof (rule carry_loop [where e = "\<lambda>c. - c" and P = "\<lambda>c. - 256 \<le> c \<and> c \<le> 0"], goal_cases)
    case (1 k C g)
    have d: "uint (xdig M x k) + 256 - - C = C + f k + 256"
      by (simp add: f_def)
    have "0 \<le> C + f k + 256" using 1 uint_ge_0 [of "xdig M x k"] unfolding f_def by linarith
    then show ?case
      using 1 assms
      by (simp add: read_fwd [of M _ n] xp_write_in [of _ _ n] d sdiv_smod_256 Let_def del: diff_minus_eq_add)
  next
    case (2 k C)
    have "0 \<le> f k" "f k \<le> 255" using uint_u8_le [of "xdig M x k"] by (simp_all add: f_def)
    then show ?case using 2 by (intro div256_bounds) auto
  qed (simp_all add: assms)
  then show ?thesis by (simp add: V Let_def)
qed

lemma u32_digit:
  assumes "0 \<le> v" "v < 2 ^ 32"
  shows "(of_int v :: u32) div 256 = of_int (v div 256)" "(ucast ((of_int v :: u32) mod 256) :: u8) = of_int v"
proof -
  have v: "uint (of_int v :: u32) = v" using assms by (simp add: unsigned_of_int take_bit_int_eq_self)
  show "(of_int v :: u32) div 256 = of_int (v div 256)"
    using assms div256_bounds [of 0 v "2 ^ 32 - 1"]
    by (simp add: word_uint_eq_iff uint_div_distrib v unsigned_of_int take_bit_int_eq_self)
  show "(ucast ((of_int v :: u32) mod 256) :: u8) = of_int v"
    using assms by (simp add: word_uint_eq_iff unsigned_ucast_eq uint_mod_distrib v uint_of_int_u8 take_bit_eq_mod)
qed

lemma XP_product_eq:
  assumes "xin M z n" "xin M x n" "fwd_ok z x" "0 \<le> y" "y < 2 ^ 23"
  shows "XP_product (int n) z x y M = (let V = xval M x n * y in Inr (V div 256 ^ n, xstore M z n V))"
proof -
  define f where "f i = uint (xdig M x i) * y" for i
  have V: "psum f 0 n = xval M x n * y"
    by (simp add: psum_def f_def xval_def sum_distrib_right sum_distrib_left mult_ac)
  have f: "0 \<le> f i" "f i \<le> 255 * y" for i
    using assms(4) by (auto simp: f_def uint_u8_le intro: mult_right_mono)
  have P: "0 \<le> (C + f k) div 256 \<and> (C + f k) div 256 \<le> y" if "0 \<le> C \<and> C \<le> y" for k C
    using that f [of k] by (intro div256_bounds) auto
  have le: "0 \<le> psum f 0 n div 256 ^ n \<and> psum f 0 n div 256 ^ n \<le> y"
    using P assms(4) by (intro carry_P [where n = n and P = "\<lambda>c. 0 \<le> c \<and> c \<le> y"]) auto
  have "for_up (\<lambda>i (carry, M). bind_res (xp_read M x i) (\<lambda>a.
          let carry = carry + of_int (uint a * y) :: u32
          in bind_res (xp_write M z i (ucast (carry mod 256))) (\<lambda>M. Inr (carry div 256, M)))) 0 n (of_int 0, M)
      = Inr (of_int (psum f 0 n div 256 ^ n), xstore M z n (psum f 0 n))"
  proof (rule carry_loop [where P = "\<lambda>c. 0 \<le> c \<and> c \<le> y"], goal_cases)
    case (1 k C g)
    have "0 \<le> C + f k" "C + f k < 2 ^ 32" using f [of k] 1 assms(5) by simp_all
    from u32_digit [OF this] show ?case
      using 1 assms by (simp add: read_fwd [of M _ n] xp_write_in [of _ _ n] Let_def f_def)
  qed (use P assms(4) in simp_all)
  moreover have "sint (of_int (psum f 0 n div 256 ^ n) :: u32) = psum f 0 n div 256 ^ n"
    using le assms(5) by (simp add: signed_of_int signed_take_bit_int_eq_self)
  ultimately show ?thesis by (simp add: XP_product_def V Let_def)
qed

lemma sint_of_int_small: "\<lbrakk>0 \<le> v; v < 2 ^ 23\<rbrakk> \<Longrightarrow> sint (of_int v :: u32) = v"
  by (simp add: signed_of_int signed_take_bit_int_eq_self)

lemma xset_put: "g i = w \<Longrightarrow> xset (xset M z A g) z {i} (\<lambda>_. w) = xset M z (insert i A) g"
  using xset_insert by metis

text \<open>
  The negation adds the carry to \<open>- x - 1\<close> where the source adds it to the complement as a byte, so
  the carry out of a digit is lost: \<open>1\<close> reaches the first digit only.
\<close>

primrec neg_carry :: "(nat \<Rightarrow> u8) \<Rightarrow> int \<Rightarrow> nat \<Rightarrow> int" where
  "neg_carry x c 0 = c"
| "neg_carry x c (Suc i) = (neg_carry x c i + (- uint (x i) - 1)) sdiv 256"

lemma of_int_u8_smod [simp]: "(of_int (v smod 256) :: u8) = of_int v"
proof -
  have "v smod 256 = v + - (v sdiv 256) * 256" using sdiv_mult_smod_eq [of v 256] by simp
  then show ?thesis unfolding word_uint_eq_iff uint_of_int_u8 by (simp only: mod_mult_self1)
qed

lemma XP_neg_eq:
  assumes "xin M z n" "xin M x n" "fwd_ok z x"
  shows "XP_neg (int n) z x c M =
    Inr (neg_carry (xdig M x) c n, xset M z {..<n} (\<lambda>i. of_int (neg_carry (xdig M x) c i + (- uint (xdig M x i) - 1))))"
proof -
  define g :: "nat \<Rightarrow> u8" where "g i = of_int (neg_carry (xdig M x) c i + (- uint (xdig M x i) - 1))" for i
  define S where "S i = (neg_carry (xdig M x) c i, xset M z {..<i} g)" for i
  have "for_up (\<lambda>i (carry, M).
       bind_res (xp_read M x i) (\<lambda>a.
       let carry = carry + (- uint a - 1)
       in bind_res (xp_write M z i (of_int (carry smod 256))) (\<lambda>M. Inr (carry sdiv 256, M)))) 0 n (S 0) = Inr (S n)"
  proof (rule for_up_seq, goal_cases)
    case (1 i)
    then show ?case using assms
      by (simp add: S_def read_fwd [of M _ n] xp_write_in [of _ _ n] Let_def lessThan_Suc xset_put g_def del: of_int_add of_int_diff)
  qed
  then show ?thesis by (simp add: XP_neg_def S_def g_def [abs_def])
qed

lemma xval_div_step: "i < n \<Longrightarrow> xval M p n div 256 ^ i = xval M p n div 256 ^ Suc i * 256 + uint (xdig M p i)"
  using xval_div [of i n M p] div_mult_mod_eq [of "xval M p n div 256 ^ i" 256]
  by (simp add: zdiv_zmult2_eq [symmetric] mult.commute [of 256])

lemma read_bwd:
  assumes "xin M x n" "i < n" "bwd_ok z x"
  shows "xp_read (xset M z {Suc i..<n} g) x (int i) = Inr (xdig M x i)"
proof -
  have "xdig (xset M z {Suc i..<n} g) x i = xdig M x i"
    using assms by (subst xdig_xset) (auto simp: xin_def bwd_ok_def)
  then show ?thesis using assms by (simp add: xp_read_in [of _ _ n])
qed

lemma u32_quot:
  assumes "0 \<le> v" "v < 2 ^ 32" "0 < y" "y < 2 ^ 32"
  shows "(ucast ((of_int v :: u32) div of_int y) :: u8) = of_int (v div y)" "(of_int v :: u32) mod of_int y = of_int (v mod y)"
proof -
  have v: "uint (of_int v :: u32) = v" "uint (of_int y :: u32) = y"
    using assms by (simp_all add: unsigned_of_int take_bit_int_eq_self)
  show "(ucast ((of_int v :: u32) div of_int y) :: u8) = of_int (v div y)"
    by (simp add: word_uint_eq_iff unsigned_ucast_eq uint_div_distrib v uint_of_int_u8 take_bit_eq_mod)
  have "v mod y < 2 ^ 32" using pos_mod_bound [OF assms(3), of v] assms(4) by linarith
  then show "(of_int v :: u32) mod of_int y = of_int (v mod y)"
    using assms(3) by (simp add: word_uint_eq_iff uint_mod_distrib v) (simp add: unsigned_of_int take_bit_int_eq_self)
qed

lemma XP_quotient_eq:
  assumes z: "xin M z n" "xin M x n" "bwd_ok z x" and y: "0 < y" "y \<le> 2 ^ 23"
  shows "XP_quotient (int n) z x y M = Inr (xval M x n mod y, xstore M z n (xval M x n div y))"
proof -
  let ?X = "xval M x n"
  define g :: "nat \<Rightarrow> u8" where "g i = of_int (?X div y div 256 ^ i)" for i
  define S :: "nat \<Rightarrow> u32 \<times> xmem" where "S k = (of_int (?X div 256 ^ (n - k) mod y), xset M z {n - k..<n} g)" for k
  have y0: "(of_int y :: u32) \<noteq> 0"
    using y by (simp add: word_uint_eq_iff unsigned_of_int take_bit_int_eq_self)
  have "for_down (\<lambda>i (carry, M). bind_res (xp_read M x i) (\<lambda>a.
          let carry = carry * 256 + ucast a :: u32
          in bind_res (assert_c ((of_int y :: u32) \<noteq> 0) ''division by zero'') (\<lambda>_.
             bind_res (xp_write M z i (ucast (carry div of_int y))) (\<lambda>M. Inr (carry mod of_int y, M))))) (int n - 1) n (S 0)
      = Inr (S n)"
  proof (rule for_down_seq)
    fix k assume k: "k < n"
    define i where "i = n - Suc k"
    have i: "i < n" "n - k = Suc i" "int n - 1 - int k = int i" "n - Suc k = i" using k by (auto simp: i_def)
    define W where "W = ?X div 256 ^ Suc i"
    define v where "v = W mod y * 256 + uint (xdig M x i)"
    have X: "?X div 256 ^ i = W * 256 + uint (xdig M x i)" using xval_div_step [OF i(1)] by (simp add: W_def)
    have "(W div y * y + W mod y) * 256 = W mod y * 256 + W div y * 256 * y"
      by (simp only: algebra_simps)
    then have W: "W * 256 + uint (xdig M x i) = v + W div y * 256 * y" by (simp add: v_def)
    have m: "0 \<le> W mod y" "W mod y < y" using y by simp_all
    have v: "0 \<le> v" using m by (simp add: v_def)
    have "W mod y < 8388608" using m(2) y(2) by simp
    then have "v < 4294967296" using uint_u8_le [of "xdig M x i"] unfolding v_def by linarith
    then have v': "v < 2 ^ 32" by simp
    have "?X div y div 256 ^ i = ?X div 256 ^ i div y"
      using y by (simp add: zdiv_zmult2_eq [symmetric] mult.commute)
    also have "\<dots> = v div y + W div y * 256"
      using y unfolding X W by simp
    finally have "?X div y div 256 ^ i = v div y + W div y * 256" .
    then have g: "g i = of_int (v div y)" unfolding g_def word_uint_eq_iff uint_of_int_u8 by simp
    have e: "(of_int (W mod y) :: u32) * 256 + ucast (xdig M x i) = of_int v" by (simp add: v_def)
    have r: "?X div 256 ^ i mod y = v mod y" unfolding X W by simp
    have ins: "{i..<n} = insert i {Suc i..<n}" using i by auto
    show "(case S k of (carry, M) \<Rightarrow> bind_res (xp_read M x (int n - 1 - int k)) (\<lambda>a.
          let carry = carry * 256 + ucast a :: u32
          in bind_res (assert_c ((of_int y :: u32) \<noteq> 0) ''division by zero'') (\<lambda>_.
             bind_res (xp_write M z (int n - 1 - int k) (ucast (carry div of_int y))) (\<lambda>M. Inr (carry mod of_int y, M))))) = Inr (S (Suc k))"
      using z y0 u32_quot [OF v v' y(1)] y(2)
      by (simp add: S_def i read_bwd [of M _ n] xp_write_in [of _ _ n] Let_def ins xset_put g r W_def [symmetric] e assert_c_def del: power_Suc)
  qed
  then have "XP_quotient (int n) z x y M = Inr (sint (of_int (?X mod y) :: u32), xset M z {0..<n} g)"
    using xval_less [of M x n] xval_nonneg [of M x n] by (simp add: XP_quotient_def S_def)
  moreover have "?X mod y < 2 ^ 23" using pos_mod_bound [OF y(1), of ?X] y(2) by simp
  then have "sint (of_int (?X mod y) :: u32) = ?X mod y"
    using y(1) by (intro sint_of_int_small) simp_all
  ultimately show ?thesis by (simp add: xstore_def g_def [abs_def] lessThan_atLeast0)
qed

subsection \<open>Multiplication\<close>

lemma xp_read_plus: "xp_read M z (i + j) = xp_read M (xp_plus z i) j"
  by (simp add: xp_read_def xp_plus_def add.assoc Let_def)

lemma xp_write_plus: "xp_write M z (i + j) v = xp_write M (xp_plus z i) j v"
  by (simp add: xp_write_def xp_plus_def add.assoc Let_def)

lemma read_disj:
  assumes "xdisj z n x m" "A \<subseteq> {..<n}" "xin M x m" "i < m"
  shows "xp_read (xset M z A g) x (int i) = Inr (xdig M x i)"
proof -
  have "xin M x (Suc i)" using assms(3,4) by (simp add: xin_def)
  then have "xdig (xset M z A g) x i = xdig M x i"
    using assms by (fastforce simp: xdig_xset xdisj_def subset_eq)
  then show ?thesis using assms by (simp add: xp_read_in [of _ _ m])
qed

lemma xdisj_plus: "\<lbrakk>xdisj z n x m; i + k \<le> n\<rbrakk> \<Longrightarrow> xdisj (xp_plus z (int i)) k x m"
  by (auto simp: xdisj_def xp_plus_def)

lemma read_self:
  assumes "xin M z n" "i < n"
  shows "xp_read (xset M z {..<i} g) z (int i) = Inr (xdig M z i)"
  using assms by (intro read_fwd [of M z n]) (simp_all add: fwd_ok_def)

lemma mul_digit_step:
  assumes "xin M (xp_plus z i) n" "k < n" "0 \<le> C" "C \<le> 255" "0 \<le> t" "t \<le> 255 * 255"
    and "tm (xset M (xp_plus z i) {..<k} g) (int k) = Inr t"
    and "f = t + uint (xdig M (xp_plus z i) k)"
  shows "mul_digit z tm i (int k) (of_int C, xset M (xp_plus z i) {..<k} g) =
      Inr (of_int ((C + f) div 256), xset (xset M (xp_plus z i) {..<k} g) (xp_plus z i) {k} (\<lambda>_. of_int (C + f)))"
proof -
  have "0 \<le> C + f" "C + f < 2 ^ 32" using assms uint_u8_le [of "xdig M (xp_plus z i) k"] by auto
  from u32_digit [OF this] show ?thesis
    using assms
    by (simp add: mul_digit_def xp_read_plus xp_write_plus read_self [of M _ n] xp_write_in [of _ _ n] Let_def)
qed

lemma sum_if_less: "(\<Sum>j<m + (d :: nat). (if j < m then h j else 0) * p j) = (\<Sum>j<m. h j * p j :: int)"
  by (induction d) simp_all

lemma mul_row:
  assumes z: "xin M z (n + m)" "xin M x n" "xin M y m" and d: "xdisj z (n + m) x n" "xdisj z (n + m) y m" and i: "i < n"
  defines "V \<equiv> xval M (xp_plus z (int i)) (n + m - i) + uint (xdig M x i) * xval M y m"
  shows "bind_res (for_up (mul_digit z (\<lambda>M j. bind_res (xp_read M x (int i)) (\<lambda>a. bind_res (xp_read M y j) (\<lambda>b. Inr (uint a * uint b)))) (int i))
             0 m (0, M)) (for_up (mul_digit z (\<lambda>M j. Inr 0) (int i)) (int m) (n - i))
       = Inr (of_int (V div 256 ^ (n + m - i)), xstore M (xp_plus z (int i)) (n + m - i) V)"
proof -
  define N where "N = n + m - i"
  have N: "N = m + (n - i)" "i + N = n + m" using i by (auto simp: N_def)
  let ?p = "xp_plus z (int i)" and ?x = "uint (xdig M x i)"
  define f where "f j = (if j < m then ?x * uint (xdig M y j) else 0) + uint (xdig M ?p j)" for j
  define g :: "nat \<Rightarrow> u8" where "g j = of_int (psum f 0 N div 256 ^ j)" for j
  have zp: "xin M ?p N" using z(1) N by (intro xin_plus [of M z "n + m"]) auto
  have dp: "xdisj ?p N x n" "xdisj ?p N y m" using d N by (auto intro: xdisj_plus)
  have t: "0 \<le> (if j < m then ?x * uint (xdig M y j) else 0)" "(if j < m then ?x * uint (xdig M y j) else 0) \<le> 255 * 255" for j
    using mult_mono [OF uint_u8_le [of "xdig M x i"] uint_u8_le [of "xdig M y j"]] by auto
  have P: "0 \<le> (C + f j) div 256 \<and> (C + f j) div 256 \<le> 255" if "0 \<le> C \<and> C \<le> 255" for j C
    using that t [of j] uint_u8_le [of "xdig M ?p j"] unfolding f_def by (intro div256_bounds) auto
  have V: "psum f 0 N = V"
    unfolding psum_def f_def V_def N_def [symmetric] xval_def N(1) distrib_right sum.distrib sum_if_less
    by (simp add: sum_distrib_left mult.assoc)
  let ?S = "\<lambda>k. (of_int (psum f 0 k div 256 ^ k) :: u32, xset M ?p {..<k} g)"
  have "for_up (mul_digit z (\<lambda>M j. bind_res (xp_read M x (int i)) (\<lambda>a. bind_res (xp_read M y j) (\<lambda>b. Inr (uint a * uint b)))) (int i))
      (0 + int 0) m (?S 0) = Inr (?S (0 + m))"
  proof (rule carry_seg [where P = "\<lambda>c. 0 \<le> c \<and> c \<le> 255" and n = N and e = of_int], goal_cases)
    case (1 k C)
    then have "k < N" by (simp add: N(1))
    moreover have "xp_read (xset M ?p {..<k} g) x (int i) = Inr (xdig M x i)" "xp_read (xset M ?p {..<k} g) y (int k) = Inr (xdig M y k)"
      using 1 dp z i \<open>k < N\<close> by (auto intro!: read_disj)
    ultimately show ?case using 1 zp t [of k] unfolding add_0_left
      by (intro mul_digit_step [where n = N and t = "?x * uint (xdig M y k)"]) (auto simp: f_def)
  qed (use P N in \<open>auto simp: g_def\<close>)
  moreover have "for_up (mul_digit z (\<lambda>M j. Inr 0) (int i)) (0 + int m) (n - i) (?S m) = Inr (?S (m + (n - i)))"
  proof (rule carry_seg [where P = "\<lambda>c. 0 \<le> c \<and> c \<le> 255" and n = N and e = of_int], goal_cases)
    case (1 k C)
    then show ?case using zp unfolding add_0_left
      by (intro mul_digit_step [where n = N and t = 0]) (auto simp: f_def N(1))
  qed (use P N in \<open>auto simp: g_def\<close>)
  ultimately show ?thesis
    unfolding N_def [symmetric] by (simp add: V xstore_def g_def [abs_def] N(1) [symmetric])
qed

lemma xstore_self: "xin M z n \<Longrightarrow> xstore M z n (xval M z n) = M"
proof (rule ext)
  fix b assume z: "xin M z n"
  have "of_int (xval M z n div 256 ^ i) = xdig M z i" if "i < n" for i
    using xval_div [OF that, of M z] unfolding word_uint_eq_iff uint_of_int_u8 .
  then show "xstore M z n (xval M z n) b = M b"
    by (auto simp: xstore_def xset_def Let_def xdig_def intro!: nth_equalityI)
qed

lemma pow_split: "k \<le> N \<Longrightarrow> (v :: int) div 256 ^ k = v mod 256 ^ N div 256 ^ k + v div 256 ^ N * 256 ^ (N - k)"
proof -
  assume "k \<le> N"
  then have "256 ^ k * (v div 256 ^ N * 256 ^ (N - k)) = v div 256 ^ N * 256 ^ N"
    by (simp add: mult.left_commute [of "256 ^ k"] power_add [symmetric])
  then have "v mod 256 ^ N + 256 ^ k * (v div 256 ^ N * 256 ^ (N - k)) = v"
    by (simp only: mod_div_mult_eq)
  then show ?thesis using div_add_mult_pow [of "v mod 256 ^ N" k "v div 256 ^ N * 256 ^ (N - k)"] by simp
qed

lemma digit_add_mult: "j < d \<Longrightarrow> (of_int ((a + b * 256 ^ d) div 256 ^ j) :: u8) = of_int (a div 256 ^ j)"
proof -
  assume "j < d"
  then obtain k where d: "d = j + Suc k" using less_iff_Suc_add by auto
  have "(a + b * 256 ^ d) div 256 ^ j = a div 256 ^ j + b * 256 ^ k * 256"
    using div_add_mult_pow [of a j "b * 256 ^ Suc k"] by (simp add: d power_add mult_ac)
  then show ?thesis unfolding word_uint_eq_iff uint_of_int_u8 by simp
qed

text \<open>A store at a part of the digits of a number, on top of the number's store.\<close>

lemma xstore_part:
  assumes z: "xin M z N" and k: "k \<le> N"
    and lo: "\<And>i. i < k \<Longrightarrow> (of_int (V' div 256 ^ i) :: u8) = of_int (V div 256 ^ i)"
    and hi: "\<And>j. j < N - k \<Longrightarrow> (of_int (V' div 256 ^ (k + j)) :: u8) = of_int (W div 256 ^ j)"
  shows "xstore (xstore M z N V) (xp_plus z (int k)) (N - k) W = xstore M z N V'"
proof (rule ext)
  fix b
  show "xstore (xstore M z N V) (xp_plus z (int k)) (N - k) W b = xstore M z N V' b"
  proof (cases "b = xblk z")
    case True
    show ?thesis
    proof (rule nth_equalityI, goal_cases)
      case (2 j)
      then have j: "j < length (M (xblk z))" using True by (simp add: xstore_def)
      define i where "i = int j - xoff z"
      consider "i < 0" | "0 \<le> i" "nat i < k" | "int k \<le> i" "nat i < N" | "int N \<le> i" using k by linarith
      then show ?case
      proof cases
        case 3
        then have "k + nat (i - int k) = nat i" "nat (i - int k) < N - k" by linarith+
        then show ?thesis using hi [of "nat (i - int k)"] 3 j True k
          by (simp add: xstore_def xset_def Let_def i_def xp_plus_def algebra_simps)
      qed (use lo [of "nat i"] j True k in \<open>auto simp: xstore_def xset_def Let_def i_def xp_plus_def\<close>)
    qed (simp add: xstore_def)
  qed (simp add: xstore_frame xp_plus_def)
qed

lemma mul_row_store:
  fixes V t :: int
  assumes "xin M z N" "k < N"
  defines "W \<equiv> V mod 256 ^ N div 256 ^ k + t"
  shows "xstore (xstore M z N V) (xp_plus z (int k)) (N - k) W = xstore M z N (V + t * 256 ^ k)"
    and "(V + t * 256 ^ k) div 256 ^ N = V div 256 ^ N + W div 256 ^ (N - k)"
proof -
  have V: "(V + t * 256 ^ k) div 256 ^ k = W + V div 256 ^ N * 256 ^ (N - k)"
    using div_add_mult_pow [of V k t] pow_split [of k N V] assms(2) by (simp add: W_def mult.commute)
  show "xstore (xstore M z N V) (xp_plus z (int k)) (N - k) W = xstore M z N (V + t * 256 ^ k)"
  proof (rule xstore_part, goal_cases)
    case (4 j)
    have "(V + t * 256 ^ k) div 256 ^ (k + j) = (W + V div 256 ^ N * 256 ^ (N - k)) div 256 ^ j"
      unfolding V [symmetric] power_add by (simp add: zdiv_zmult2_eq)
    then show ?case using 4 by (simp add: digit_add_mult)
  qed (use assms in \<open>simp_all add: digit_add_mult\<close>)
  have "(V + t * 256 ^ k) div 256 ^ N = (V + t * 256 ^ k) div 256 ^ k div 256 ^ (N - k)"
    using assms(2) zdiv_zmult2_eq [of "256 ^ (N - k)" "V + t * 256 ^ k" "256 ^ k"] by (simp only: power_add [symmetric]) simp
  then show "(V + t * 256 ^ k) div 256 ^ N = V div 256 ^ N + W div 256 ^ (N - k)"
    unfolding V by simp
qed

lemma or_bit_u32: "\<lbrakk>0 \<le> a; 0 \<le> b; a + b \<le> 1\<rbrakk> \<Longrightarrow> (of_int a :: u32) OR of_int b = of_int (a + b)"
proof -
  assume "0 \<le> a" "0 \<le> b" "a + b \<le> 1"
  then have "a = 0 \<or> b = 0" by linarith
  then show ?thesis by auto
qed

lemma XP_mul_eq:
  assumes z: "xin M z (n + m)" "xin M x n" "xin M y m" and d: "xdisj z (n + m) x n" "xdisj z (n + m) y m"
  shows "XP_mul z (int n) x (int m) y M =
    (let V = xval M z (n + m) + xval M x n * xval M y m in Inr (of_int (V div 256 ^ (n + m)), xstore M z (n + m) V))"
proof -
  define N where "N = n + m"
  define V where "V k = xval M z N + xval M x k * xval M y m" for k
  define S where "S k = (of_int (V k div 256 ^ N) :: u32, xstore M z N (V k))" for k
  let ?B = "256 ^ N :: int"
  have le: "0 \<le> V k" "V k < 2 * ?B" if "k \<le> n" for k
  proof -
    have "xval M x k * xval M y m \<le> 256 ^ n * 256 ^ m"
      using less_le_trans [OF xval_less [of M x k] power_increasing [OF that, of "256 :: int"]] xval_less [of M y m]
      by (intro mult_mono) (auto simp: xval_nonneg)
    then show "0 \<le> V k" "V k < 2 * ?B"
      using xval_less [of M z N] by (auto simp: V_def N_def xval_nonneg power_add)
  qed
  have S0: "S 0 = (0, M)"
    using z xval_less [of M z N] by (simp add: S_def V_def N_def xstore_self xval_nonneg)
  have "XP_mul z (int n) x (int m) y M = Inr (S n)"
    unfolding XP_mul_def nat_int S0 [symmetric]
  proof (rule for_up_seq, goal_cases)
    case (1 k)
    define W where "W = V k mod ?B div 256 ^ k + uint (xdig M x k) * xval M y m"
    have k: "k < N" "nat (int n + int m - int k - max 0 (int m)) = n - k" using 1 by (auto simp: N_def)
    have st: "xin (xstore M z N (V k)) z N" "xin (xstore M z N (V k)) x n" "xin (xstore M z N (V k)) y m"
      using z by (simp_all add: N_def)
    have X: "xval (xstore M z N (V k)) y m = xval M y m" "xdig (xstore M z N (V k)) x k = xdig M x k"
      using d z 1 xp_read_in [of "xstore M z N (V k)" x n k] read_disj [of z N x n "{..<N}" M k] 
      by (auto simp: N_def xval_xset_disj xstore_def)
    have "xval (xstore M z N (V k)) z (k + (N - k)) = V k mod ?B" using z k by (simp add: N_def xval_xstore)
    then have "xval (xstore M z N (V k)) (xp_plus z (int k)) (N - k) = V k mod ?B div 256 ^ k"
      using xval_less [of "xstore M z N (V k)" z k] xval_nonneg [of "xstore M z N (V k)" z k]
      unfolding xval_split by (metis add_0 div_add_mult_pow div_pos_pos_trivial)
    then have row: "bind_res (for_up (mul_digit z (\<lambda>M j. bind_res (xp_read M x (int k)) (\<lambda>a. bind_res (xp_read M y j) (\<lambda>b. Inr (uint a * uint b)))) (int k))
             0 m (0, xstore M z N (V k))) (for_up (mul_digit z (\<lambda>M j. Inr 0) (int k)) (int m) (n - k))
       = Inr (of_int (W div 256 ^ (N - k)), xstore (xstore M z N (V k)) (xp_plus z (int k)) (N - k) W)"
      using mul_row [of "xstore M z N (V k)" z n m x y k] st d 1 by (simp add: N_def [symmetric] X W_def)
    have VS: "V (Suc k) = V k + uint (xdig M x k) * xval M y m * 256 ^ k"
      by (simp add: V_def xval_Suc algebra_simps)
    have VS': "xstore (xstore M z N (V k)) (xp_plus z (int k)) (N - k) W = xstore M z N (V (Suc k))"
      "V (Suc k) div ?B = V k div ?B + W div 256 ^ (N - k)"
      using mul_row_store [of M z N k "V k" "uint (xdig M x k) * xval M y m"] z k by (simp_all add: VS W_def N_def)
    have "0 \<le> V (Suc k) mod ?B" "V (Suc k) < 2 * ?B" using le(2) [of "Suc k"] 1 by simp_all
    then have "V (Suc k) div ?B * ?B < 2 * ?B" unfolding minus_mod_eq_div_mult [symmetric] by linarith
    then have "V (Suc k) div ?B \<le> 1" by simp
    then have "(of_int (V k div ?B) :: u32) OR of_int (W div 256 ^ (N - k)) = of_int (V (Suc k) div ?B)"
      using le(1) [of k] 1 xval_nonneg [of M y m] unfolding VS'(2)
      by (intro or_bit_u32) (auto simp: pos_imp_zdiv_nonneg_iff W_def)
    then show ?case using row [unfolded bind_res_eq_Inr] k by (auto simp: S_def VS'(1))
  qed
  then show ?thesis by (simp add: S_def V_def N_def Let_def)
qed

subsection \<open>Length, copies and comparison\<close>

lemma for_up_fill:
  "xin M s (a + k) \<Longrightarrow> for_up (\<lambda>i M. xp_write M s i v) (int a) k M = Inr (xset M s {a..<a + k} (\<lambda>_. v))"
proof -
  assume s: "xin M s (a + k)"
  have "for_up (\<lambda>i M. xp_write M s i v) (int a) k (xset M s {a..<a + 0} (\<lambda>_. v)) = Inr (xset M s {a..<a + k} (\<lambda>_. v))"
  proof (rule for_up_seq, goal_cases)
    case (1 i)
    have "xp_write (xset M s {a..<a + i} (\<lambda>_. v)) s (int (a + i)) v = Inr (xset (xset M s {a..<a + i} (\<lambda>_. v)) s {a + i} (\<lambda>_. v))"
      using s 1 by (intro xp_write_in [of _ _ "a + k"]) simp_all
    moreover have "insert (a + i) {a..<a + i} = {a..<a + Suc i}" by auto
    ultimately show ?case using xset_insert [of M s "{a..<a + i}" "\<lambda>_. v" "a + i"] by simp
  qed
  then show ?thesis by simp
qed

lemma xp_memset0_eq:
  assumes "xin M s n"
  shows "xp_memset0 s (int n) M = Inr (xstore M s n 0)"
proof -
  have "\<not> xp_numelts M s < int n" using assms by (auto simp: xp_numelts_def xin_def)
  then show ?thesis using for_up_fill [of M s 0 n 0] assms by (simp add: xp_memset0_def xstore_def lessThan_atLeast0)
qed

lemma xp_memcpy_eq:
  assumes "xin M d n" "xin M s n" "fwd_ok d s"
  shows "xp_memcpy d s (int n) M = Inr (xstore M d n (xval M s n))"
proof -
  define g :: "nat \<Rightarrow> u8" where "g i = of_int (xval M s n div 256 ^ i)" for i
  have "\<not> xp_numelts M d < int n" "\<not> xp_numelts M s < int n" using assms by (auto simp: xp_numelts_def xin_def)
  moreover have "for_up (\<lambda>i M. bind_res (xp_read M s i) (\<lambda>v. xp_write M d i v)) 0 n (xset M d {..<0} g) = Inr (xset M d {..<n} g)"
  proof (rule for_up_seq, goal_cases)
    case (1 i)
    have "g i = xdig M s i" using xval_div [OF 1, of M s] unfolding g_def word_uint_eq_iff uint_of_int_u8 .
    then show ?case using 1 assms
      by (simp add: read_fwd [of M _ n] xp_write_in [of _ _ n] xset_put lessThan_Suc)
  qed
  ultimately show ?thesis by (simp add: xp_memcpy_def xstore_def g_def [abs_def])
qed

lemma length_loop_ok:
  "xin M x (Suc n) \<Longrightarrow>
   \<exists>k. xp_length_loop (Suc n) x M = Inr (int k) \<and> 0 < k \<and> k \<le> Suc n \<and> xval M x (Suc n) = xval M x k \<and> (k = 1 \<or> xdig M x (k - 1) \<noteq> 0)"
proof (induction n)
  case (Suc n)
  have r: "xp_read M x (int n + 1) = Inr (xdig M x (Suc n))"
    using xp_read_in [OF Suc.prems, of "Suc n"] by (simp add: add.commute)
  show ?case
  proof (cases "xdig M x (Suc n) = 0")
    case True
    have "xin M x (Suc n)" using Suc.prems by (rule xin_mono) simp
    from Suc.IH [OF this] obtain k where k: "xp_length_loop (Suc n) x M = Inr (int k)" "0 < k" "k \<le> Suc n"
      "xval M x (Suc n) = xval M x k" "k = 1 \<or> xdig M x (k - 1) \<noteq> 0" by auto
    have "xp_length_loop (Suc (Suc n)) x M = Inr (int k)" using r True k(1) by simp
    moreover have "xval M x (Suc (Suc n)) = xval M x k" using True k(4) by (simp add: xval_Suc [of M x "Suc n"])
    ultimately show ?thesis using k by (intro exI [of _ k]) simp
  next
    case False
    then show ?thesis using r by (intro exI [of _ "Suc (Suc n)"]) simp
  qed
qed (auto intro: exI [of _ 1])

lemma XP_length_ok:
  assumes "xin M x n" "0 < n"
  obtains k where "XP_length (int n) x M = Inr (int k)" "0 < k" "k \<le> n" "xval M x n = xval M x k"
    "k = 1 \<or> xdig M x (k - 1) \<noteq> 0"
proof -
  obtain n' where n: "n = Suc n'" using assms(2) by (cases n) auto
  show ?thesis
  proof (cases "n' = 0")
    case True
    then show ?thesis using that [of 1] by (simp add: n XP_length_def)
  next
    case False
    then have "XP_length (int n) x M = xp_length_loop (Suc n') x M"
      by (simp add: XP_length_def n nat_add_distrib del: xp_length_loop.simps)
    then show ?thesis using length_loop_ok [of M x n'] assms(1) that unfolding n by auto
  qed
qed

lemma cmp_digit:
  assumes "i \<le> m" "\<And>j. \<lbrakk>i < j; j \<le> m\<rbrakk> \<Longrightarrow> xdig M p j = xdig N q j" "i = 0 \<or> xdig M p i \<noteq> xdig N q i"
  shows "xval M p (Suc m) < xval N q (Suc m) \<longleftrightarrow> xdig M p i < xdig N q i"
    and "xval M p (Suc m) = xval N q (Suc m) \<longleftrightarrow> xdig M p i = xdig N q i"
proof -
  have m: "Suc m = Suc i + (m - i)" using assms(1) by simp
  have "xval M (xp_plus p (int (Suc i))) (m - i) = xval N (xp_plus q (int (Suc i))) (m - i)"
  proof (rule xval_cong)
    fix j assume "j < m - i"
    then show "xdig M (xp_plus p (int (Suc i))) j = xdig N (xp_plus q (int (Suc i))) j"
      using assms(2) [of "Suc i + j"] by (simp add: xdig_def xp_plus_def algebra_simps)
  qed
  then have hi: "xval M p (Suc m) - xval N q (Suc m) = xval M p (Suc i) - xval N q (Suc i)"
    unfolding m xval_split by simp
  let ?a = "uint (xdig M p i)" and ?b = "uint (xdig N q i)" and ?B = "256 ^ i :: int"
  have lo: "xval M p i < ?B" "0 \<le> xval M p i" "xval N q i < ?B" "0 \<le> xval N q i" by (simp_all add: xval_less xval_nonneg)
  have lt: "?a * ?B + ?B \<le> ?b * ?B" if "?a < ?b" using mult_right_mono [of "?a + 1" ?b ?B] that by (simp add: algebra_simps)
  have gt: "?b * ?B + ?B \<le> ?a * ?B" if "?b < ?a" using mult_right_mono [of "?b + 1" ?a ?B] that by (simp add: algebra_simps)
  have eq: "i = 0" if "?a = ?b" using that assms(3) by (auto simp: word_uint_eq_iff)
  have d: "xval M p (Suc i) < xval N q (Suc i) \<longleftrightarrow> ?a < ?b" "xval M p (Suc i) = xval N q (Suc i) \<longleftrightarrow> ?a = ?b"
    using lo lt gt eq by (cases rule: linorder_cases [of ?a ?b]; force simp: xval_Suc)+
  show "xval M p (Suc m) < xval N q (Suc m) \<longleftrightarrow> xdig M p i < xdig N q i"
    using d(1) hi unfolding word_less_def by linarith
  show "xval M p (Suc m) = xval N q (Suc m) \<longleftrightarrow> xdig M p i = xdig N q i"
    using d(2) hi unfolding word_uint_eq_iff by linarith
qed

lemma first_diff_ok:
  "\<lbrakk>xin M (xp_plus p (int k)) (Suc m); xin M q (Suc m)\<rbrakk> \<Longrightarrow>
   \<exists>i. first_diff m p (int k) q M = Inr (int i) \<and> i \<le> m \<and>
       (\<forall>j. i < j \<and> j \<le> m \<longrightarrow> xdig M (xp_plus p (int k)) j = xdig M q j) \<and>
       (i = 0 \<or> xdig M (xp_plus p (int k)) i \<noteq> xdig M q i)"
proof (induction m)
  case (Suc m)
  have r: "xp_read M p (int (Suc m) + int k) = Inr (xdig M (xp_plus p (int k)) (Suc m))"
    "xp_read M q (int (Suc m)) = Inr (xdig M q (Suc m))"
    using Suc.prems by (simp_all only: xp_read_in [of _ _ "Suc (Suc m)"] lessI add.commute [of "int (Suc m)"] xp_read_plus)
  show ?case
  proof (cases "xdig M (xp_plus p (int k)) (Suc m) = xdig M q (Suc m)")
    case True
    have "xin M (xp_plus p (int k)) (Suc m)" "xin M q (Suc m)" using Suc.prems by (auto intro: xin_mono)
    from Suc.IH [OF this] obtain i where i: "first_diff m p (int k) q M = Inr (int i)" "i \<le> m"
      "\<forall>j. i < j \<and> j \<le> m \<longrightarrow> xdig M (xp_plus p (int k)) j = xdig M q j" "i = 0 \<or> xdig M (xp_plus p (int k)) i \<noteq> xdig M q i"
      by auto
    show ?thesis using r True i by (intro exI [of _ i]) (auto simp: le_Suc_eq simp del: of_nat_Suc)
  next
    case False
    then show ?thesis using r by (intro exI [of _ "Suc m"]) (auto simp del: of_nat_Suc)
  qed
qed simp

lemma cmp_loop_first_diff: "cmp_loop i x y M = first_diff i x 0 y M"
  by (induction i) (auto intro!: arg_cong [where f = "bind_res _"] ext)

lemma XP_cmp_ok:
  assumes "xin M x (Suc n)" "xin M y (Suc n)"
  shows "\<exists>s. XP_cmp (int (Suc n)) x y M = Inr s \<and> sgn s = sgn (xval M x (Suc n) - xval M y (Suc n))"
proof -
  have p: "xp_plus x (int 0) = x" by (simp add: xp_plus_def)
  from first_diff_ok [of M x 0 n y] assms obtain i where
    i: "cmp_loop n x y M = Inr (int i)" "i \<le> n" "\<forall>j. i < j \<and> j \<le> n \<longrightarrow> xdig M x j = xdig M y j"
       "i = 0 \<or> xdig M x i \<noteq> xdig M y i" unfolding p cmp_loop_first_diff by auto
  have "XP_cmp (int (Suc n)) x y M = Inr (uint (xdig M x i) - uint (xdig M y i))"
  proof -
    have "(if int (Suc n) - 1 > 0 then cmp_loop (nat (int (Suc n) - 1)) x y M else Inr (int (Suc n) - 1)) = Inr (int i)"
      using i(1,2) by (cases "n = 0") (auto simp del: cmp_loop.simps)
    then show ?thesis using i(2) assms by (simp add: XP_cmp_def xp_read_in [of _ _ "Suc n"] del: of_nat_Suc)
  qed
  moreover have "xval M x (Suc n) < xval M y (Suc n) \<longleftrightarrow> uint (xdig M x i) < uint (xdig M y i)"
    "xval M x (Suc n) = xval M y (Suc n) \<longleftrightarrow> uint (xdig M x i) = uint (xdig M y i)"
    using cmp_digit [of i n M x M y] i(2-4) by (auto simp: word_less_def word_uint_eq_iff)
  then have "sgn (uint (xdig M x i) - uint (xdig M y i)) = sgn (xval M x (Suc n) - xval M y (Suc n))"
    by (auto simp: sgn_if)
  ultimately show ?thesis by blast
qed

subsection \<open>Division\<close>

lemma xval_high: "xval M p (a + b) div 256 ^ a = xval M (xp_plus p (int a)) b"
  using div_add_mult_pow [of "xval M p a" a] xval_less [of M p a] xval_nonneg [of M p a] by (simp add: xval_split)

text \<open>The two leading digits of the divisor and the three of the remainder give the digit or one more.\<close>

lemma estimate:
  fixes R Y B :: int
  assumes B: "0 < B" and y: "256 \<le> Y div B" and R: "0 \<le> R" "R < Y * 256"
  defines "q \<equiv> min 255 ((R div B) div (Y div B))"
  shows "R div Y \<le> q" "q \<le> R div Y + 1" "0 \<le> q"
proof -
  define y2 r3 where "y2 = Y div B" and "r3 = R div B"
  define t where "t = R div Y"
  have Y: "Y = y2 * B + Y mod B" by (simp add: y2_def)
  have "0 < y2 * B" using y B by (simp add: y2_def)
  moreover have m: "0 \<le> Y mod B" "Y mod B < B" using B by simp_all
  ultimately have Y0: "0 < Y" "y2 * B \<le> Y" "Y < (y2 + 1) * B" using Y by (simp_all add: algebra_simps)
  have Rt: "R = t * Y + R mod Y" "0 \<le> R mod Y" "R mod Y < Y" using Y0 by (simp_all add: t_def)
  have "t * Y < 256 * Y" using R(2) Rt by linarith
  then have t: "0 \<le> t" "t \<le> 255"
    using R(1) Y0(1) by (simp_all add: t_def pos_imp_zdiv_nonneg_iff)
  have "R = r3 * B + R mod B" "0 \<le> R mod B" "R mod B < B" using B by (simp_all add: r3_def)
  then have r: "r3 * B \<le> R" "R < (r3 + 1) * B" unfolding distrib_right by linarith+
  have "t * y2 * B \<le> R" using mult_left_mono [OF Y0(2) t(1)] Rt by (simp add: mult.assoc)
  then have "t * y2 * B < (r3 + 1) * B" using r(2) by linarith
  then have "t * y2 \<le> r3" using B by simp
  then have le: "t \<le> r3 div y2" using y zdiv_mono1 [of "t * y2" r3 y2] by (simp add: y2_def)
  then show "R div Y \<le> q" using t by (simp add: q_def t_def y2_def r3_def)
  show "0 \<le> q" using le t by (simp add: q_def y2_def r3_def)
  show "q \<le> R div Y + 1"
  proof (rule ccontr)
    assume "\<not> q \<le> R div Y + 1"
    then have q: "t + 2 \<le> r3 div y2" by (simp add: q_def t_def y2_def r3_def)
    have "(t + 2) * y2 \<le> r3 div y2 * y2" using q y by (intro mult_right_mono) (simp_all add: y2_def)
    also have "\<dots> \<le> r3" using y by (simp add: y2_def minus_mod_eq_div_mult [symmetric])
    finally have "(t + 2) * y2 * B \<le> r3 * B" using B by simp
    also have "r3 * B < (t + 1) * Y" using r(1) Rt by (simp add: algebra_simps)
    also have "\<dots> \<le> (t + 1) * ((y2 + 1) * B)" using Y0(3) t by (intro mult_left_mono) simp_all
    finally have "(t + 2) * y2 < (t + 1) * (y2 + 1)" using B by (simp add: mult.assoc [symmetric])
    then show False using y t by (simp add: algebra_simps y2_def)
  qed
qed

lemma xdig_plus: "xdig M (xp_plus p (int k)) j = xdig M p (k + j)"
  by (simp add: xdig_def xp_plus_def add.assoc)

lemma xval_top2: "xval M y (a + 2) div 256 ^ a = uint (xdig M y (a + 1)) * 256 + uint (xdig M y a)"
  unfolding xval_high by (simp add: eval_nat_numeral xval_Suc xdig_plus del: of_nat_Suc)

lemma guess_digit_eq:
  assumes m: "2 \<le> m" and y: "xin M y m" and r: "xin M (xp_plus rem (int k)) (Suc m)" and y2: "256 \<le> xval M y m div 256 ^ (m - 2)"
  shows "guess_digit (int m) y rem (int k) M =
    Inr (min 255 (xval M (xp_plus rem (int k)) (Suc m) div 256 ^ (m - 2) div (xval M y m div 256 ^ (m - 2))))"
proof -
  obtain a where a: "m = a + 2" using m by (metis le_add_diff_inverse2)
  let ?p = "xp_plus rem (int k)"
  have ry: "xp_read M y (int m - 1) = Inr (xdig M y (a + 1))" "xp_read M y (int m - 2) = Inr (xdig M y a)"
    using xp_read_in [OF y, of "a + 1"] xp_read_in [OF y, of a] by (simp_all add: a add.commute)
  have rr: "xp_read M rem (int k + int m) = Inr (xdig M ?p (a + 2))" "xp_read M rem (int k + int m - 1) = Inr (xdig M ?p (a + 1))"
    "xp_read M rem (int k + int m - 2) = Inr (xdig M ?p a)"
    using xp_read_in [OF r, of "a + 2"] xp_read_in [OF r, of "a + 1"] xp_read_in [OF r, of a]
    by (simp_all add: a xp_read_plus [symmetric] algebra_simps)
  have "xval M y m div 256 ^ a = uint (xdig M y (a + 1)) * 256 + uint (xdig M y a)"
    unfolding a by (rule xval_top2)
  moreover have "xval M ?p (Suc m) div 256 ^ a = uint (xdig M ?p (a + 2)) * 65536 + uint (xdig M ?p (a + 1)) * 256 + uint (xdig M ?p a)"
    using xval_high [of M ?p a 3] by (simp add: a eval_nat_numeral xval_Suc xdig_plus [of M ?p a])
  ultimately show ?thesis
    using y2 unfolding guess_digit_def Let_def ry rr bind_res_Inr by (simp add: a assert_c_def min_def)
qed

lemma xstore_Suc: "xset (xstore M z n V) z {n} (\<lambda>_. of_int (V div 256 ^ n)) = xstore M z (Suc n) V"
  unfolding xstore_def by (simp add: xset_put lessThan_Suc)

lemma xstore_twice: "xstore (xstore M z n V) z n W = xstore M z n W"
  unfolding xstore_def by (rule ext) (auto simp: xset_def Let_def)

lemma set_product_eq:
  assumes "xin M dq (Suc m)" "xin M y m" "xblk dq \<noteq> xblk y" "0 \<le> qk" "qk \<le> 255"
  shows "set_product (int m) dq y qk M = Inr (xstore M dq (Suc m) (xval M y m * qk))"
proof -
  have "XP_product (int m) dq y qk M = Inr (xval M y m * qk div 256 ^ m, xstore M dq m (xval M y m * qk))"
    using XP_product_eq [of M dq m y qk] assms xin_mono [of M dq "Suc m" m] by (simp add: fwd_ok_def Let_def)
  then show ?thesis using assms by (simp add: set_product_def xp_write_in [of _ _ "Suc m"] xstore_Suc)
qed

text \<open>The part of a round of the division that determines the digit.\<close>

lemma div_digit:
  assumes m: "2 \<le> m" and y: "xin M y m" and r: "xin M (xp_plus rem (int k)) (Suc m)" and d: "xin M dq (Suc m)"
    and blk: "xblk rem \<noteq> xblk y" "xblk dq \<noteq> xblk y" and disj: "xdisj dq (Suc m) (xp_plus rem (int k)) (Suc m)"
    and top: "xdig M y (m - 1) \<noteq> 0"
  defines "Y \<equiv> xval M y m" and "R \<equiv> xval M (xp_plus rem (int k)) (Suc m)"
  assumes RY: "R < Y * 256"
  shows "bind_res (guess_digit (int m) y rem (int k) M) (\<lambda>qk.
     bind_res (set_product (int m) dq y qk M) (\<lambda>M.
     bind_res (first_diff m rem (int k) dq M) (\<lambda>i.
     bind_res (xp_read M rem (i + int k)) (\<lambda>a. bind_res (xp_read M dq i) (\<lambda>b.
     (if a < b then bind_res (set_product (int m) dq y (qk - 1) M) (\<lambda>M. Inr (qk - 1, M)) else Inr (qk, M)))))))
     = Inr (R div Y, xstore M dq (Suc m) (Y * (R div Y)))"
proof -
  obtain a where a: "m = a + 2" using m by (metis le_add_diff_inverse2)
  let ?p = "xp_plus rem (int k)"
  have "1 \<le> uint (xdig M y (a + 1))" using top by (simp add: a word_uint_eq_iff) (metis int_one_le_iff_zero_less le_less uint_ge_0)
  then have y2: "256 \<le> Y div 256 ^ (m - 2)"
    using xval_top2 [of M y a] uint_ge_0 [of "xdig M y a"] unfolding Y_def a add_diff_cancel_right' by linarith
  have R0: "0 \<le> R" "0 < Y" using xval_nonneg [of M ?p "Suc m"] RY unfolding R_def by linarith+
  define qk where "qk = min 255 (R div 256 ^ (m - 2) div (Y div 256 ^ (m - 2)))"
  note q = estimate [OF _ y2 R0(1) RY, folded qk_def, simplified]
  have qk255: "qk \<le> 255" by (simp add: qk_def)
  have Ym: "Y < 256 ^ m" by (simp add: Y_def xval_less)
  have YB: "0 \<le> Y * t \<and> Y * t < 256 ^ Suc m" if "0 \<le> t" "t \<le> 255" for t
    using mult_mono [of Y "256 ^ m" t 255] Ym R0 that by (auto intro: le_less_trans)
  define M1 where "M1 = xstore M dq (Suc m) (Y * qk)"
  have sp: "set_product (int m) dq y qk M = Inr M1"
    using set_product_eq [of M dq m y qk] y d blk q qk255 by (simp add: M1_def Y_def)
  have in1: "xin M1 ?p (Suc m)" "xin M1 dq (Suc m)" "xin M1 y m" using r d y by (simp_all add: M1_def)
  have v1: "xval M1 ?p (Suc m) = R" "xval M1 dq (Suc m) = Y * qk" "xval M1 y m = Y"
    using disj r d blk YB [of qk] q qk255 by (simp_all add: M1_def R_def Y_def xval_xstore_disj xval_xstore xstore_other)
  from first_diff_ok [OF in1(1,2)] obtain i where i: "first_diff m rem (int k) dq M1 = Inr (int i)" "i \<le> m"
    "\<forall>j. i < j \<and> j \<le> m \<longrightarrow> xdig M1 ?p j = xdig M1 dq j" "i = 0 \<or> xdig M1 ?p i \<noteq> xdig M1 dq i" by blast
  have rd: "xp_read M1 rem (int i + int k) = Inr (xdig M1 ?p i)" "xp_read M1 dq (int i) = Inr (xdig M1 dq i)"
    using i(2) in1 by (simp_all add: add.commute [of "int i"] xp_read_plus xp_read_in [of _ _ "Suc m"])
  have cmp: "xdig M1 ?p i < xdig M1 dq i \<longleftrightarrow> R < Y * qk"
    using cmp_digit(1) [of i m M1 ?p M1 dq] i by (simp add: v1)
  have qt: "R = R div Y * Y + R mod Y" "0 \<le> R mod Y" "R mod Y < Y" using R0 by simp_all
  show ?thesis
  proof (cases "R < Y * qk")
    case True
    have "Y * (R div Y) \<le> R" using qt(1,2) unfolding mult.commute [of Y] by linarith
    then have "qk \<noteq> R div Y" using True by auto
    then have e: "qk - 1 = R div Y" using q by linarith
    have "set_product (int m) dq y (qk - 1) M1 = Inr (xstore M dq (Suc m) (Y * (qk - 1)))"
      using set_product_eq [of M1 dq m y "qk - 1"] in1 blk q qk255 e R0 xstore_twice [of M dq "Suc m" "Y * qk"]
      by (simp add: v1 M1_def [symmetric] pos_imp_zdiv_nonneg_iff)
    then show ?thesis
      using True cmp guess_digit_eq [OF m y r] y2 unfolding Y_def [symmetric] R_def [symmetric] qk_def [symmetric]
      by (simp add: sp i(1) rd e)
  next
    case False
    then have "qk \<le> R div Y" using zdiv_mono1 [of "Y * qk" R Y] R0 by simp
    then have e: "R div Y = qk" using q by linarith
    then show ?thesis
      using False cmp guess_digit_eq [OF m y r] y2 unfolding Y_def [symmetric] R_def [symmetric] qk_def [symmetric]
      by (simp add: sp i(1) rd M1_def [symmetric])
  qed
qed

lemma xval_pad: "\<lbrakk>xval M p (a + b) < 256 ^ a\<rbrakk> \<Longrightarrow> xval M (xp_plus p (int a)) b = 0"
  using xval_high [of M p a b] xval_nonneg [of M p "a + b"] by simp

lemma div_step_eq:
  assumes m: "2 \<le> m" and k: "k + m \<le> n" and q: "xin M q (Suc k)" and y: "xin M y m" and t: "xin M tmp (n + m + 2)"
    and blk: "xblk tmp \<noteq> xblk y" "xblk q \<noteq> xblk tmp" "xblk q \<noteq> xblk y"
    and top: "xdig M y (m - 1) \<noteq> 0"
  defines "Y \<equiv> xval M y m" and "R \<equiv> xval M tmp (Suc n)" and "dq \<equiv> xp_plus tmp (int (Suc n))"
  assumes RY: "R < Y * 256 ^ Suc k"
  shows "\<exists>N. div_step (int n) (int m) q y tmp dq (int k) M = Inr N \<and> xval N tmp (Suc n) = R mod (Y * 256 ^ k) \<and>
    (\<forall>b. length (N b) = length (M b)) \<and>
    (\<forall>b. b \<noteq> xblk tmp \<longrightarrow> N b = xset M q {k} (\<lambda>_. of_int (R div (Y * 256 ^ k))) b)"
proof -
  let ?p = "xp_plus tmp (int k)"
  define W where "W = xval M ?p (Suc m)"
  define h where "h = n - (k + m)"
  have n: "Suc n = k + Suc m + h" using k by (simp add: h_def)
  have Ym: "Y < 256 ^ m" by (simp add: Y_def xval_less)
  have "R < 256 ^ m * 256 ^ Suc k"
    using RY by (rule less_trans) (use Ym in simp)
  then have "R < 256 ^ (k + Suc m)" by (simp add: power_add mult_ac)
  then have hi: "xval M (xp_plus tmp (int (k + Suc m))) h = 0" using xval_pad [of M tmp "k + Suc m" h] by (simp only: R_def n)
  have R: "R = xval M tmp k + 256 ^ k * W"
    unfolding R_def n xval_split [of M tmp "k + Suc m" h] hi W_def xval_split [of M tmp k "Suc m"] by simp
  have lo: "0 \<le> xval M tmp k" "xval M tmp k < 256 ^ k" by (simp_all add: xval_less xval_nonneg)
  have RW: "R div 256 ^ k = W" "R mod 256 ^ k = xval M tmp k"
    using lo div_add_mult_pow [of "xval M tmp k" k W] by (simp_all add: R)
  have W0: "0 \<le> W" by (simp add: W_def xval_nonneg)
  have "256 ^ k * W < Y * 256 ^ Suc k" using RY lo(1) R by linarith
  also have "Y * 256 ^ Suc k = 256 ^ k * (Y * 256)" by simp
  finally have "256 ^ k * W < 256 ^ k * (Y * 256)" .
  then have WY: "W < Y * 256" by simp
  then have Y0: "0 < Y" using W0 by linarith
  define V where "V = W mod Y"
  have V: "V = W - Y * (W div Y)" "0 \<le> V" "V < Y" using Y0 by (simp_all add: V_def minus_mult_div_eq_mod)
  have inp: "xin M ?p (Suc m)" "xin M dq (Suc m)"
    using t k by (auto simp: dq_def xin_def xp_plus_def)
  have disj: "xdisj dq (Suc m) ?p (Suc m)" "fwd_ok ?p dq" using k by (auto simp: xdisj_def fwd_ok_def dq_def xp_plus_def)
  define M2 where "M2 = xstore M dq (Suc m) (Y * (W div Y))"
  define M3 where "M3 = xset M2 q {k} (\<lambda>_. of_int (W div Y))"
  define M4 where "M4 = xstore M3 ?p (Suc m) V"
  have in3: "xin M3 ?p (Suc m)" "xin M3 dq (Suc m)" "xin M2 q (Suc k)" using inp q by (simp_all add: M3_def M2_def)
  have "Y * (W div Y) \<le> W" "W < 256 ^ Suc m" using V(1,2) by (simp_all add: W_def xval_less del: power_Suc)
  then have fit: "0 \<le> Y * (W div Y)" "Y * (W div Y) < 256 ^ Suc m"
    using Y0 W0 by (simp_all add: pos_imp_zdiv_nonneg_iff)
  have v3: "xval M3 ?p (Suc m) = W" "xval M3 dq (Suc m) = Y * (W div Y)"
    using blk disj inp fit by (simp_all add: M3_def M2_def xval_other dq_def xp_plus_def xval_xstore_disj xval_xstore W_def del: power_Suc)
  have sub: "XP_sub (int m + 1) ?p ?p dq 0 M3 = Inr (0, M4)"
    using XP_sub_eq [OF in3(1,1,2) _ disj(2), of 0] V Ym v3 by (simp add: Let_def M4_def fwd_ok_def add.commute)
  have "xval M4 tmp (Suc n) = R mod (256 ^ k * Y)"
  proof -
    let ?s = "xp_plus tmp (int (k + Suc m))"
    have out: "xin M tmp k" "xin M ?s h" "xdisj dq (Suc m) tmp k" "xdisj dq (Suc m) ?s h" "xdisj ?p (Suc m) tmp k" "xdisj ?p (Suc m) ?s h"
      using t n by (auto simp: xdisj_def xin_def dq_def xp_plus_def)
    then have "xval M4 tmp k = xval M tmp k" "xval M4 ?s h = 0"
      using blk hi by (simp_all add: M4_def M3_def M2_def xval_xstore_disj xval_other [of _ q] xp_plus_def)
    moreover have "xval M4 ?p (Suc m) = V"
      using in3 V Ym by (simp add: M4_def xval_xstore)
    ultimately show ?thesis
      unfolding n xval_split [of M4 tmp "k + Suc m" h] xval_split [of M4 tmp k "Suc m"]
      using Y0 by (simp add: zmod_zmult2_eq RW V_def)
  qed
  moreover have "R div (256 ^ k * Y) = W div Y" using Y0 by (simp add: zdiv_zmult2_eq RW)
  moreover have "div_step (int n) (int m) q y tmp dq (int k) M = Inr M4"
  proof -
    have d: "bind_res (guess_digit (int m) y tmp (int k) M) (\<lambda>qk.
       bind_res (set_product (int m) dq y qk M) (\<lambda>M.
       bind_res (first_diff m tmp (int k) dq M) (\<lambda>i.
       bind_res (xp_read M tmp (i + int k)) (\<lambda>a. bind_res (xp_read M dq i) (\<lambda>b.
       (if a < b then bind_res (set_product (int m) dq y (qk - 1) M) (\<lambda>M. Inr (qk - 1, M)) else Inr (qk, M)))))))
       = Inr (W div Y, M2)"
      using div_digit [OF m y inp(1,2) blk(1) _ disj(1) top] WY blk by (simp add: dq_def xp_plus_def W_def Y_def M2_def)
    have "div_step (int n) (int m) q y tmp dq (int k) M = bind_res (Inr (W div Y, M2)) (\<lambda>(qk, M).
       bind_res (xp_write M q (int k) (of_int qk)) (\<lambda>M.
       bind_res (XP_sub (int m + 1) ?p ?p dq 0 M) (\<lambda>(borrow, M).
       bind_res (assert_c (borrow = 0) ''borrow == 0'') (\<lambda>_. Inr M))))"
      unfolding d [symmetric] using m k by (simp add: div_step_def bind_res_assoc assert_c_def)
    then show ?thesis using in3 sub by (simp add: xp_write_in [of _ _ "Suc k"] M3_def [symmetric] assert_c_def)
  qed
  ultimately show ?thesis
    by (intro exI [of _ M4]) (auto simp: mult.commute [of Y] M4_def M3_def M2_def xstore_def xset_def xp_plus_def dq_def)
qed

lemma for_down_inv:
  "\<lbrakk>\<And>i s. \<lbrakk>i < n; I i s\<rbrakk> \<Longrightarrow> \<exists>s'. f (a - int i) s = Inr s' \<and> I (Suc i) s'; I 0 s\<rbrakk> \<Longrightarrow>
   \<exists>s'. for_down f a n s = Inr s' \<and> I n s'"
proof (induction n arbitrary: a s I)
  case (Suc n)
  from Suc.prems(1) [of 0 s] Suc.prems(2) obtain s1 where s1: "f a s = Inr s1" "I (Suc 0) s1" by auto
  have "\<exists>s'. for_down f (a - 1) n s1 = Inr s' \<and> I (Suc n) s'"
  proof (rule Suc.IH [where I = "\<lambda>i. I (Suc i)"])
    fix i s assume "i < n" "I (Suc i) s"
    then show "\<exists>s'. f (a - 1 - int i) s = Inr s' \<and> I (Suc (Suc i)) s'"
      using Suc.prems(1) [of "Suc i" s] by (simp add: algebra_simps)
  qed (rule s1(2))
  then show ?case using s1(1) by auto
qed auto

lemma xin_len: "(\<And>b. length (N b) = length (M b)) \<Longrightarrow> xin N p n = xin M p n"
  by (simp add: xin_def)

lemma xdig_blk: "N (xblk p) = M (xblk p) \<Longrightarrow> xdig N p i = xdig M p i"
  by (simp add: xdig_def)

lemma xval_blk: "N (xblk p) = M (xblk p) \<Longrightarrow> xval N p n = xval M p n"
  by (intro xval_cong xdig_blk)

lemma xset_blk: "N b = M b \<Longrightarrow> xset N z A g b = xset M z A g b"
  by (auto simp: xset_def Let_def)

lemma xstore_ext:
  assumes "0 \<le> V" "V < 256 ^ a" "a \<le> n"
  shows "xset (xstore M z a V) z {a..<n} (\<lambda>_. 0) = xstore M z n V"
proof -
  have "(of_int (V div 256 ^ i) :: u8) = 0" if "a \<le> i" for i
  proof -
    have "V < 256 ^ i" using assms(2) power_increasing [OF that, of "256 :: int"] by linarith
    then show ?thesis using assms(1) by simp
  qed
  then show ?thesis using assms(3)
    by (intro ext) (auto simp: xstore_def xset_def Let_def)
qed

lemma top_digit: "\<lbrakk>xdig M y (m - 1) \<noteq> 0; 0 < m\<rbrakk> \<Longrightarrow> 256 ^ (m - 1) \<le> xval M y m"
proof -
  assume a: "xdig M y (m - 1) \<noteq> 0" "0 < m"
  have "uint (xdig M y (m - 1)) \<noteq> 0" using a(1) by (simp add: word_uint_eq_iff)
  then have "1 \<le> uint (xdig M y (m - 1))" using uint_ge_0 [of "xdig M y (m - 1)"] by linarith
  then have "1 * 256 ^ (m - 1) \<le> uint (xdig M y (m - 1)) * 256 ^ (m - 1)" by (intro mult_right_mono) simp_all
  then have "256 ^ (m - 1) \<le> xval M y (Suc (m - 1))"
    using xval_nonneg [of M y "m - 1"] unfolding xval_Suc by linarith
  then show ?thesis using a(2) by simp
qed

lemma quotient_bound:
  assumes top: "xdig M y (m - 1) \<noteq> 0" and m: "0 < m" "m \<le> n" and X: "X < 256 ^ n"
  shows "X < xval M y m * 256 ^ Suc (n - m)" "0 < xval M y m"
proof -
  have Y: "256 ^ (m - 1) \<le> xval M y m" using top_digit [OF top] m by simp
  then show "0 < xval M y m" by (rule less_le_trans [rotated]) simp
  have "256 ^ n = 256 ^ (m - 1) * (256 :: int) ^ Suc (n - m)" unfolding power_add [symmetric] using m by simp
  also have "\<dots> \<le> xval M y m * 256 ^ Suc (n - m)" using Y by (intro mult_right_mono) simp_all
  finally show "X < xval M y m * 256 ^ Suc (n - m)" using X by simp
qed

lemma mod_digit:
  fixes X A :: int
  assumes "0 < A"
  shows "X mod (A * 256) mod A = X mod A" "X mod (A * 256) div A = X div A mod 256"
proof -
  show "X mod (A * 256) mod A = X mod A" by (simp add: mod_mod_cancel)
  have "X mod (A * 256) = X mod A + A * (X div A mod 256)" by (simp add: zmod_zmult2_eq)
  then show "X mod (A * 256) div A = X div A mod 256" using assms by simp
qed

text \<open>The rounds of the long division: the remainder so far, and the digits of the quotient from place \<open>k\<close> on.\<close>

lemma div_rounds:
  assumes m: "2 \<le> m" "m \<le> n" and q: "xin M q (Suc (n - m))" and y: "xin M y m" and t: "xin M tmp (n + m + 2)"
    and blk: "xblk tmp \<noteq> xblk y" "xblk q \<noteq> xblk tmp" "xblk q \<noteq> xblk y"
    and top: "xdig M y (m - 1) \<noteq> 0" and X: "xval M tmp (Suc n) < 256 ^ n"
  defines "Y \<equiv> xval M y m" and "X \<equiv> xval M tmp (Suc n)"
  shows "\<exists>N. for_down (div_step (int n) (int m) q y tmp (xp_plus tmp (int (Suc n)))) (int (n - m)) (Suc (n - m)) M = Inr N \<and>
    xval N tmp (Suc n) = X mod Y \<and> (\<forall>b. length (N b) = length (M b)) \<and>
    (\<forall>b. b \<noteq> xblk tmp \<longrightarrow> N b = xstore M q (Suc (n - m)) (X div Y) b)"
proof -
  define g :: "nat \<Rightarrow> u8" where "g i = of_int (X div Y div 256 ^ i)" for i
  define I where "I t N \<longleftrightarrow> xval N tmp (Suc n) = X mod (Y * 256 ^ (Suc (n - m) - t)) \<and> (\<forall>b. length (N b) = length (M b)) \<and>
    (\<forall>b. b \<noteq> xblk tmp \<longrightarrow> N b = xset M q {Suc (n - m) - t..<Suc (n - m)} g b)" for t N
  have Y: "X < Y * 256 ^ Suc (n - m)" and Y0: "0 < Y"
    using quotient_bound [OF top _ m(2) X] m(1) by (simp_all add: Y_def X_def)
  from Y have I0: "I 0 M" using xval_nonneg [of M tmp "Suc n"] by (simp add: I_def X_def)
  have "\<exists>N. for_down (div_step (int n) (int m) q y tmp (xp_plus tmp (int (Suc n)))) (int (n - m)) (Suc (n - m)) M = Inr N \<and> I (Suc (n - m)) N"
  proof (rule for_down_inv [where I = I, OF _ I0], goal_cases)
    case (1 t' N)
    define k where "k = n - m - t'"
    have k: "k + m \<le> n" "int (n - m) - int t' = int k" "Suc (n - m) - t' = Suc k" "Suc (n - m) - Suc t' = k" "k < Suc (n - m)"
      using 1 m by (auto simp: k_def)
    have N: "xval N tmp (Suc n) = X mod (Y * 256 ^ Suc k)" "\<And>b. length (N b) = length (M b)"
      "\<And>b. b \<noteq> xblk tmp \<Longrightarrow> N b = xset M q {Suc k..<Suc (n - m)} g b"
      using 1(2) unfolding I_def k by auto
    have Ny: "N (xblk y) = M (xblk y)" using N(3) [of "xblk y"] blk by (simp add: xset_frame)
    have A: "0 < Y * 256 ^ k" "Y * 256 ^ Suc k = Y * 256 ^ k * 256" using Y0 by simp_all
    have vy: "xval N y m = Y" "xdig N y (m - 1) \<noteq> 0" using xval_blk [of N y M, OF Ny] xdig_blk [of N y M, OF Ny] top by (simp_all add: Y_def)
    have inN: "xin N q (Suc k)" "xin N y m" "xin N tmp (n + m + 2)"
      unfolding xin_len [of N M, OF N(2)] using xin_mono [OF q] k(5) y t by auto
    have "xval N tmp (Suc n) < xval N y m * 256 ^ Suc k"
      unfolding N(1) vy(1) using Y0 by (intro pos_mod_bound) simp
    from div_step_eq [OF m(1) k(1) inN blk vy(2) this] obtain N' where
      N': "div_step (int n) (int m) q y tmp (xp_plus tmp (int (Suc n))) (int k) N = Inr N'"
      "xval N' tmp (Suc n) = xval N tmp (Suc n) mod (Y * 256 ^ k)" "\<forall>b. length (N' b) = length (N b)"
      "\<forall>b. b \<noteq> xblk tmp \<longrightarrow> N' b = xset N q {k} (\<lambda>_. of_int (xval N tmp (Suc n) div (Y * 256 ^ k))) b"
      unfolding vy(1) by blast
    have "xval N tmp (Suc n) div (Y * 256 ^ k) = X div Y div 256 ^ k mod 256"
      unfolding N(1) A(2) mod_digit(2) [OF A(1)] using Y0 by (simp add: zdiv_zmult2_eq)
    then have gk: "of_int (xval N tmp (Suc n) div (Y * 256 ^ k)) = g k" by (simp add: g_def)
    have "N' b = xset M q {k..<Suc (n - m)} g b" if "b \<noteq> xblk tmp" for b
    proof -
      have "N' b = xset (xset M q {Suc k..<Suc (n - m)} g) q {k} (\<lambda>_. g k) b"
        using that N'(4) gk by (simp add: xset_blk [of N b "xset M q {Suc k..<Suc (n - m)} g", OF N(3)])
      also have "\<dots> = xset M q (insert k {Suc k..<Suc (n - m)}) g b" by (simp only: xset_insert)
      also have "insert k {Suc k..<Suc (n - m)} = {k..<Suc (n - m)}" using k(5) by auto
      finally show ?thesis .
    qed
    then have "I (Suc t') N'"
      using N' N unfolding I_def k by (simp add: A(2) mod_digit(1) [OF A(1)] del: power_Suc)
    then show ?case using N'(1) k(2) by auto
  qed
  then show ?thesis by (auto simp: I_def xstore_def g_def [abs_def] lessThan_atLeast0)
qed

text \<open>The end of the long division: the remainder is copied and both results are padded with zeros.\<close>

lemma div_finish:
  assumes le: "m \<le> n" "d \<le> nx" "m \<le> my" and i: "xin N q nx" "xin N r my" "xin N tmp n" "xin P q nx"
    and blk: "xblk q \<noteq> xblk tmp" "xblk r \<noteq> xblk q" "xblk r \<noteq> xblk tmp"
    and R: "xval N tmp n = R" "R < 256 ^ m" and Q: "N (xblk q) = xstore P q d Q (xblk q)" "0 \<le> Q" "Q < 256 ^ d"
  shows "\<exists>N'. bind_res (xp_memcpy r tmp (int m) N) (\<lambda>M.
       bind_res (for_up (\<lambda>i M. xp_write M q i 0) (int d) (nx - d) M) (\<lambda>M.
       for_up (\<lambda>i M. xp_write M r i 0) (int m) (my - m) M)) = Inr N' \<and>
     xval N' q nx = Q \<and> xval N' r my = R \<and> (\<forall>b. b \<notin> {xblk q, xblk r} \<longrightarrow> N' b = N b)"
proof -
  have R0: "0 \<le> R" using R(1) xval_nonneg by blast
  have "xval N tmp (m + (n - m)) < 256 ^ m" using R le by simp
  then have vN: "xval N tmp m = R"
    using xval_pad [of N tmp m "n - m"] xval_split [of N tmp m "n - m"] R le by simp
  define N1 where "N1 = xstore N r m R"
  define N2 where "N2 = xset N1 q {d..<nx} (\<lambda>_. 0)"
  define N3 where "N3 = xset N2 r {m..<my} (\<lambda>_. 0)"
  have "xp_memcpy r tmp (int m) N = Inr N1"
    using xp_memcpy_eq [of N r m tmp] xin_mono [OF i(2), of m] xin_mono [OF i(3), of m] le blk by (simp add: fwd_ok_def vN N1_def)
  moreover have "for_up (\<lambda>i M. xp_write M q i 0) (int d) (nx - d) N1 = Inr N2"
    using for_up_fill [of N1 q d "nx - d" 0] i le by (simp add: N2_def N1_def)
  moreover have "for_up (\<lambda>i M. xp_write M r i 0) (int m) (my - m) N2 = Inr N3"
    using for_up_fill [of N2 r m "my - m" 0] i le by (simp add: N3_def N2_def N1_def)
  moreover have "xval N3 q nx = Q"
  proof -
    have "N1 (xblk q) = xstore P q d Q (xblk q)" using Q(1) blk by (simp add: N1_def xstore_frame)
    then have "N3 (xblk q) = xset (xstore P q d Q) q {d..<nx} (\<lambda>_. 0) (xblk q)"
      unfolding N3_def N2_def using blk by (simp add: xset_frame xset_blk [of N1 "xblk q" "xstore P q d Q"])
    then have "N3 (xblk q) = xstore P q nx Q (xblk q)" using Q le by (simp add: xstore_ext)
    moreover have "Q < 256 ^ nx" using Q(3) power_increasing [OF le(2), of "256 :: int"] by linarith
    ultimately show ?thesis using Q i by (simp add: xval_blk [of N3 q "xstore P q nx Q"] xval_xstore)
  qed
  moreover have "xval N3 r my = R"
  proof -
    have "N2 (xblk r) = N1 (xblk r)" using blk by (simp add: N2_def xset_frame)
    then have "N3 (xblk r) = xstore N r my R (xblk r)"
      unfolding N3_def using R R0 le by (simp add: xset_blk [of N2 "xblk r" N1] N1_def xstore_ext)
    moreover have "R < 256 ^ my" using R(2) power_increasing [OF le(3), of "256 :: int"] by linarith
    ultimately show ?thesis using R0 i by (simp add: xval_blk [of N3 r "xstore N r my R"] xval_xstore)
  qed
  moreover have "N3 b = N b" if "b \<notin> {xblk q, xblk r}" for b
    using that by (simp add: N3_def N2_def N1_def xset_frame xstore_frame)
  ultimately show ?thesis by (intro exI [of _ N3]) simp
qed

lemma long_div_ok:
  assumes m: "2 \<le> m" "m \<le> n" "n \<le> nx" "m \<le> my"
    and i: "xin M q nx" "xin M x n" "xin M y m" "xin M r my" "xin M tmp (n + m + 2)"
    and blk: "xblk tmp \<noteq> xblk y" "xblk q \<noteq> xblk tmp" "xblk q \<noteq> xblk y" "xblk r \<noteq> xblk q" "xblk r \<noteq> xblk tmp" "xblk x \<noteq> xblk tmp"
    and top: "xdig M y (m - 1) \<noteq> 0"
  defines "X \<equiv> xval M x n" and "Y \<equiv> xval M y m"
  shows "\<exists>N. long_div (int n) (int m) (int nx) (int my) q x y r tmp M = Inr N \<and>
    xval N q nx = X div Y \<and> xval N r my = X mod Y \<and> (\<forall>b. b \<notin> {xblk q, xblk r, xblk tmp} \<longrightarrow> N b = M b)"
proof -
  define M2 where "M2 = xstore M tmp (Suc n) X"
  define d where "d = Suc (n - m)"
  have X: "0 \<le> X" "X < 256 ^ n" by (simp_all add: X_def xval_nonneg xval_less)
  have Y: "X < Y * 256 ^ d" "0 < Y" "Y < 256 ^ m"
    using quotient_bound [OF top _ m(2) X(2)] m(1) by (simp_all add: Y_def d_def xval_less)
  have "X div 256 ^ n = 0" using X by simp
  then have cp: "bind_res (xp_memcpy tmp x (int n) M) (\<lambda>M. xp_write M tmp (int n) 0) = Inr M2"
    using xp_memcpy_eq [of M tmp n x] xstore_Suc [of M tmp n X] i blk xin_mono [OF i(5)]
    by (simp add: fwd_ok_def X_def [symmetric] xp_write_in [of _ _ "Suc n"] M2_def)
  have M2y: "M2 (xblk y) = M (xblk y)" using blk by (simp add: M2_def xstore_frame)
  have v2: "xval M2 tmp (Suc n) = X" "xval M2 y m = Y" "xdig M2 y (m - 1) \<noteq> 0"
    using i X top xin_mono [OF i(5), of "Suc n"]
    by (simp_all add: M2_def [THEN arg_cong [of _ _ "\<lambda>M. xval M tmp (Suc n)"]] xval_xstore xval_blk [of M2 y M, OF M2y] Y_def xdig_blk [of M2 y M, OF M2y])
  have in2: "xin M2 q d" "xin M2 y m" "xin M2 tmp (n + m + 2)"
    using i m xin_mono [OF i(1)] by (simp_all add: M2_def d_def)
  have "xval M2 tmp (Suc n) < 256 ^ n" using X v2(1) by simp
  from div_rounds [OF m(1,2) in2 [unfolded d_def] blk(1-3) v2(3) this] obtain N where
    N: "for_down (div_step (int n) (int m) q y tmp (xp_plus tmp (int (Suc n)))) (int (n - m)) d M2 = Inr N"
    "xval N tmp (Suc n) = X mod Y" "\<forall>b. length (N b) = length (M2 b)" "\<forall>b. b \<noteq> xblk tmp \<longrightarrow> N b = xstore M2 q d (X div Y) b"
    unfolding v2(1,2) d_def by blast
  have inN: "xin N p k = xin M p k" for p k using N(3) by (simp add: xin_def M2_def xstore_def)
  have R: "X mod Y < 256 ^ m" using Y pos_mod_bound [OF Y(2), of X] by linarith
  have "Y * (X div Y) < Y * 256 ^ d" using Y(1) pos_mod_sign [OF Y(2), of X] mult_div_mod_eq [of Y X] by linarith
  then have Q: "0 \<le> X div Y" "X div Y < 256 ^ d" using Y(2) X by (simp_all add: pos_imp_zdiv_nonneg_iff)
  have le: "m \<le> Suc n" "d \<le> nx" using m by (simp_all add: d_def)
  have in3: "xin N q nx" "xin N r my" "xin N tmp (Suc n)" "xin M2 q nx"
    unfolding inN using i xin_mono [OF i(5), of "Suc n"] by (simp_all add: M2_def)
  from div_finish [OF le m(4) in3 blk(2,4,5) N(2) R _ Q] N(4) blk obtain N' where
    N': "bind_res (xp_memcpy r tmp (int m) N) (\<lambda>M.
       bind_res (for_up (\<lambda>i M. xp_write M q i 0) (int d) (nx - d) M) (\<lambda>M.
       for_up (\<lambda>i M. xp_write M r i 0) (int m) (my - m) M)) = Inr N'"
     "xval N' q nx = X div Y" "xval N' r my = X mod Y" "\<forall>b. b \<notin> {xblk q, xblk r} \<longrightarrow> N' b = N b"
    by blast
  have e: "xp_plus (xp_plus tmp (int n)) 1 = xp_plus tmp (int (Suc n))" "int n - int m = int (n - m)" "int (n - m) + 1 = int d"
    "nat (int nx - int d) = nx - d" "nat (int my - int m) = my - m" "nat (int d) = d"
    using m le by (simp_all add: xp_plus_def d_def)
  have a: "assert_c (2 \<le> int m \<and> int m \<le> int n) ''2 <= m && m <= n'' = Inr ()" using m by (simp add: assert_c_def)
  obtain M1 where "xp_memcpy tmp x (int n) M = Inr M1" "xp_write M1 tmp (int n) 0 = Inr M2" using cp unfolding bind_res_eq_Inr by auto
  then have "long_div (int n) (int m) (int nx) (int my) q x y r tmp M = Inr N'"
    unfolding long_div_def Let_def e a using N(1) N'(1) by (simp del: of_nat_Suc)
  moreover have "N' b = M b" if "b \<notin> {xblk q, xblk r, xblk tmp}" for b
    using that N(4) N'(4) by (simp add: M2_def xstore_frame)
  ultimately show ?thesis using N' by blast
qed

lemma uint_u8_pos: "w \<noteq> 0 \<Longrightarrow> 0 < uint (w :: u8)"
proof -
  assume "w \<noteq> 0"
  then have "uint w \<noteq> 0" by (simp add: word_uint_eq_iff)
  then show ?thesis using uint_ge_0 [of w] by linarith
qed

lemma div_by_digit:
  assumes y: "xin M y 1" "xdig M y 0 \<noteq> 0" and i: "xin M q nx" "xin M x nx" "xin M r my" "0 < my"
    and blk: "xblk q \<noteq> xblk x" "xblk r \<noteq> xblk q"
  defines "Y \<equiv> uint (xdig M y 0)" and "X \<equiv> xval M x nx"
  shows "\<exists>N. bind_res (XP_quotient (int nx) q x Y M) (\<lambda>(c, M).
       bind_res (xp_write M r 0 (of_int c)) (\<lambda>M.
       bind_res (if 1 < xp_numelts M r then xp_memset0 (xp_plus r 1) (int my - 1) M else Inr M) (\<lambda>M. Inr (1 :: int, M)))) = Inr (1, N) \<and>
     xval N q nx = X div Y \<and> xval N r my = X mod Y \<and> (\<forall>b. b \<notin> {xblk q, xblk r} \<longrightarrow> N b = M b)"
proof -
  have Y: "0 < Y" "Y \<le> 255"
    using y(2) by (simp_all add: Y_def uint_u8_le uint_u8_pos)
  define M1 where "M1 = xstore M q nx (X div Y)"
  define M2 where "M2 = xset M1 r {0} (\<lambda>_. of_int (X mod Y))"
  define M3 where "M3 = xstore M2 (xp_plus r 1) (my - 1) 0"
  have "XP_quotient (int nx) q x Y M = Inr (X mod Y, M1)"
    using XP_quotient_eq [of M q nx x Y] i blk Y by (simp add: bwd_ok_def X_def M1_def)
  moreover have "xp_write M1 r 0 (of_int (X mod Y)) = Inr M2"
    using xp_write_in [of M1 r my 0] i by (simp add: M1_def M2_def)
  moreover have "(if 1 < xp_numelts M2 r then xp_memset0 (xp_plus r 1) (int my - 1) M2 else Inr M2) = Inr M3"
  proof (cases "1 < my")
    case True
    have "xin M2 (xp_plus r (int 1)) (my - 1)"
      using i True by (intro xin_plus [of _ _ my]) (simp_all add: M2_def M1_def)
    then have "xp_memset0 (xp_plus r 1) (int (my - 1)) M2 = Inr M3" using xp_memset0_eq by (simp add: M3_def)
    moreover have "1 < xp_numelts M2 r" using i True by (auto simp: xp_numelts_def xin_def M2_def M1_def xstore_def)
    ultimately show ?thesis using True by (simp add: of_nat_diff)
  next
    case False
    then have my: "my = 1" using i(4) by simp
    then have "xin M2 (xp_plus r (int 1)) 0" using i by (auto simp: xin_def M2_def M1_def xstore_def xp_plus_def)
    then show ?thesis using xp_memset0_eq [of M2 "xp_plus r 1" 0] my by (simp add: M3_def xstore_def)
  qed
  moreover have "xval M3 q nx = X div Y"
  proof -
    have "M3 (xblk q) = M1 (xblk q)" using blk by (simp add: M3_def M2_def xset_frame xstore_frame xp_plus_def)
    moreover have "X div Y \<le> X" "0 \<le> X div Y"
      using Y xval_nonneg [of M x nx] zdiv_mono2 [of X 1 Y] by (simp_all add: X_def pos_imp_zdiv_nonneg_iff)
    ultimately show ?thesis
      using i xval_less [of M x nx] by (simp add: xval_blk [of M3 q M1] X_def M1_def xval_xstore)
  qed
  moreover have "xval M3 r (1 + (my - 1)) = X mod Y"
  proof -
    have "xdisj (xp_plus r 1) (my - 1) r 1" by (simp add: xdisj_def xp_plus_def)
    then have "xval M3 r 1 = xval M2 r 1" using i by (simp add: M3_def xval_xstore_disj M2_def M1_def xin_mono)
    also have "\<dots> = X mod Y mod 256"
      using i by (simp add: xval_Suc M2_def xdig_xset_same M1_def uint_of_int_u8 xin_mono)
    finally have "xval M3 r 1 = X mod Y"
      using Y pos_mod_bound [OF Y(1), of X] by simp
    moreover have "xin M2 (xp_plus r (int 1)) (my - 1)"
      using i by (intro xin_plus [of _ _ my]) (simp_all add: M2_def M1_def)
    then have "xval M3 (xp_plus r (int 1)) (my - 1) = 0" by (simp add: M3_def xval_xstore)
    ultimately show ?thesis unfolding xval_split by simp
  qed
  moreover have "M3 b = M b" if "b \<notin> {xblk q, xblk r}" for b
    using that by (simp add: M3_def M2_def M1_def xset_frame xstore_frame xp_plus_def)
  ultimately show ?thesis using i(4) by (intro exI [of _ M3]) simp
qed

lemma div_small:
  assumes i: "xin M q nx" "xin M x n" "xin M r my" "n \<le> my" and blk: "xblk q \<noteq> xblk x" "xblk r \<noteq> xblk q" "xblk r \<noteq> xblk x"
  shows "\<exists>N. bind_res (xp_memset0 q (int nx) M) (\<lambda>M.
            bind_res (xp_memcpy r x (int n) M) (\<lambda>M.
            bind_res (xp_memset0 (xp_plus r (int n)) (int my - int n) M) (\<lambda>M. Inr (1 :: int, M)))) = Inr (1, N) \<and>
     xval N q nx = 0 \<and> xval N r my = xval M x n \<and> (\<forall>b. b \<notin> {xblk q, xblk r} \<longrightarrow> N b = M b)"
proof -
  define M1 where "M1 = xstore M q nx 0"
  define M2 where "M2 = xstore M1 r n (xval M x n)"
  define M3 where "M3 = xstore M2 (xp_plus r (int n)) (my - n) 0"
  have vx: "xval M1 x n = xval M x n" using blk by (simp add: M1_def xstore_other)
  have in2: "xin M1 r n" "xin M1 x n" "xin M2 (xp_plus r (int n)) (my - n)" "xin M2 r n"
    using i by (simp_all add: M2_def M1_def xin_mono xin_plus)
  have "xp_memset0 q (int nx) M = Inr M1" using i by (simp add: xp_memset0_eq M1_def)
  moreover have "xp_memcpy r x (int n) M1 = Inr M2"
    using xp_memcpy_eq [OF in2(1,2)] blk by (simp add: fwd_ok_def M2_def vx)
  moreover have "xp_memset0 (xp_plus r (int n)) (int my - int n) M2 = Inr M3"
    using xp_memset0_eq [OF in2(3)] i(4) by (simp add: M3_def of_nat_diff)
  moreover have "xval M3 q nx = 0"
    using blk i by (simp add: M3_def M2_def M1_def xstore_other xval_xstore xp_plus_def)
  moreover have "xval M3 r (n + (my - n)) = xval M x n"
  proof -
    have "xdisj (xp_plus r (int n)) (my - n) r n" by (simp add: xdisj_def xp_plus_def)
    then have "xval M3 r n = xval M2 r n" using in2 by (simp add: M3_def xval_xstore_disj)
    moreover have "xval M2 r n = xval M x n" using in2 xval_less [of M x n] xval_nonneg [of M x n] by (simp add: M2_def xval_xstore)
    moreover have "xval M3 (xp_plus r (int n)) (my - n) = 0" using in2 by (simp add: M3_def xval_xstore)
    ultimately show ?thesis unfolding xval_split by simp
  qed
  moreover have "M3 b = M b" if "b \<notin> {xblk q, xblk r}" for b
    using that by (simp add: M3_def M2_def M1_def xstore_frame xp_plus_def)
  ultimately show ?thesis using i(4) by (intro exI [of _ M3]) simp
qed

text \<open>All three cases of \<open>XP_div\<close>: for a divisor other than 0 the arrays \<open>q\<close> and \<open>r\<close> hold the
  quotient and the remainder, all other arrays but \<open>tmp\<close> keeping their digits.\<close>

lemma XP_div_ok:
  assumes n: "0 < n" "0 < m" and i: "xin M q n" "xin M x n" "xin M y m" "xin M r m" "xin M tmp (n + m + 2)"
    and blk: "distinct [xblk q, xblk r, xblk tmp]" "xblk x \<notin> {xblk q, xblk r, xblk tmp}" "xblk y \<notin> {xblk q, xblk r, xblk tmp}"
    and y: "xval M y m \<noteq> 0"
  shows "\<exists>N. XP_div (int n) q x (int m) y r tmp M = Inr (1, N) \<and>
    xval N q n = xval M x n div xval M y m \<and> xval N r m = xval M x n mod xval M y m \<and>
    (\<forall>b. b \<notin> {xblk q, xblk r, xblk tmp} \<longrightarrow> N b = M b)"
proof -
  obtain n' where n': "XP_length (int n) x M = Inr (int n')" "0 < n'" "n' \<le> n" "xval M x n = xval M x n'"
    using XP_length_ok [OF i(2) n(1)] by metis
  obtain m' where m': "XP_length (int m) y M = Inr (int m')" "0 < m'" "m' \<le> m" "xval M y m = xval M y m'" "m' = 1 \<or> xdig M y (m' - 1) \<noteq> 0"
    using XP_length_ok [OF i(3) n(2)] by metis
  note len = XP_div_def n'(1) m'(1) bind_res_Inr
  consider "m' = 1" | "m' \<noteq> 1" "n' < m'" | "2 \<le> m'" "m' \<le> n'" using m'(2) by linarith
  then show ?thesis
  proof cases
    case 1
    have y1: "xval M y m = uint (xdig M y 0)" "xdig M y 0 \<noteq> 0" "xin M y 1"
      using y i(3) m' 1 by (auto simp: xval_Suc intro: xin_mono)
    from div_by_digit [OF y1(3,2) i(1,2,4) n(2)] blk show ?thesis
      unfolding len using 1 y1 by (auto simp: xp_read_in [of M y 1 0, simplified])
  next
    case 2
    have "xval M x n < 256 ^ n'" "256 ^ (m' - 1) \<le> xval M y m" using top_digit [of M y m'] m' 2 n' xval_less [of M x n'] by auto
    moreover have "(256 :: int) ^ n' \<le> 256 ^ (m' - 1)" using 2 by (intro power_increasing) simp_all
    ultimately have "xval M x n < xval M y m" by linarith
    moreover have "xin M x n'" "n' \<le> m" "xblk q \<noteq> xblk x" "xblk r \<noteq> xblk q" "xblk r \<noteq> xblk x"
      using xin_mono [OF i(2) n'(3)] 2 m'(3) blk by auto
    note div_small [OF i(1) this(1) i(4) this(2-)]
    ultimately show ?thesis
      unfolding len n'(4) using 2 xval_nonneg [of M x n'] by auto
  next
    case 3
    have le: "xin M x n'" "xin M y m'" "xin M tmp (n' + m' + 2)"
      using xin_mono [OF i(2) n'(3)] xin_mono [OF i(3) m'(3)] xin_mono [OF i(5), of "n' + m' + 2"] n' m' by simp_all
    have b: "xblk tmp \<noteq> xblk y" "xblk q \<noteq> xblk tmp" "xblk q \<noteq> xblk y" "xblk r \<noteq> xblk q" "xblk r \<noteq> xblk tmp" "xblk x \<noteq> xblk tmp"
      using blk by auto
    have "xdig M y (m' - 1) \<noteq> 0" using m'(5) 3 by auto
    from long_div_ok [OF 3 n'(3) m'(3) i(1) le(1,2) i(4) le(3) b this] show ?thesis
      unfolding len n'(4) m'(4) using 3 by auto
  qed
qed

subsection \<open>Numerals\<close>

definition char_digit :: "char \<Rightarrow> int" where
  "char_digit c = xp_map ! nat (of_char c - 48)"

definition is_digit :: "int \<Rightarrow> char \<Rightarrow> bool" where
  "is_digit base c \<longleftrightarrow> c_isalnum c \<and> char_digit c < base"

definition horner :: "int \<Rightarrow> int \<Rightarrow> string \<Rightarrow> int" where
  "horner base v cs = foldl (\<lambda>v c. v * base + char_digit c) v cs"

lemma horner_simps [simp]:
  "horner base v [] = v" "horner base v (c # cs) = horner base (v * base + char_digit c) cs"
  by (simp_all add: horner_def)

lemma alnum_range: "c_isalnum c \<Longrightarrow> 48 \<le> (of_char c :: int) \<and> (of_char c :: int) \<le> 122"
  by (auto simp: c_isalnum_def Let_def)

lemma digit_of_alnum: "c_isalnum c \<Longrightarrow> digit_of c = Inr (char_digit c)"
  using alnum_range [of c] by (auto simp: digit_of_def char_digit_def Let_def)

lemma digit_next_Cons: "digit_next base (c # p) = Inr (is_digit base c)"
  by (simp add: digit_next_def is_digit_def digit_of_alnum)

lemma length_xp_map: "length xp_map = 75"
  unfolding xp_map_def by simp

lemma xp_map_nonneg: "d \<in> set xp_map \<Longrightarrow> 0 \<le> d"
  unfolding xp_map_def by auto

lemma char_digit_nonneg: "c_isalnum c \<Longrightarrow> 0 \<le> char_digit c"
  unfolding char_digit_def using alnum_range [of c] by (intro xp_map_nonneg nth_mem) (auto simp: length_xp_map)

lemma horner_ge: "\<lbrakk>0 \<le> v; 1 \<le> base; \<forall>c\<in>set cs. is_digit base c\<rbrakk> \<Longrightarrow> v \<le> horner base v cs"
proof (induction cs arbitrary: v)
  case (Cons c cs)
  have "0 \<le> char_digit c" using Cons.prems by (simp add: char_digit_nonneg is_digit_def)
  moreover have "v * 1 \<le> v * base" using Cons.prems by (intro mult_left_mono) simp_all
  ultimately have "v \<le> v * base + char_digit c" by simp
  moreover have "v * base + char_digit c \<le> horner base (v * base + char_digit c) cs"
    using Cons.prems calculation by (intro Cons.IH) simp_all
  ultimately show ?case by simp
qed simp

text \<open>A numeral is added to what the array holds, as long as the result fits.\<close>

lemma fromstr_loop_ok:
  assumes "2 \<le> base" "base \<le> 36" "\<forall>c\<in>set cs. is_digit base c" "p = [] \<or> \<not> is_digit base (hd p)"
    "xin M z n" "horner base (xval M z n) cs < 256 ^ n"
  shows "fromstr_loop base (int n) z (cs @ p) carry M =
    Inr (if cs = [] then carry else 0, xstore M z n (horner base (xval M z n) cs))"
  using assms
proof (induction cs arbitrary: M carry)
  case Nil
  then show ?case by (cases p) (simp_all add: digit_next_Cons xstore_self)
next
  case (Cons c cs)
  let ?Z = "xval M z n" and ?d = "char_digit c"
  define V where "V = ?Z * base + ?d"
  have d: "0 \<le> ?d" "c_isalnum c" using Cons.prems by (simp_all add: char_digit_nonneg is_digit_def)
  have Z: "0 \<le> ?Z * base" using Cons.prems xval_nonneg [of M z n] by simp
  have "V \<le> horner base V cs" using Cons.prems Z d by (intro horner_ge) (simp_all add: V_def)
  then have V: "0 \<le> V" "V < 256 ^ n" "?Z * base < 256 ^ n" using Cons.prems d Z by (simp_all add: V_def)
  define M1 where "M1 = xstore M z n (?Z * base)"
  have p: "XP_product (int n) z z base M = Inr (0, M1)"
    using XP_product_eq [of M z n z base] Cons.prems V Z by (simp add: Let_def fwd_ok_def M1_def)
  have v1: "xval M1 z n = ?Z * base" "xin M1 z n" using Cons.prems V Z by (simp_all add: M1_def xval_xstore)
  have s: "XP_sum (int n) z z ?d M1 = Inr (0, xstore M z n V)"
    using XP_sum_eq [of M1 z n z ?d] v1 V d xstore_twice [of M z n "?Z * base" V] by (simp add: Let_def fwd_ok_def V_def [symmetric] M1_def)
  have v2: "xval (xstore M z n V) z n = V" using Cons.prems V by (simp add: xval_xstore)
  have "fromstr_loop base (int n) z (cs @ p) 0 (xstore M z n V) = Inr (0, xstore (xstore M z n V) z n (horner base V cs))"
    using Cons.IH [of "xstore M z n V" 0] Cons.prems by (simp add: v2 V_def [symmetric])
  then show ?case using Cons.prems d by (simp add: digit_next_Cons p s digit_of_alnum xstore_twice V_def)
qed

lemma XP_fromstr_ok:
  assumes "2 \<le> base" "base \<le> 36" "cs \<noteq> []" "\<forall>c\<in>set cs. is_digit base c" "p = [] \<or> \<not> is_digit base (hd p)"
    "\<forall>c\<in>set w. c_isspace c" "xin M z n" "horner base (xval M z n) cs < 256 ^ n"
  shows "XP_fromstr (int n) z (Some (w @ cs @ p)) base M = Inr (0, xstore M z n (horner base (xval M z n) cs))"
proof -
  have "\<not> c_isspace (hd cs)" "is_digit base (hd cs)"
    using assms(3,4) alnum_range [of "hd cs"] by (auto simp: is_digit_def c_isspace_def)
  then have "dropWhile c_isspace (w @ cs @ p) = cs @ p"
    using assms(3,6) by (subst dropWhile_append2) (auto simp: neq_Nil_conv)
  moreover have "digit_next base (cs @ p) = Inr True" using assms(3,4) by (auto simp: neq_Nil_conv digit_next_Cons)
  ultimately show ?thesis
    using fromstr_loop_ok [OF assms(1,2,4,5,7,8), of 0] assms(1-3) by (simp add: XP_fromstr_def assert_c_def)
qed

text \<open>The digits of a number in a base, the last one first.\<close>

function rev_digits :: "int \<Rightarrow> int \<Rightarrow> string" where
  "rev_digits base v =
     xp_digits ! nat (v mod base) # (if 2 \<le> base \<and> base \<le> v then rev_digits base (v div base) else [])"
  by pat_completeness auto
termination
  by (relation "measure (\<lambda>(base, v). nat v)") (auto simp: int_div_less_self)

declare rev_digits.simps [simp del]

lemma digit_char:
  assumes "0 \<le> d" "d < 36"
  shows "char_digit (xp_digits ! nat d) = d" "c_isalnum (xp_digits ! nat d)"
proof -
  have "\<forall>k<36. char_digit (xp_digits ! k) = int k \<and> c_isalnum (xp_digits ! k)"
    unfolding char_digit_def xp_map_def xp_digits_def c_isalnum_def by code_simp
  then show "char_digit (xp_digits ! nat d) = d" "c_isalnum (xp_digits ! nat d)"
    using assms by auto
qed

lemma rev_digits_ok:
  assumes "2 \<le> base" "base \<le> 36" "0 \<le> v"
  shows "horner base 0 (rev (rev_digits base v)) = v \<and> (\<forall>c\<in>set (rev_digits base v). is_digit base c)"
  using assms
proof (induction base v rule: rev_digits.induct)
  case (1 base v)
  let ?d = "v mod base"
  have d: "0 \<le> ?d" "?d < base" "?d < 36" using 1 by (auto intro: less_le_trans [OF pos_mod_bound])
  have dig: "char_digit (xp_digits ! nat ?d) = ?d" "is_digit base (xp_digits ! nat ?d)"
    using digit_char [of ?d] d by (simp_all add: is_digit_def)
  show ?case
  proof (cases "base \<le> v")
    case True
    then have "horner base 0 (rev (rev_digits base (v div base))) = v div base \<and> (\<forall>c\<in>set (rev_digits base (v div base)). is_digit base c)"
      using 1 by (simp add: pos_imp_zdiv_nonneg_iff)
    then show ?thesis using True 1 dig by (subst (1 2) rev_digits.simps) (simp add: horner_def)
  next
    case False
    then show ?thesis using 1 dig by (subst (1 2) rev_digits.simps) simp
  qed
qed

lemma top_pos: "\<lbrakk>xdig M y (m - 1) \<noteq> 0; 0 < m\<rbrakk> \<Longrightarrow> 0 < xval M y m"
  by (rule less_le_trans [OF _ top_digit]) simp_all

lemma str_put_mid: "str_put (a @ c # b) (int (length a)) d = (if b = [] \<and> c = CHR 0x00 \<and> d \<noteq> CHR 0x00 then Inl (Throw Array_bounds) else Inr (a @ d # b))"
  by (auto simp: str_put_def)

lemma xp_digits_not_nul: "\<lbrakk>0 \<le> d; d < 36\<rbrakk> \<Longrightarrow> xp_digits ! nat d \<noteq> CHR 0x00"
  using digit_char(2) [of d] alnum_range [of "xp_digits ! nat d"] by auto

lemma tostr_loop_ok:
  assumes "2 \<le> base" "base \<le> 36" "xin M x n" "0 < n" "v = xval M x n"
    "length b = length (rev_digits base v)" "c \<noteq> []" "int (length (a @ b @ c)) \<le> sz"
  shows "\<exists>N. tostr_loop base sz x (int n) (int (length a)) (a @ b @ c) M = Some (Inr (int (length (a @ b)), a @ rev_digits base v @ c, N))"
  using assms
proof (induction base v arbitrary: M n a b rule: rev_digits.induct)
  case (1 base v)
  let ?d = "v mod base"
  have d: "0 \<le> ?d" "?d < 36" using 1 by (auto intro: less_le_trans [OF pos_mod_bound])
  have v0: "0 \<le> v" "v < 256 ^ n" using 1 by (simp_all add: xval_nonneg xval_less)
  obtain e b' where b: "b = e # b'" using 1(7) by (cases b) (simp_all add: rev_digits.simps [of base v])
  let ?M = "xstore M x n (v div base)"
  have q: "XP_quotient (int n) x x base M = Inr (?d, ?M)"
    using XP_quotient_eq [of M x n x base] 1 by (simp add: bwd_ok_def)
  have vb: "0 \<le> v div base" "v div base \<le> v" using 1 v0 zdiv_mono2 [of v 1 base] by (simp_all add: pos_imp_zdiv_nonneg_iff)
  then have v1: "xval ?M x n = v div base" "xin ?M x n" using 1 v0 by (simp_all add: xval_xstore)
  have put: "bind_res (str_get xp_digits ?d) (str_put (a @ b @ c) (int (length a))) = Inr ((a @ [xp_digits ! nat ?d]) @ b' @ c)"
    using d 1(8) by (simp add: b str_get_def xp_digits_def [THEN arg_cong [of _ _ length]] str_put_mid)
  obtain k where k: "XP_length (int n) x ?M = Inr (int k)" "0 < k" "k \<le> n" "xval ?M x n = xval ?M x k" "k = 1 \<or> xdig ?M x (k - 1) \<noteq> 0"
    using XP_length_ok [OF v1(2) 1(5)] by metis
  have more: "(k > 1 \<or> xdig ?M x 0 \<noteq> 0) \<longleftrightarrow> base \<le> v"
  proof -
    have "0 < xval ?M x k \<longleftrightarrow> k > 1 \<or> xdig ?M x 0 \<noteq> 0"
    proof (cases "k = 1")
      case True
      then show ?thesis using uint_u8_pos [of "xdig ?M x 0"] by (auto simp: xval_Suc)
    next
      case False
      then have "0 < xval ?M x k" using k by (intro top_pos) auto
      then show ?thesis using False k by simp
    qed
    moreover have "0 < v div base \<longleftrightarrow> base \<le> v" using 1 by (simp add: pos_imp_zdiv_pos_iff)
    ultimately show ?thesis using k(4) v1(1) by simp
  qed
  have nx: "(if int k > 1 then Some (Inr True) else Some (bind_res (xp_read ?M x 0) (\<lambda>d. Inr (d \<noteq> 0)))) = Some (Inr (base \<le> v))"
    using more k(2) v1(2) xp_read_in [of ?M x n 0] 1(5) by (cases "k > 1") auto
  have lt: "int (length a) < sz" using 1(9) b by simp
  have step: "tostr_loop base sz x (int n) (int (length a)) (a @ b @ c) M =
      (if base \<le> v then tostr_loop base sz x (int k) (int (length a) + 1) ((a @ [xp_digits ! nat ?d]) @ b' @ c) ?M
       else Some (Inr (int (length a) + 1, (a @ [xp_digits ! nat ?d]) @ b' @ c, ?M)))"
    unfolding tostr_loop.simps [of base sz x "int n"] q using lt
    by (simp only: bind_ores_simps prod.case assert_o_def assert_c_def simp_thms if_True put k(1) nx)
  show ?case
  proof (cases "base \<le> v")
    case True
    have r: "rev_digits base v = xp_digits ! nat ?d # rev_digits base (v div base)"
      using True 1 by (subst rev_digits.simps) simp
    have "\<exists>N. tostr_loop base sz x (int k) (int (length (a @ [xp_digits ! nat ?d]))) ((a @ [xp_digits ! nat ?d]) @ b' @ c) ?M =
        Some (Inr (int (length ((a @ [xp_digits ! nat ?d]) @ b')), (a @ [xp_digits ! nat ?d]) @ rev_digits base (v div base) @ c, N))"
      using 1 b r True k v1 xin_mono [OF v1(2) k(3)] by (intro 1(1)) simp_all
    then show ?thesis using True step by (simp add: r b add_ac)
  next
    case False
    then have "rev_digits base v = [xp_digits ! nat ?d]" using 1 by (subst rev_digits.simps) simp
    then show ?thesis using False step 1(7) b by simp
  qed
qed

lemma str_get_mid: "str_get (a @ c # b) (int (length a)) = Inr c"
  by (simp add: str_get_def)

lemma reverse_loop_ok: "t \<noteq> [] \<Longrightarrow> reverse_loop (length p) (length (p @ w)) (p @ w @ t) = Inr (p @ rev w @ t)"
proof (induction "length w" arbitrary: p w t rule: less_induct)
  case less
  show ?case
  proof (cases "length w \<le> 1")
    case True
    then have "rev w = w" by (cases w) auto
    moreover have "reverse_loop (length p) (length (p @ w)) (p @ w @ t) = Inr (p @ w @ t)"
      using True by (cases "length (p @ w)") auto
    ultimately show ?thesis by simp
  next
    case False
    then obtain c w1 where w1: "w = c # w1" "w1 \<noteq> []" by (cases w) auto
    then obtain w' d where w: "w = c # w' @ [d]" by (metis rev_exhaust)
    let ?j = "length (p @ c # w')"
    have e: "length (p @ w) = Suc ?j" "p @ w @ t = p @ c # w' @ d # t" "p @ w @ t = (p @ c # w') @ d # t" by (simp_all add: w)
    have put: "str_put (p @ w @ t) (int (length p)) d = Inr (p @ d # w' @ d # t)" "str_put (p @ d # w' @ d # t) (int ?j) c = Inr (p @ d # w' @ c # t)"
      using str_put_mid [of p c "w' @ d # t" d] str_put_mid [of "p @ d # w'" d t c] less.prems by (simp_all add: w)
    have get: "str_get (p @ w @ t) (int (length p)) = Inr c" "str_get (p @ w @ t) (int ?j) = Inr d"
      using str_get_mid [of p c "w' @ d # t"] str_get_mid [of "p @ c # w'" d t] by (simp_all add: w)
    have "reverse_loop (length p) (length (p @ w)) (p @ w @ t) = reverse_loop (Suc (length p)) ?j (p @ d # w' @ c # t)"
      unfolding e(1) reverse_loop.simps get put bind_res_Inr by simp
    also have "\<dots> = Inr ((p @ [d]) @ rev w' @ (c # t))"
      using less.hyps [of w' "c # t" "p @ [d]"] by (simp add: w)
    finally show ?thesis by (simp add: w)
  qed
qed

lemma XP_tostr_ok:
  assumes "2 \<le> base" "base \<le> 36" "xin M x n" "0 < n" "length (rev_digits base (xval M x n)) < length str"
  shows "\<exists>N. XP_tostr (Some str) (int (length str)) base (int n) x M =
    Some (Inr (rev (rev_digits base (xval M x n)) @ CHR 0x00 # drop (Suc (length (rev_digits base (xval M x n)))) str, N))"
proof -
  let ?ds = "rev_digits base (xval M x n)"
  define b where "b = take (length ?ds) str"
  obtain e c where c: "drop (length ?ds) str = e # c" using assms(5) by (cases "drop (length ?ds) str") auto
  have str: "str = b @ e # c" "length b = length ?ds" using c assms(5) by (simp_all add: b_def flip: c)
  from tostr_loop_ok [OF assms(1-4) refl str(2), of "e # c" "[]" "int (length str)"]
  obtain N where N: "tostr_loop base (int (length str)) x (int n) 0 str M = Some (Inr (int (length ?ds), ?ds @ e # c, N))"
    using str by auto
  have p: "str_put (?ds @ e # c) (int (length ?ds)) (CHR 0x00) = Inr (?ds @ CHR 0x00 # c)" by (simp add: str_put_mid)
  have r: "reverse_loop 0 (length ?ds) (?ds @ CHR 0x00 # c) = Inr (rev ?ds @ CHR 0x00 # c)"
    using reverse_loop_ok [of "CHR 0x00 # c" "[]" ?ds] by simp
  have "c = drop (Suc (length ?ds)) str" using c by (metis drop_Suc drop_tl list.sel(3))
  then show ?thesis using assms(1,2,5) N p r
    by (simp add: XP_tostr_def assert_o_def assert_c_def)
qed

lemma fromstr_tostr:
  assumes "2 \<le> base" "base \<le> 36" "0 \<le> v" "xin K z k" "xval K z k = 0" "v < 256 ^ k"
  shows "XP_fromstr (int k) z (Some (takeWhile (\<lambda>c. c \<noteq> CHR 0x00) (rev (rev_digits base v) @ CHR 0x00 # s))) base K = Inr (0, xstore K z k v)"
proof -
  let ?cs = "rev (rev_digits base v)"
  have d: "horner base 0 ?cs = v" "\<forall>c\<in>set ?cs. is_digit base c" using rev_digits_ok [OF assms(1-3)] by simp_all
  then have "\<forall>c\<in>set ?cs. c \<noteq> CHR 0x00" using alnum_range [of "CHR 0x00"] by (auto simp: is_digit_def)
  then have "takeWhile (\<lambda>c. c \<noteq> CHR 0x00) (?cs @ CHR 0x00 # s) = [] @ ?cs @ []" by (simp add: takeWhile_append)
  moreover have "?cs \<noteq> []" by (simp add: rev_digits.simps [of base v])
  ultimately show ?thesis
    using XP_fromstr_ok [OF assms(1,2) _ d(2), of "[]" "[]" K z k] assms d by simp
qed

definition xp_at :: "nat \<Rightarrow> xp_t" where
  "xp_at b = \<lparr>xblk = b, xoff = 0\<rparr>"

definition xmem_demo :: xmem where
  "xmem_demo b = (if b < 6 then [[0, 0, 0], [], [3, 1], [0, 0], replicate 8 0, [7, 2, 1]] ! b else [])"

lemma xp_demo_in:
  "xin xmem_demo (xp_at 0) 3" "xin xmem_demo (xp_at 5) 3" "xin xmem_demo (xp_at 5) 2" "xin xmem_demo (xp_at 2) 2"
  "xin xmem_demo (xp_at 3) 2" "xin xmem_demo (xp_at 4) 5" "xin xmem_demo (xp_at 4) 7"
  by (code_simp, simp?)+

lemma xp_demo_val:
  "xval xmem_demo (xp_at 5) 3 = 66055" "xval xmem_demo (xp_at 5) 2 = 519" "xval xmem_demo (xp_at 2) 2 = 259"
  "xval xmem_demo (xp_at 4) 5 = 0" "xval xmem_demo (xp_at 0) 3 = 0"
  by (code_simp, simp?)+

lemma xblk_xp_at [simp]: "xblk (xp_at b) = b"
  by (simp add: xp_at_def)

text \<open>C21: \<open>XP_div\<close> divides: it never fails; for a divisor 0 it returns 0 and changes nothing, and for every other one it returns
  1, the arrays \<open>q\<close> and \<open>r\<close> hold the quotient and the remainder, and all other arrays but \<open>tmp\<close> keep their digits.\<close>

theorem XP_div_correct:
  assumes n: "0 < n" "0 < m" and i: "xin M q n" "xin M x n" "xin M y m" "xin M r m" "xin M tmp (n + m + 2)"
    and blk: "distinct [xblk q, xblk r, xblk tmp]" "xblk x \<notin> {xblk q, xblk r, xblk tmp}" "xblk y \<notin> {xblk q, xblk r, xblk tmp}"
  shows "\<exists>c N. XP_div (int n) q x (int m) y r tmp M = Inr (c, N) \<and>
    (if xval M y m = 0 then c = 0 \<and> N = M
     else c = 1 \<and> xval N q n = xval M x n div xval M y m \<and> xval N r m = xval M x n mod xval M y m \<and>
       (\<forall>b. b \<notin> {xblk q, xblk r, xblk tmp} \<longrightarrow> N b = M b))"
proof (cases "xval M y m = 0")
  case True
  obtain n' where n': "XP_length (int n) x M = Inr (int n')" using XP_length_ok [OF i(2) n(1)] by metis
  obtain m' where m': "XP_length (int m) y M = Inr (int m')" "0 < m'" "xval M y m = xval M y m'" "m' = 1 \<or> xdig M y (m' - 1) \<noteq> 0"
    using XP_length_ok [OF i(3) n(2)] by metis
  then have "m' = 1" using top_pos [of M y m'] True by auto
  moreover from this have "xdig M y 0 = 0" using True m'(3) by (simp add: xval_Suc word_uint_eq_iff)
  moreover have "xin M y 1" using xin_mono [OF i(3), of 1] n by simp
  ultimately show ?thesis using True n' m'(1) by (simp add: XP_div_def xp_read_in [of M y 1 0, simplified])
next
  case False
  then show ?thesis using XP_div_ok [OF assms] by auto
qed

theorem XP_div_correct_witness:
  "\<exists>N. XP_div 3 (xp_at 0) (xp_at 5) 2 (xp_at 2) (xp_at 3) (xp_at 4) xmem_demo = Inr (1, N) \<and>
     xval N (xp_at 0) 3 = 255 \<and> xval N (xp_at 3) 2 = 10"
  using XP_div_correct [of 3 2 xmem_demo "xp_at 0" "xp_at 5" "xp_at 2" "xp_at 3" "xp_at 4"]
  by (auto simp: xp_demo_in xp_demo_val)

text \<open>\<open>XP_mul\<close> adds the product of two numbers to a third one, digit by digit, and the carry it returns is the
  one digit of the result that does not fit; the numbers multiplied may not overlap the result.\<close>

theorem XP_mul_exact:
  assumes "xin M z (n + m)" "xin M x n" "xin M y m" "xdisj z (n + m) x n" "xdisj z (n + m) y m"
  shows "\<exists>c N. XP_mul z (int n) x (int m) y M = Inr (c, N) \<and>
    xval N z (n + m) + uint c * 256 ^ (n + m) = xval M z (n + m) + xval M x n * xval M y m \<and>
    (\<forall>b. b \<noteq> xblk z \<longrightarrow> N b = M b)"
proof -
  define V where "V = xval M z (n + m) + xval M x n * xval M y m"
  let ?B = "256 ^ (n + m) :: int"
  have "xval M x n * xval M y m \<le> 256 ^ n * 256 ^ m"
    using xval_less [of M x n] xval_less [of M y m] by (intro mult_mono) (auto simp: xval_nonneg)
  then have V: "0 \<le> V" "V < 2 * ?B"
    using xval_less [of M z "n + m"] by (auto simp: V_def xval_nonneg power_add)
  have "0 \<le> V mod ?B" "?B * (V div ?B) + V mod ?B = V" by simp_all
  then have "?B * (V div ?B) < ?B * 2" using V by linarith
  then have c: "V div ?B < 2" "0 \<le> V div ?B" using V by (simp_all add: pos_imp_zdiv_nonneg_iff)
  then have "uint (of_int (V div ?B) :: u32) = V div ?B" by (simp add: unsigned_of_int take_bit_int_eq_self)
  moreover have "V mod ?B + V div ?B * ?B = V" by (rule mod_div_mult_eq)
  ultimately show ?thesis
    using XP_mul_eq [OF assms] assms(1) by (simp add: Let_def V_def [symmetric] xval_xstore xstore_frame)
qed

theorem XP_mul_exact_witness:
  "\<exists>c N. XP_mul (xp_at 4) 3 (xp_at 5) 2 (xp_at 2) xmem_demo = Inr (c, N) \<and> xval N (xp_at 4) 5 + uint c * 256 ^ 5 = 66055 * 259"
  using XP_mul_exact [of xmem_demo "xp_at 4" 3 2 "xp_at 5" "xp_at 2"]
  by (auto simp: xp_demo_in xp_demo_val xdisj_def)

text \<open>\<open>XP_sub\<close> undoes \<open>XP_add\<close>: subtracting \<open>y\<close> and the carry in from the sum gives back the digits of \<open>x\<close>, and the
  borrow out is the carry out.\<close>

theorem XP_add_sub:
  assumes "xin M z n" "xin M x n" "xin M y n" "fwd_ok z x" "xblk y \<noteq> xblk z" "c = 0 \<or> c = 1"
  shows "\<exists>c' N N'. XP_add (int n) z x y c M = Inr (c', N) \<and> XP_sub (int n) z z y c N = Inr (c', N') \<and>
    xval N z n + c' * 256 ^ n = xval M x n + xval M y n + c \<and> xval N' z n = xval M x n"
proof -
  define V where "V = xval M x n + xval M y n + c"
  define N where "N = xstore M z n V"
  let ?B = "256 ^ n :: int"
  have a: "XP_add (int n) z x y c M = Inr (V div ?B, N)"
    using XP_add_eq [of M z n x y c] assms by (auto simp: fwd_ok_def Let_def V_def N_def)
  have v: "xval N z n = V mod ?B" "xval N y n = xval M y n" using assms by (simp_all add: N_def xval_xstore xstore_other)
  define W where "W = V mod ?B - xval M y n - c"
  have W: "W = xval M x n + - (V div ?B) * ?B" using div_mult_mod_eq [of V ?B] by (simp add: W_def V_def)
  have "XP_sub (int n) z z y c N = Inr (- (W div ?B), xstore N z n W)"
    using XP_sub_eq [of N z n z y c] assms by (auto simp: fwd_ok_def Let_def v W_def) (simp_all add: N_def)
  moreover have "W div ?B = - (V div ?B)" "W mod ?B = xval M x n"
    unfolding W using xval_less [of M x n] xval_nonneg [of M x n]
    by (simp_all only: div_mult_self1 mod_mult_self1) simp_all
  moreover have "V mod ?B + V div ?B * ?B = V" by (rule mod_div_mult_eq)
  ultimately show ?thesis using a v assms(1) by (auto simp: V_def [symmetric] N_def xval_xstore)
qed

theorem XP_add_sub_witness:
  "\<exists>c' N N'. XP_add 2 (xp_at 5) (xp_at 5) (xp_at 2) 1 xmem_demo = Inr (c', N) \<and> XP_sub 2 (xp_at 5) (xp_at 5) (xp_at 2) 1 N = Inr (c', N') \<and>
    xval N (xp_at 5) 2 + c' * 256 ^ 2 = 779 \<and> xval N' (xp_at 5) 2 = 519"
  using XP_add_sub [of xmem_demo "xp_at 5" 2 "xp_at 5" "xp_at 2" 1]
  by (simp add: xp_demo_in xp_demo_val fwd_ok_def)

text \<open>a number printed by \<open>XP_tostr\<close> is read back by \<open>XP_fromstr\<close>: the string in the buffer, up to its zero byte, gives the same
  number in an array of zeros long enough for it, in every base from 2 to 36.\<close>

theorem XP_tostr_fromstr:
  assumes "2 \<le> base" "base \<le> 36" "xin M x n" "0 < n" "length (rev_digits base (xval M x n)) < length str"
    "xin K z k" "xval K z k = 0" "xval M x n < 256 ^ k"
  shows "\<exists>s N K'. XP_tostr (Some str) (int (length str)) base (int n) x M = Some (Inr (s, N)) \<and>
    XP_fromstr (int k) z (Some (takeWhile (\<lambda>c. c \<noteq> CHR 0x00) s)) base K = Inr (0, K') \<and> xval K' z k = xval M x n"
proof -
  obtain N where "XP_tostr (Some str) (int (length str)) base (int n) x M =
      Some (Inr (rev (rev_digits base (xval M x n)) @ CHR 0x00 # drop (Suc (length (rev_digits base (xval M x n)))) str, N))"
    using XP_tostr_ok [OF assms(1-5)] by blast
  then show ?thesis
    using fromstr_tostr [OF assms(1,2) xval_nonneg assms(6-8)] assms(6,8) xval_nonneg [of M x n] by (simp add: xval_xstore)
qed

theorem XP_tostr_fromstr_witness:
  "\<exists>s N K'. XP_tostr (Some (replicate 8 (CHR 0x00))) 8 10 3 (xp_at 5) xmem_demo = Some (Inr (s, N)) \<and>
    XP_fromstr 3 (xp_at 0) (Some (takeWhile (\<lambda>c. c \<noteq> CHR 0x00) s)) 10 xmem_demo = Inr (0, K') \<and> xval K' (xp_at 0) 3 = 66055"
proof -
  have "rev_digits 10 66055 = ''55066''" unfolding xp_digits_def by code_simp
  then show ?thesis
    using XP_tostr_fromstr [of 10 xmem_demo "xp_at 5" 3 "replicate 8 (CHR 0x00)" xmem_demo "xp_at 0" 3]
    by (simp add: xp_demo_in xp_demo_val)
qed


lemma xp_demo_dig [simp]: "xdig xmem_demo (xp_at 0) 0 = 0"
  by code_simp


text \<open>\<open>XP_fromstr\<close> reports a number too large for the array as a carry only when the multiplication overflows; when the addition
  of the last digit does, it returns 0 and the array holds the number modulo its size.\<close>

theorem XP_fromstr_overflow:
  "case XP_fromstr 1 (xp_at 0) (Some ''256'') 10 (\<lambda>_. [0]) of Inr (c, N) \<Rightarrow> c = 0 \<and> xval N (xp_at 0) 1 = 0 | Inl _ \<Rightarrow> False"
  by code_simp

subsection \<open>Machine integers and shifts\<close>

lemma u32_of_int_uint: "0 \<le> v \<Longrightarrow> v < 2 ^ 32 \<Longrightarrow> uint (of_int v :: u32) = v"
  by (simp add: unsigned_of_int take_bit_int_eq_self)

declare fromint_loop.simps [simp del]

lemma fromint_loop_ok:
  assumes "i < n" "xin M z n" "0 \<le> U" "U < 2 ^ 32"
  defines "g \<equiv> \<lambda>j. of_int (U div 256 ^ j)"
  shows "\<exists>k. fromint_loop (int n) z (int i) (of_int (U div 256 ^ i)) (xset M z {..<i} g) =
      Inr (of_int (U div 256 ^ k), int k, xset M z {..<k} g) \<and> k \<le> n \<and> (k = n \<or> U div 256 ^ k = 0)"
  using assms(1)
proof (induction "n - i" arbitrary: i)
  case (Suc l)
  let ?v = "U div 256 ^ i"
  have v: "0 \<le> ?v" "?v < 2 ^ 32" using assms(3,4) zdiv_mono2 [of U 1 "256 ^ i"] by (simp_all add: pos_imp_zdiv_nonneg_iff)
  note dg = u32_digit [OF v]
  have d: "?v div 256 = U div 256 ^ Suc i" by (simp add: zdiv_zmult2_eq [symmetric] mult.commute)
  have vd: "0 \<le> ?v div 256" "?v div 256 < 2 ^ 32" using v zdiv_mono2 [of ?v 1 256] by simp_all
  have w: "xp_write (xset M z {..<i} g) z (int i) (ucast ((of_int ?v :: u32) mod 256)) = Inr (xset M z {..<Suc i} g)"
    using Suc.prems assms(2) by (simp add: xp_write_in [of _ _ n] dg(2) xset_put g_def lessThan_Suc)
  have pos: "(0 < (of_int (?v div 256) :: u32)) \<longleftrightarrow> ?v div 256 \<noteq> 0"
    using u32_of_int_uint [OF vd] vd by (auto simp: word_less_def)
  have step: "fromint_loop (int n) z (int i) (of_int ?v) (xset M z {..<i} g) =
      (if U div 256 ^ Suc i \<noteq> 0 \<and> Suc i < n then fromint_loop (int n) z (int (Suc i)) (of_int (U div 256 ^ Suc i)) (xset M z {..<Suc i} g)
       else Inr (of_int (U div 256 ^ Suc i), int (Suc i), xset M z {..<Suc i} g))"
    using pos by (subst fromint_loop.simps) (simp add: w dg(1) Let_def d add.commute [of 1] del: power_Suc)
  show ?case
  proof (cases "U div 256 ^ Suc i \<noteq> 0 \<and> Suc i < n")
    case True
    have l: "l = n - Suc i" using Suc.hyps(2) by simp
    from Suc.hyps(1) [OF l] True show ?thesis unfolding step by simp
  next
    case False
    then show ?thesis unfolding step using Suc.prems by (intro exI [of _ "Suc i"]) auto
  qed
qed simp

lemma XP_fromint_eq:
  assumes "0 < n" "xin M z n"
  shows "XP_fromint (int n) z u M = Inr (of_int (uint u div 256 ^ n), xstore M z n (uint u))"
proof -
  define g :: "nat \<Rightarrow> u8" where "g j = of_int (uint u div 256 ^ j)" for j
  from fromint_loop_ok [OF assms, of "uint u"] obtain k where
    k: "fromint_loop (int n) z 0 u M = Inr (of_int (uint u div 256 ^ k), int k, xset M z {..<k} g)" "k \<le> n" "k = n \<or> uint u div 256 ^ k = 0"
    using uint_bounded [of u] by (auto simp: g_def [abs_def])
  have f: "for_up (\<lambda>i M. xp_write M z i 0) (int k) (n - k) (xset M z {..<k} g) = Inr (xset (xset M z {..<k} g) z {k..<n} (\<lambda>_. 0))"
    using for_up_fill [of "xset M z {..<k} g" z k "n - k" 0] k(2) assms(2) by simp
  have x: "xset M z {..<k} g = xstore M z k (uint u)" by (simp add: xstore_def g_def [abs_def])
  show ?thesis
  proof (cases "k = n")
    case True
    then show ?thesis using k(1) f by (simp add: XP_fromint_def x [unfolded True])
  next
    case False
    then have "uint u div 256 ^ k = 0" using k by simp
    then have "uint u < 256 ^ k \<or> uint u = 0" by (auto simp add: zdiv_eq_0_iff)
    then have u: "uint u < 256 ^ k" by auto
    moreover have "uint u < 256 ^ n" by (rule less_le_trans [OF u power_increasing [OF k(2)]]) simp
    moreover have "nat (int n - int k) = n - k" by simp
    ultimately show ?thesis using k(1,2) f by (simp add: XP_fromint_def x xstore_ext)
  qed
qed

lemma XP_toint_eq:
  assumes "xin M x n"
  shows "XP_toint (int n) x M = Inr (of_int (xval M x (min n 4)))"
proof -
  define k where "k = min n 4"
  define S :: "nat \<Rightarrow> u32" where "S t = of_int (xval M x k div 256 ^ (k - t))" for t
  have "for_down (\<lambda>i u. bind_res (xp_read M x i) (\<lambda>d. Inr (256 * u + ucast d))) (int k - 1) k (S 0) = Inr (S k)"
  proof (rule for_down_seq, goal_cases)
    case (1 t)
    define i where "i = k - Suc t"
    have i: "i < k" "int k - 1 - int t = int i" "k - t = Suc i" "k - Suc t = i" using 1 by (auto simp: i_def)
    have "xval M x k div 256 ^ i = 256 * (xval M x k div 256 ^ Suc i) + uint (xdig M x i)"
      using xval_div_step [OF i(1), of M x] by simp
    then have "S (Suc t) = 256 * S t + ucast (xdig M x i)" by (simp add: S_def i del: power_Suc)
    then show ?case using assms i by (simp add: xp_read_in [of _ _ n] k_def)
  qed
  moreover have "S 0 = 0" using xval_less [of M x k] xval_nonneg [of M x k] by (simp add: S_def)
  moreover have "(if 4 > int n then int n else 4) = int k" by (simp add: k_def)
  ultimately show ?thesis unfolding XP_toint_def Let_def by (simp add: S_def k_def)
qed

lemma for_down_set:
  assumes "k \<le> b" "xin M z b"
    and "\<And>i A. \<lbrakk>b - k \<le> i; i < b; A \<subseteq> {Suc i..<b}\<rbrakk> \<Longrightarrow> body (int i) (xset M z A g) = xp_write (xset M z A g) z (int i) (g i)"
  shows "for_down body (int b - 1) k M = Inr (xset M z {b - k..<b} g)"
proof -
  have "for_down body (int b - 1) k (xset M z {b - 0..<b} g) = Inr (xset M z {b - k..<b} g)"
  proof (rule for_down_seq, goal_cases)
    case (1 t)
    define i where "i = b - Suc t"
    have i: "int b - 1 - int t = int i" "b - t = Suc i" "b - Suc t = i" "b - k \<le> i" "i < b" using 1 assms(1) by (auto simp: i_def)
    have "insert i {Suc i..<b} = {i..<b}" using i by auto
    then show ?case
      using assms(3) [of i "{Suc i..<b}"] i assms(2) xset_insert [of M z "{Suc i..<b}" g i]
      by (simp add: xp_write_in [of _ _ b])
  qed
  then show ?thesis by simp
qed

lemma sdiv_smod_8: "(int s) sdiv 8 = int (s div 8)" "(int s) smod 8 = int (s mod 8)"
  by (cases "s = 0"; simp add: signed_divide_int_def signed_modulo_int_def zdiv_int zmod_int)+

text \<open>A shift to the left, into an array that takes the digits shifted by whole bytes.\<close>

lemma XP_lshift_eq:
  assumes n: "m + s div 8 \<le> n" "0 < n" and i: "xin M z n" "xin M x m" "xblk z \<noteq> xblk x"
  shows "\<exists>N. XP_lshift (int n) z (int m) x (int s) 0 M = Inr N \<and> xval N z n = xval M x m * 2 ^ s mod 256 ^ n \<and> (\<forall>b. b \<noteq> xblk z \<longrightarrow> N b = M b)"
proof -
  define a r where "a = s div 8" and "r = s mod 8"
  define h where "h j = xdig M x (j - a)" for j
  define N1 where "N1 = xset M z {m + a..<n} (\<lambda>_. 0)"
  define N2 where "N2 = xset N1 z {a..<m + a} h"
  define N3 where "N3 = xset N2 z {..<a} (\<lambda>_. 0)"
  have a: "m + a \<le> n" using n by (simp add: a_def)
  have inN: "xin N1 z n" "xin N2 z n" "xin N3 z n" using i by (simp_all add: N1_def N2_def N3_def)
  have s: "s = 8 * a + r" "r < 8" by (simp_all add: a_def r_def)
  have l1: "for_down (\<lambda>j M. xp_write M z j 0) (int n - 1) (nat (int n - (int m + int a))) M = Inr N1"
  proof -
    have "nat (int n - (int m + int a)) = n - (m + a)" using a by linarith
    then show ?thesis using for_down_set [of "n - (m + a)" n M z "\<lambda>j M. xp_write M z j 0" "\<lambda>_. 0"] i a by (simp add: N1_def)
  qed
  have l2: "for_down (\<lambda>k M. bind_res (xp_read M x k) (\<lambda>d. xp_write M z (k + int a) d)) (int m - 1) m N1 = Inr N2"
  proof -
    have "xin N1 (xp_plus z (int a)) m" using inN a by (intro xin_plus [of _ _ n]) simp_all
    moreover have "bind_res (xp_read (xset N1 (xp_plus z (int a)) A (xdig M x)) x (int k)) (\<lambda>d. xp_write (xset N1 (xp_plus z (int a)) A (xdig M x)) z (int k + int a) d)
        = xp_write (xset N1 (xp_plus z (int a)) A (xdig M x)) (xp_plus z (int a)) (int k) (xdig M x k)" if "k < m" for k A
      using that i by (simp add: xp_read_in [of _ _ m] xdig_other xp_plus_def N1_def add.commute [of "int k"] xp_write_plus [unfolded xp_plus_def])
    ultimately have "for_down (\<lambda>k M. bind_res (xp_read M x k) (\<lambda>d. xp_write M z (k + int a) d)) (int m - 1) m N1 =
        Inr (xset N1 (xp_plus z (int a)) {..<m} (xdig M x))"
      using for_down_set [of m m N1 "xp_plus z (int a)"] by (simp add: lessThan_atLeast0)
    also have "xset N1 (xp_plus z (int a)) {..<m} (xdig M x) = N2"
    proof -
      have "nat (k - (xoff z + int a)) = nat (k - xoff z) - a" for k by linarith
      then show ?thesis unfolding N2_def by (intro ext) (auto simp: xset_def Let_def xp_plus_def h_def)
    qed
    finally show ?thesis .
  qed
  have l3: "for_down (\<lambda>j M. xp_write M z j 0) (int a - 1) a N2 = Inr N3"
    using for_down_set [of a a N2 z "\<lambda>j M. xp_write M z j 0" "\<lambda>_. 0"] xin_mono [OF inN(2), of a] a by (simp add: N3_def lessThan_atLeast0)
  have dig: "xdig N3 z j = (if j < a \<or> m + a \<le> j then 0 else h j)" if "j < n" for j
    using that inN i a by (simp add: N3_def N2_def N1_def xdig_xset_same xin_mono)
  have v3: "xval N3 z n = xval M x m * 256 ^ a"
  proof -
    have "xval N3 z a = 0" "xval N3 (xp_plus (xp_plus z (int a)) (int m)) (n - (a + m)) = 0"
      using a dig by (simp_all add: xval_def xdig_plus)
    moreover have "xval N3 (xp_plus z (int a)) m = xval M x m"
      using a dig by (intro xval_cong) (simp add: xdig_plus h_def)
    ultimately have "xval N3 z (a + (m + (n - (a + m)))) = xval M x m * 256 ^ a"
      unfolding xval_split by simp
    then show ?thesis using a by simp
  qed
  have e: "(if int m < int n then int m - 1 else int n - int a - 1) = int m - 1" "min (int n - 1) (int m + int a - 1) = int m + int a - 1"
    "int m + int a - 1 - (int m - 1) = int a" "int m + int a - 1 - max 0 (int m - 1 + 1) = int a - 1" using a by auto
  have L: "XP_lshift (int n) z (int m) x (int s) 0 M =
      (if 0 < r then bind_res (XP_product (int n) z z (2 ^ r) N3) (\<lambda>(_, M). bind_res (xp_read M z 0) (\<lambda>d. xp_write M z 0 d)) else Inr N3)"
    unfolding XP_lshift_def Let_def sdiv_smod_8 a_def [symmetric] r_def [symmetric] e by (simp add: l1 l2 l3)
  have s2: "xval M x m * 2 ^ s = xval N3 z n * 2 ^ r" by (simp add: v3 s(1) power_add power_mult mult.assoc)
  have fr: "N3 b = M b" if "b \<noteq> xblk z" for b using that by (simp add: N3_def N2_def N1_def xset_frame)
  show ?thesis
  proof (cases "0 < r")
    case True
    define N4 where "N4 = xstore N3 z n (xval N3 z n * 2 ^ r)"
    have "(2 :: int) ^ r \<le> 2 ^ 8" using s(2) by (intro power_increasing) simp_all
    then have p: "XP_product (int n) z z (2 ^ r) N3 = Inr (xval N3 z n * 2 ^ r div 256 ^ n, N4)"
      using XP_product_eq [OF inN(3,3), of "2 ^ r"] by (simp add: fwd_ok_def N4_def Let_def)
    have "xin N4 z n" using inN by (simp add: N4_def)
    then have w: "bind_res (xp_read N4 z 0) (\<lambda>d. xp_write N4 z 0 d) = Inr (xset N4 z {0} (\<lambda>_. xdig N4 z 0))"
      using n(2) xp_read_in [of N4 z n 0] xp_write_in [of N4 z n 0] by simp
    have "xval (xset N4 z {0} (\<lambda>_. xdig N4 z 0)) z n = xval N4 z n"
      using \<open>xin N4 z n\<close> by (intro xval_cong) (simp add: xdig_xset_same xin_mono)
    also have "\<dots> = xval N3 z n * 2 ^ r mod 256 ^ n" using inN by (simp add: N4_def xval_xstore)
    finally show ?thesis using L p w True s2 fr by (simp add: xset_frame N4_def xstore_frame)
  next
    case False
    then show ?thesis using L s2 fr xval_less [of N3 z n] xval_nonneg [of N3 z n] by simp
  qed
qed

lemma rewrite_digit:
  assumes "xin N z n" "i < n"
  shows "bind_res (xp_read N z (int i)) (\<lambda>d. xp_write N z (int i) d) = Inr (xset N z {i} (\<lambda>_. xdig N z i))"
    and "xval (xset N z {i} (\<lambda>_. xdig N z i)) z n = xval N z n"
proof -
  show "bind_res (xp_read N z (int i)) (\<lambda>d. xp_write N z (int i) d) = Inr (xset N z {i} (\<lambda>_. xdig N z i))"
    using assms by (simp add: xp_read_in [of _ _ n] xp_write_in [of _ _ n])
  show "xval (xset N z {i} (\<lambda>_. xdig N z i)) z n = xval N z n"
    using assms by (intro xval_cong) (simp add: xdig_xset_same xin_mono)
qed

lemma XP_rshift_eq:
  assumes n: "m - s div 8 \<le> n" "0 < n" and i: "xin M z n" "xin M x m" "xblk z \<noteq> xblk x"
  shows "\<exists>N. XP_rshift (int n) z (int m) x (int s) 0 M = Inr N \<and> xval N z n = xval M x m div 2 ^ s \<and> (\<forall>b. b \<noteq> xblk z \<longrightarrow> N b = M b)"
proof -
  define a r where "a = s div 8" and "r = s mod 8"
  have s: "s = 8 * a + r" "r < 8" by (simp_all add: a_def r_def)
  define c where "c = m - a"
  have c: "c \<le> n" "max 0 (min (int m - int a) (int n)) = int c" using n by (auto simp: c_def a_def)
  define N1 where "N1 = xset M z {..<c} (\<lambda>j. xdig M x (a + j))"
  define N2 where "N2 = xset N1 z {c..<n} (\<lambda>_. 0)"
  have inN: "xin N1 z n" "xin N2 z n" using i by (simp_all add: N1_def N2_def)
  have l1: "for_up (\<lambda>j M. bind_res (xp_read M x (j + int a)) (\<lambda>d. xp_write M z j d)) 0 c M = Inr N1"
  proof -
    have "for_up (\<lambda>j M. bind_res (xp_read M x (j + int a)) (\<lambda>d. xp_write M z j d)) 0 c (xset M z {..<0} (\<lambda>j. xdig M x (a + j))) = Inr N1"
      unfolding N1_def
    proof (rule for_up_seq, goal_cases)
      case (1 j)
      then have "a + j < m" by (simp add: c_def)
      then have "xp_read (xset M z {..<j} (\<lambda>j. xdig M x (a + j))) x (int j + int a) = Inr (xdig M x (a + j))"
        using i xp_read_in [of "xset M z {..<j} (\<lambda>j. xdig M x (a + j))" x m "a + j"] by (simp add: xdig_other add.commute)
      then show ?case using 1 c(1) i by (simp add: xp_write_in [of _ _ n] xset_put lessThan_Suc)
    qed
    then show ?thesis by simp
  qed
  have l2: "for_up (\<lambda>j M. xp_write M z j 0) (int c) (n - c) N1 = Inr N2"
    using for_up_fill [of N1 z c "n - c" 0] inN c by (simp add: N2_def)
  have v2: "xval N2 z n = xval M x m div 256 ^ a"
  proof -
    have "xval N2 z c = xval M (xp_plus x (int a)) c"
      using i c by (intro xval_cong) (simp add: N2_def N1_def xdig_xset_same xin_mono xdig_plus)
    moreover have "xval N2 (xp_plus z (int c)) (n - c) = 0"
    proof -
      have "xdig N2 z (c + j) = 0" if "j < n - c" for j
      proof -
        have "c + j < n" using that by linarith
        then show ?thesis using inN by (simp add: N2_def xdig_xset_same xin_mono)
      qed
      then show ?thesis by (simp add: xval_def xdig_plus)
    qed
    ultimately have "xval N2 z (c + (n - c)) = xval M (xp_plus x (int a)) c" unfolding xval_split by simp
    moreover have "xval M (xp_plus x (int a)) c = xval M x m div 256 ^ a"
    proof (cases "a \<le> m")
      case True
      then show ?thesis using xval_high [of M x a c] by (simp add: c_def)
    next
      case False
      then have "xval M x m < 256 ^ a" using less_le_trans [OF xval_less [of M x m] power_increasing [of m a]] by simp
      then show ?thesis using False xval_nonneg [of M x m] by (simp add: c_def)
    qed
    ultimately show ?thesis using c by simp
  qed
  have nat_cn: "nat (int n - int c) = n - c" by linarith
  have L: "XP_rshift (int n) z (int m) x (int s) 0 M =
      (if 0 < r then bind_res (XP_quotient (int n) z z (2 ^ r) N2) (\<lambda>(_, M). bind_res (xp_read M z (int n - 1)) (\<lambda>d. xp_write M z (int n - 1) d)) else Inr N2)"
    unfolding XP_rshift_def Let_def sdiv_smod_8 a_def [symmetric] r_def [symmetric] c(2) using nat_cn by (simp add: l1 l2)
  have s2: "xval M x m div 2 ^ s = xval N2 z n div 2 ^ r" by (simp add: v2 s(1) power_add power_mult zdiv_zmult2_eq)
  have fr: "N2 b = M b" if "b \<noteq> xblk z" for b using that by (simp add: N2_def N1_def xset_frame)
  show ?thesis
  proof (cases "0 < r")
    case True
    define N3 where "N3 = xstore N2 z n (xval N2 z n div 2 ^ r)"
    have "(2 :: int) ^ r \<le> 2 ^ 8" using s(2) by (intro power_increasing) simp_all
    then have p: "XP_quotient (int n) z z (2 ^ r) N2 = Inr (xval N2 z n mod 2 ^ r, N3)"
      using XP_quotient_eq [OF inN(2,2), of "2 ^ r"] by (simp add: bwd_ok_def N3_def)
    have in3: "xin N3 z n" using inN by (simp add: N3_def)
    have q: "0 \<le> xval N2 z n div 2 ^ r" "xval N2 z n div 2 ^ r \<le> xval N2 z n"
      using xval_nonneg [of N2 z n] zdiv_mono2 [of "xval N2 z n" 1 "2 ^ r"] by (simp_all add: pos_imp_zdiv_nonneg_iff)
    then have "xval N3 z n = xval N2 z n div 2 ^ r" using inN xval_less [of N2 z n] by (simp add: N3_def xval_xstore)
    moreover have "int n - 1 = int (n - 1)" using n(2) by simp
    ultimately show ?thesis using L p True s2 fr rewrite_digit [OF in3, of "n - 1"] n(2)
      by (simp add: xset_frame N3_def xstore_frame)
  next
    case False
    then show ?thesis using L s2 fr by simp
  qed
qed

lemma digitwise_eq:
  assumes "xin M z n" "xin M x n" "xin M y n" "fwd_ok z x" "fwd_ok z y"
  shows "digitwise f (int n) z x y M = Inr (xset M z {..<n} (\<lambda>i. f (xdig M x i) (xdig M y i)))"
proof -
  define g where "g i = f (xdig M x i) (xdig M y i)" for i
  have "for_up (\<lambda>i M. bind_res (xp_read M x i) (\<lambda>a. bind_res (xp_read M y i) (\<lambda>b. xp_write M z i (f a b)))) 0 n (xset M z {..<0} g) = Inr (xset M z {..<n} g)"
  proof (rule for_up_seq, goal_cases)
    case (1 i)
    then show ?case using assms by (simp add: read_fwd [of M _ n] xp_write_in [of _ _ n] xset_put lessThan_Suc g_def)
  qed
  then show ?thesis by (simp add: digitwise_def g_def [abs_def])
qed

text \<open>Into fewer digits than the shift needs, but more than the number has, the left shift moves by the difference in
  length instead: 16 places to the left of \<open>0x0201\<close> in three digits is \<open>0x020100\<close>, not \<open>0x010000\<close>.\<close>

lemma XP_lshift_short:
  "case XP_lshift 3 (xp_at 0) 2 (xp_at 1) 16 0 (\<lambda>b. if b = 0 then [0, 0, 0] else [1, 2]) of Inr N \<Rightarrow> N 0 = [0, 1, 2] | Inl _ \<Rightarrow> False"
  by code_simp

subsection \<open>The sizes of the arrays\<close>

text \<open>No operation changes the size of a block.\<close>

definition lens :: "xmem \<Rightarrow> nat \<Rightarrow> nat" where
  "lens M b = length (M b)"

lemma lens_eq: "lens N = lens M \<longleftrightarrow> (\<forall>b. length (N b) = length (M b))"
  by (simp add: lens_def fun_eq_iff)

lemma xp_write_lens: "xp_write M p i v = Inr N \<Longrightarrow> lens N = lens M"
  by (auto simp: xp_write_def lens_eq Let_def split: if_splits)

lemma for_up_lens: "\<lbrakk>for_up f i k s = Inr t; \<And>i s t. f i s = Inr t \<Longrightarrow> h t = h s\<rbrakk> \<Longrightarrow> h t = h s"
  by (induction k arbitrary: i s) (force simp: bind_res_eq_Inr)+

lemma for_down_lens: "\<lbrakk>for_down f i k s = Inr t; \<And>i s t. f i s = Inr t \<Longrightarrow> h t = h s\<rbrakk> \<Longrightarrow> h t = h s"
  by (induction k arbitrary: i s) (force simp: bind_res_eq_Inr)+

lemmas lens_steps = bind_res_eq_Inr assert_c_eq_Inr Let_def

lemma XP_sub_lens: "XP_sub n z x y b M = Inr (c, N) \<Longrightarrow> lens N = lens M"
  unfolding XP_sub_def by (drule for_up_lens [where h = "\<lambda>s. lens (snd s)"]) (auto simp: lens_steps dest: xp_write_lens)

lemma XP_product_lens: "XP_product n z x y M = Inr (c, N) \<Longrightarrow> lens N = lens M"
  unfolding XP_product_def bind_res_eq_Inr
  by (elim exE conjE, drule for_up_lens [where h = "\<lambda>s. lens (snd s)"]) (auto simp: lens_steps dest: xp_write_lens)

lemma XP_quotient_lens: "XP_quotient n z x y M = Inr (c, N) \<Longrightarrow> lens N = lens M"
  unfolding XP_quotient_def bind_res_eq_Inr
  by (elim exE conjE, drule for_down_lens [where h = "\<lambda>s. lens (snd s)"]) (auto simp: lens_steps dest: xp_write_lens)

lemma write_up_lens: "for_up (\<lambda>i M. xp_write M z (g i) v) i k M = Inr N \<Longrightarrow> lens N = lens M"
  by (erule for_up_lens) (rule xp_write_lens)

lemma write_down_lens: "for_down (\<lambda>i M. xp_write M z (g i) v) i k M = Inr N \<Longrightarrow> lens N = lens M"
  by (erule for_down_lens) (rule xp_write_lens)

lemma copy_up_lens: "for_up (\<lambda>i M. bind_res (xp_read M x (g i)) (\<lambda>d. xp_write M z (h i) (e d))) i k M = Inr N \<Longrightarrow> lens N = lens M"
  by (erule for_up_lens) (auto simp: lens_steps dest: xp_write_lens)

lemma copy_down_lens: "for_down (\<lambda>i M. bind_res (xp_read M x (g i)) (\<lambda>d. xp_write M z (h i) (e d))) i k M = Inr N \<Longrightarrow> lens N = lens M"
  by (erule for_down_lens) (auto simp: lens_steps dest: xp_write_lens)

lemma xp_memset0_lens: "xp_memset0 p n M = Inr N \<Longrightarrow> lens N = lens M"
  by (auto simp: xp_memset0_def split: if_splits dest: write_up_lens)

lemma xp_memcpy_lens: "xp_memcpy d p n M = Inr N \<Longrightarrow> lens N = lens M"
  by (auto simp: xp_memcpy_def split: if_splits dest: copy_up_lens)

lemma set_product_lens: "set_product m dq y qk M = Inr N \<Longrightarrow> lens N = lens M"
  by (auto simp: set_product_def lens_steps dest!: XP_product_lens xp_write_lens)

lemma div_step_lens: "div_step n m q y rm dq k M = Inr N \<Longrightarrow> lens N = lens M"
  by (auto simp: div_step_def lens_steps split: if_splits dest!: set_product_lens xp_write_lens XP_sub_lens)

lemma long_div_lens: "long_div n m nx my q x y r tmp M = Inr N \<Longrightarrow> lens N = lens M"
  using for_down_lens [where h = lens, OF _ div_step_lens]
  by (auto simp: long_div_def lens_steps dest!: xp_memcpy_lens xp_write_lens write_up_lens)

lemma XP_div_lens: "XP_div nx q x my y r tmp M = Inr (c, N) \<Longrightarrow> lens N = lens M"
  by (auto simp: XP_div_def lens_steps split: if_splits dest!: long_div_lens xp_memcpy_lens xp_memset0_lens xp_write_lens XP_quotient_lens)

lemma XP_lshift_lens: "XP_lshift n z m x k fill M = Inr N \<Longrightarrow> lens N = lens M"
proof -
  assume a: "XP_lshift n z m x k fill M = Inr N"
  define f :: u8 where "f = (if fill \<noteq> 0 then 255 else 0)"
  define i where "i = (if n > m then m - 1 else n - k sdiv 8 - 1)"
  define j where "j = min (n - 1) (m + k sdiv 8 - 1)"
  obtain M1 M2 M3 where M: "for_down (\<lambda>j M. xp_write M z j 0) (n - 1) (nat (n - (m + k sdiv 8))) M = Inr M1"
    "for_down (\<lambda>k M. bind_res (xp_read M x k) (\<lambda>d. xp_write M z (k + (j - i)) d)) i (nat (i + 1)) M1 = Inr M2"
    "for_down (\<lambda>j M. xp_write M z j f) (j - max 0 (i + 1)) (nat (j - max 0 (i + 1) + 1)) M2 = Inr M3"
    and N: "(if 0 < k smod 8 then bind_res (XP_product n z z (2 ^ nat (k smod 8)) M3) (\<lambda>(_, M).
        bind_res (xp_read M z 0) (\<lambda>d. xp_write M z 0 (d OR drop_bit (8 - nat (k smod 8)) f))) else Inr M3) = Inr N"
    using a unfolding XP_lshift_def Let_def f_def [symmetric] i_def [symmetric] j_def [symmetric] bind_res_eq_Inr by blast
  have "lens M1 = lens M" "lens M2 = lens M1" "lens M3 = lens M2"
    using write_down_lens [OF M(1)] copy_down_lens [OF M(2)] write_down_lens [OF M(3)] by simp_all
  moreover have "lens N = lens M3"
    using N by (cases "0 < k smod 8") (auto simp: lens_steps dest!: XP_product_lens xp_write_lens)
  ultimately show ?thesis by simp
qed

lemma XP_rshift_lens: "XP_rshift n z m x k fill M = Inr N \<Longrightarrow> lens N = lens M"
proof -
  assume a: "XP_rshift n z m x k fill M = Inr N"
  define f :: u8 where "f = (if fill \<noteq> 0 then 255 else 0)"
  define j where "j = max 0 (min (m - k sdiv 8) n)"
  obtain M1 M2 where M: "for_up (\<lambda>j M. bind_res (xp_read M x (j + k sdiv 8)) (\<lambda>d. xp_write M z j d)) 0 (nat j) M = Inr M1"
    "for_up (\<lambda>j M. xp_write M z j f) j (nat (n - j)) M1 = Inr M2"
    and N: "(if 0 < k smod 8 then bind_res (XP_quotient n z z (2 ^ nat (k smod 8)) M2) (\<lambda>(_, M).
        bind_res (xp_read M z (n - 1)) (\<lambda>d. xp_write M z (n - 1) (d OR push_bit (8 - nat (k smod 8)) f))) else Inr M2) = Inr N"
    using a unfolding XP_rshift_def Let_def f_def [symmetric] j_def [symmetric] bind_res_eq_Inr by blast
  have "lens M1 = lens M" "lens M2 = lens M1" using copy_up_lens [OF M(1)] write_up_lens [OF M(2)] by simp_all
  moreover have "lens N = lens M2"
    using N by (cases "0 < k smod 8") (auto simp: lens_steps dest!: XP_quotient_lens xp_write_lens)
  ultimately show ?thesis by simp
qed

end
