(* ===== verification/Cyc_Ap.thy ===== *)
theory Cyc_Ap
  imports Cyc_Xp
begin

section \<open>Arbitrary-precision integers\<close>

text \<open>
  The signed integers of lib/ap.cyc (in C bin/genfiles/ap.c) on the digit arrays of lib/xp.cyc.  A number is a
  structure with a sign, a count of digits in use, a size and an array.  Every operation allocates its result
  and never writes to its arguments, so a structure is a value here; the arrays are blocks of a memory.  The state
  holds the first free block, the memory, and the globals \<open>init\<close>, \<open>AP_zero\<close> and \<open>AP_one\<close>.

  A block from \<open>malloc\<close> holds what the memory held there before, one from \<open>calloc\<close> zeros.  The
  allocator is taken to succeed.  \<open>long\<close> has 32 bits.

  What the lemmas show: \<open>computes m s v\<close> says that the operation \<open>m\<close> returns, from the state \<open>s\<close>, a well-formed number of
  value \<open>v\<close>, and changes no array that existed.  Every arithmetic operation computes the corresponding function of the integers, the
  loops of \<open>AP_gcd\<close> and the recursion of \<open>AP_pow\<close> end, and the buffers of the conversions are long enough.
\<close>

subsection \<open>State and steps\<close>

record ap_t =
  asign :: int
  andigits :: int
  asize :: int
  adigits :: xp_t

record ap_st =
  anext :: nat
  amem :: xmem
  ainit :: bool
  azero :: "ap_t option"
  aone :: "ap_t option"

type_synonym 'a apm = "ap_st \<Rightarrow> ('a \<times> ap_st) res"

definition bind_ap :: "'a apm \<Rightarrow> ('a \<Rightarrow> 'b apm) \<Rightarrow> 'b apm" where
  "bind_ap m f s = bind_res (m s) (\<lambda>(x, s). f x s)"

definition return_ap :: "'a \<Rightarrow> 'a apm" where
  "return_ap x s = Inr (x, s)"

definition assert_ap :: "bool \<Rightarrow> string \<Rightarrow> unit apm" where
  "assert_ap b msg s = bind_res (assert_c b msg) (\<lambda>_. Inr ((), s))"

definition on_mem :: "(xmem \<Rightarrow> ('a \<times> xmem) res) \<Rightarrow> 'a apm" where
  "on_mem f s = bind_res (f (amem s)) (\<lambda>(x, M). Inr (x, s\<lparr>amem := M\<rparr>))"

definition do_mem :: "(xmem \<Rightarrow> xmem res) \<Rightarrow> unit apm" where
  "do_mem f s = bind_res (f (amem s)) (\<lambda>M. Inr ((), s\<lparr>amem := M\<rparr>))"

definition get_mem :: "(xmem \<Rightarrow> 'a res) \<Rightarrow> 'a apm" where
  "get_mem f s = bind_res (f (amem s)) (\<lambda>x. Inr (x, s))"

text \<open>\<open>assert(x)\<close> of a pointer to a number.\<close>

definition the_ap :: "ap_t option \<Rightarrow> string \<Rightarrow> ap_t apm" where
  "the_ap x msg = (case x of None \<Rightarrow> (\<lambda>s. Inl (Errquit msg)) | Some x \<Rightarrow> return_ap x)"

definition alloc_digits :: "bool \<Rightarrow> int \<Rightarrow> xp_t apm" where
  "alloc_digits zero n s =
     (let b = anext s
      in if n < 0 then Inl (Throw Bad_alloc)
         else Inr (\<lparr>xblk = b, xoff = 0\<rparr>,
                   s\<lparr>anext := b + 1,
                     amem := (amem s)(b := map (\<lambda>i. if \<not> zero \<and> i < length (amem s b) then amem s b ! i else 0) [0..<nat n])\<rparr>))"

subsection \<open>Construction\<close>

definition mk_raw :: "int \<Rightarrow> ap_t apm" where
  "mk_raw n =
     bind_ap (alloc_digits True n) (\<lambda>d.
     bind_ap (assert_ap (0 < n) ''size > 0'') (\<lambda>_.
     return_ap \<lparr>asign = 1, andigits = 1, asize = n, adigits = d\<rparr>))"

definition normalize :: "ap_t \<Rightarrow> int \<Rightarrow> ap_t apm" where
  "normalize z n = bind_ap (get_mem (XP_length n (adigits z))) (\<lambda>k. return_ap (z\<lparr>andigits := k\<rparr>))"

definition long_max :: int where "long_max = 2147483647"
definition long_min :: int where "long_min = - 2147483648"

definition set_ap :: "ap_t \<Rightarrow> int \<Rightarrow> ap_t apm" where
  "set_ap z n =
     bind_ap (on_mem (XP_fromint (asize z) (adigits z)
       (if n = long_min then of_int long_max + 1 else if n < 0 then of_int (- n) else of_int n))) (\<lambda>_.
     normalize (z\<lparr>asign := if n < 0 then -1 else 1\<rparr>) (asize z))"

text \<open>\<open>AP_init\<close> calls \<open>AP_fromint\<close> with \<open>init\<close> set, so that \<open>mk\<close> does not come back to it.\<close>

definition AP_init :: "unit apm" where
  "AP_init s =
     bind_ap (bind_ap (mk_raw 4) (\<lambda>t. set_ap t 0)) (\<lambda>z s.
     bind_ap (bind_ap (mk_raw 4) (\<lambda>t. set_ap t 1)) (\<lambda>u s. Inr ((), s\<lparr>aone := Some u\<rparr>)) (s\<lparr>azero := Some z\<rparr>))
     (s\<lparr>ainit := True\<rparr>)"

definition mk :: "int \<Rightarrow> ap_t apm" where
  "mk n s = bind_ap (\<lambda>s. if ainit s then Inr ((), s) else AP_init s) (\<lambda>_. mk_raw n) s"

definition AP_new :: "int \<Rightarrow> ap_t apm" where
  "AP_new n = bind_ap (mk 4) (\<lambda>z. set_ap z n)"

definition AP_fromint :: "int \<Rightarrow> ap_t apm" where
  "AP_fromint x = bind_ap (mk 4) (\<lambda>t. set_ap t x)"

definition iszero :: "ap_t \<Rightarrow> bool apm" where
  "iszero x = (if andigits x = 1 then get_mem (\<lambda>M. bind_res (xp_read M (adigits x) 0) (\<lambda>d. Inr (d = 0))) else return_ap False)"

definition isone :: "ap_t \<Rightarrow> bool apm" where
  "isone x = (if andigits x = 1 then get_mem (\<lambda>M. bind_res (xp_read M (adigits x) 0) (\<lambda>d. Inr (d = 1))) else return_ap False)"

definition iseven :: "ap_t \<Rightarrow> bool apm" where
  "iseven y = get_mem (\<lambda>M. bind_res (xp_read M (adigits y) 0) (\<lambda>d. Inr (d AND 1 = 0)))"

text \<open>\<open>z->sign = iszero(z) ? 1 : v\<close>, and the same with \<open>iszero(z) || e\<close>.\<close>

definition set_sign :: "ap_t \<Rightarrow> int \<Rightarrow> ap_t apm" where
  "set_sign z v = bind_ap (iszero z) (\<lambda>b. return_ap (z\<lparr>asign := if b then 1 else v\<rparr>))"

subsection \<open>Addition, subtraction and comparison of magnitudes\<close>

function add_ap :: "ap_t \<Rightarrow> ap_t \<Rightarrow> ap_t \<Rightarrow> ap_t apm" where
  "add_ap z x y =
     (let n = andigits y
      in if andigits x < n then add_ap z y x
         else bind_ap
           (if n < andigits x
            then bind_ap (on_mem (XP_add n (adigits z) (adigits x) (adigits y) 0)) (\<lambda>carry.
                 bind_ap (on_mem (XP_sum (andigits x - n) (xp_plus (adigits z) n) (xp_plus (adigits x) n) carry)) (\<lambda>c.
                 do_mem (\<lambda>M. xp_write M (adigits z) (asize z - 1) (of_int c))))
            else bind_ap (on_mem (XP_add n (adigits z) (adigits x) (adigits y) 0)) (\<lambda>c.
                 do_mem (\<lambda>M. xp_write M (adigits z) n (of_int c)))) (\<lambda>_.
           normalize z (asize z)))"
  by pat_completeness auto
termination
  by (relation "measure (\<lambda>(z, x, y). if andigits x < andigits y then 1 else 0)") auto

definition sub_ap :: "ap_t \<Rightarrow> ap_t \<Rightarrow> ap_t \<Rightarrow> ap_t apm" where
  "sub_ap z x y =
     (let n = andigits y
      in bind_ap (on_mem (XP_sub n (adigits z) (adigits x) (adigits y) 0)) (\<lambda>borrow.
         bind_ap (if n < andigits x
                  then on_mem (XP_diff (andigits x - n) (xp_plus (adigits z) n) (xp_plus (adigits x) n) borrow)
                  else return_ap borrow) (\<lambda>borrow.
         bind_ap (assert_ap (borrow = 0) ''borrow == 0'') (\<lambda>_.
         normalize z (asize z)))))"

definition cmp_ap :: "ap_t \<Rightarrow> ap_t \<Rightarrow> int apm" where
  "cmp_ap x y =
     (if andigits x \<noteq> andigits y then return_ap (andigits x - andigits y)
      else get_mem (XP_cmp (andigits x) (adigits x) (adigits y)))"

subsection \<open>Arithmetic\<close>

definition maxdigits :: "ap_t \<Rightarrow> ap_t \<Rightarrow> int" where
  "maxdigits x y = (if andigits x > andigits y then andigits x else andigits y)"

definition copy_ap :: "ap_t \<Rightarrow> ap_t apm" where
  "copy_ap x =
     bind_ap (mk (andigits x)) (\<lambda>z.
     bind_ap (do_mem (xp_memcpy (adigits z) (adigits x) (andigits x))) (\<lambda>_.
     return_ap (z\<lparr>andigits := andigits x\<rparr>)))"

definition AP_neg :: "ap_t option \<Rightarrow> ap_t apm" where
  "AP_neg x = bind_ap (the_ap x ''x'') (\<lambda>x. bind_ap (copy_ap x) (\<lambda>z. set_sign z (- asign x)))"

definition AP_abs :: "ap_t option \<Rightarrow> ap_t apm" where
  "AP_abs x = bind_ap (the_ap x ''x'') (\<lambda>x. bind_ap (copy_ap x) (\<lambda>z. return_ap (z\<lparr>asign := 1\<rparr>)))"

definition AP_mul :: "ap_t option \<Rightarrow> ap_t option \<Rightarrow> ap_t apm" where
  "AP_mul x y =
     bind_ap (the_ap x ''x'') (\<lambda>x. bind_ap (the_ap y ''y'') (\<lambda>y.
     bind_ap (mk (andigits x + andigits y)) (\<lambda>z.
     bind_ap (on_mem (XP_mul (adigits z) (andigits x) (adigits x) (andigits y) (adigits y))) (\<lambda>_.
     bind_ap (normalize z (asize z)) (\<lambda>z.
     set_sign z (if asign x XOR asign y = 0 then 1 else -1))))))"

definition AP_add :: "ap_t option \<Rightarrow> ap_t option \<Rightarrow> ap_t apm" where
  "AP_add x y =
     bind_ap (the_ap x ''x'') (\<lambda>x. bind_ap (the_ap y ''y'') (\<lambda>y.
     if asign x XOR asign y = 0
     then bind_ap (mk (maxdigits x y + 1)) (\<lambda>z. bind_ap (add_ap z x y) (\<lambda>z. set_sign z (asign x)))
     else bind_ap (cmp_ap x y) (\<lambda>c.
          if 0 < c
          then bind_ap (mk (andigits x)) (\<lambda>z. bind_ap (sub_ap z x y) (\<lambda>z. set_sign z (asign x)))
          else bind_ap (mk (andigits y)) (\<lambda>z. bind_ap (sub_ap z y x) (\<lambda>z. set_sign z (- asign x))))))"

definition AP_sub :: "ap_t option \<Rightarrow> ap_t option \<Rightarrow> ap_t apm" where
  "AP_sub x y =
     bind_ap (the_ap x ''x'') (\<lambda>x. bind_ap (the_ap y ''y'') (\<lambda>y.
     if asign x XOR asign y \<noteq> 0
     then bind_ap (mk (maxdigits x y + 1)) (\<lambda>z. bind_ap (add_ap z x y) (\<lambda>z. set_sign z (asign x)))
     else bind_ap (cmp_ap x y) (\<lambda>c.
          if 0 < c
          then bind_ap (mk (andigits x)) (\<lambda>z. bind_ap (sub_ap z x y) (\<lambda>z. set_sign z (asign x)))
          else bind_ap (mk (andigits y)) (\<lambda>z. bind_ap (sub_ap z y x) (\<lambda>z. set_sign z (- asign x))))))"

text \<open>The part \<open>AP_div\<close> and \<open>AP_mod\<close> share: the quotient and the remainder of the magnitudes.\<close>

definition divmod_ap :: "ap_t option \<Rightarrow> ap_t option \<Rightarrow> (ap_t \<times> ap_t \<times> ap_t \<times> ap_t) apm" where
  "divmod_ap x y =
     bind_ap (the_ap x ''x'') (\<lambda>x. bind_ap (the_ap y ''y'') (\<lambda>y.
     bind_ap (iszero y) (\<lambda>b. bind_ap (assert_ap (\<not> b) ''!iszero(y)'') (\<lambda>_.
     bind_ap (mk (andigits x)) (\<lambda>q. bind_ap (mk (andigits y)) (\<lambda>r.
     bind_ap (alloc_digits False (andigits x + andigits y + 2)) (\<lambda>tmp.
     bind_ap (on_mem (XP_div (andigits x) (adigits q) (adigits x) (andigits y) (adigits y) (adigits r) tmp)) (\<lambda>_.
     bind_ap (normalize q (asize q)) (\<lambda>q. bind_ap (normalize r (asize r)) (\<lambda>r.
     return_ap (x, y, q, r)))))))))))"

definition AP_div :: "ap_t option \<Rightarrow> ap_t option \<Rightarrow> ap_t apm" where
  "AP_div x y = bind_ap (divmod_ap x y) (\<lambda>(x, y, q, r). set_sign q (if asign x XOR asign y = 0 then 1 else -1))"

definition AP_mod :: "ap_t option \<Rightarrow> ap_t option \<Rightarrow> ap_t apm" where
  "AP_mod x y = bind_ap (divmod_ap x y) (\<lambda>(x, y, q, r). set_sign r (asign x))"

definition mulmod :: "ap_t option \<Rightarrow> ap_t option \<Rightarrow> ap_t option \<Rightarrow> ap_t apm" where
  "mulmod x y p = bind_ap (AP_mul x y) (\<lambda>xy. AP_mod (Some xy) p)"

definition AP_cmp :: "ap_t option \<Rightarrow> ap_t option \<Rightarrow> int apm" where
  "AP_cmp x y =
     bind_ap (the_ap x ''x'') (\<lambda>x. bind_ap (the_ap y ''y'') (\<lambda>y.
     if asign x XOR asign y \<noteq> 0 then return_ap (asign x)
     else if asign x = 1 then cmp_ap x y else cmp_ap y x))"

definition AP_addi :: "ap_t option \<Rightarrow> int \<Rightarrow> ap_t apm" where
  "AP_addi x y = bind_ap (mk 4) (\<lambda>t. bind_ap (set_ap t y) (\<lambda>t. AP_add x (Some t)))"

definition AP_subi :: "ap_t option \<Rightarrow> int \<Rightarrow> ap_t apm" where
  "AP_subi x y = bind_ap (mk 4) (\<lambda>t. bind_ap (set_ap t y) (\<lambda>t. AP_sub x (Some t)))"

definition AP_muli :: "ap_t option \<Rightarrow> int \<Rightarrow> ap_t apm" where
  "AP_muli x y = bind_ap (mk 4) (\<lambda>t. bind_ap (set_ap t y) (\<lambda>t. AP_mul x (Some t)))"

definition AP_divi :: "ap_t option \<Rightarrow> int \<Rightarrow> ap_t apm" where
  "AP_divi x y = bind_ap (mk 4) (\<lambda>t. bind_ap (set_ap t y) (\<lambda>t. AP_div x (Some t)))"

definition AP_cmpi :: "ap_t option \<Rightarrow> int \<Rightarrow> int apm" where
  "AP_cmpi x y = bind_ap (mk 4) (\<lambda>t. bind_ap (set_ap t y) (\<lambda>t. AP_cmp x (Some t)))"

definition AP_modi :: "ap_t option \<Rightarrow> int \<Rightarrow> int apm" where
  "AP_modi x y =
     bind_ap (mk 4) (\<lambda>t. bind_ap (set_ap t y) (\<lambda>t. bind_ap (AP_mod x (Some t)) (\<lambda>r.
     get_mem (\<lambda>M. bind_res (XP_toint (andigits r) (adigits r) M) (\<lambda>u. Inr (sint u))))))"

subsection \<open>Shifts and logical operations\<close>

definition AP_lshift :: "ap_t option \<Rightarrow> int \<Rightarrow> ap_t apm" where
  "AP_lshift x s =
     bind_ap (the_ap x ''x'') (\<lambda>x. bind_ap (assert_ap (0 \<le> s) ''s >= 0'') (\<lambda>_.
     bind_ap (mk (andigits x + ((s + 7) AND NOT 7) sdiv 8)) (\<lambda>z.
     bind_ap (do_mem (XP_lshift (asize z) (adigits z) (andigits x) (adigits x) s 0)) (\<lambda>_.
     normalize (z\<lparr>asign := asign x\<rparr>) (asize z)))))"

definition AP_rshift :: "ap_t option \<Rightarrow> int \<Rightarrow> ap_t apm" where
  "AP_rshift x s =
     bind_ap (the_ap x ''x'') (\<lambda>x. bind_ap (assert_ap (0 \<le> s) ''s >= 0'') (\<lambda>_.
     if s \<ge> 8 * andigits x then AP_new 0
     else bind_ap (mk (andigits x - s sdiv 8)) (\<lambda>z.
          bind_ap (do_mem (XP_rshift (asize z) (adigits z) (andigits x) (adigits x) s 0)) (\<lambda>_.
          bind_ap (normalize z (asize z)) (\<lambda>z. set_sign z (asign x))))))"

function AP_and :: "ap_t option \<Rightarrow> ap_t option \<Rightarrow> ap_t apm" where
  "AP_and x y =
     (case (x, y) of (Some a, Some b) \<Rightarrow>
        if andigits a < andigits b then AP_and y x
        else bind_ap (mk (andigits b)) (\<lambda>z.
             bind_ap (do_mem (XP_and (andigits b) (adigits z) (adigits a) (adigits b))) (\<lambda>_.
             bind_ap (normalize z (asize z)) (\<lambda>z. return_ap (z\<lparr>asign := 1\<rparr>))))
      | _ \<Rightarrow> (\<lambda>s. Inl (Throw Null_Exception)))"
  by pat_completeness auto
termination
  by (relation "measure (\<lambda>(x, y). case (x, y) of (Some a, Some b) \<Rightarrow> if andigits a < andigits b then 1 else 0 | _ \<Rightarrow> 0)") auto

text \<open>The loop of \<open>AP_or\<close> and \<open>AP_xor\<close>, whose body is the call of \<open>normalize\<close>, and nothing else.\<close>

fun normalize_loop :: "nat \<Rightarrow> ap_t \<Rightarrow> ap_t apm" where
  "normalize_loop 0 z = return_ap z"
| "normalize_loop (Suc k) z = bind_ap (normalize z (asize z)) (normalize_loop k)"

function AP_or :: "ap_t option \<Rightarrow> ap_t option \<Rightarrow> ap_t apm" where
  "AP_or x y =
     (case (x, y) of (Some a, Some b) \<Rightarrow>
        if andigits a < andigits b then AP_or y x
        else bind_ap (mk (andigits a)) (\<lambda>z.
             bind_ap (do_mem (XP_or (andigits b) (adigits z) (adigits a) (adigits b))) (\<lambda>_.
             bind_ap (normalize_loop (nat (andigits a - andigits b)) z) (\<lambda>z. return_ap (z\<lparr>asign := 1\<rparr>))))
      | _ \<Rightarrow> (\<lambda>s. Inl (Throw Null_Exception)))"
  by pat_completeness auto
termination
  by (relation "measure (\<lambda>(x, y). case (x, y) of (Some a, Some b) \<Rightarrow> if andigits a < andigits b then 1 else 0 | _ \<Rightarrow> 0)") auto

function AP_xor :: "ap_t option \<Rightarrow> ap_t option \<Rightarrow> ap_t apm" where
  "AP_xor x y =
     (case (x, y) of (Some a, Some b) \<Rightarrow>
        if andigits a < andigits b then AP_xor y x
        else bind_ap (mk (andigits a)) (\<lambda>z.
             bind_ap (do_mem (XP_xor (andigits b) (adigits z) (adigits a) (adigits b))) (\<lambda>_.
             bind_ap (normalize_loop (nat (andigits a - andigits b)) z) (\<lambda>z. return_ap (z\<lparr>asign := 1\<rparr>))))
      | _ \<Rightarrow> (\<lambda>s. Inl (Throw Null_Exception)))"
  by pat_completeness auto
termination
  by (relation "measure (\<lambda>(x, y). case (x, y) of (Some a, Some b) \<Rightarrow> if andigits a < andigits b then 1 else 0 | _ \<Rightarrow> 0)") auto

declare AP_and.simps [simp del] AP_or.simps [simp del] AP_xor.simps [simp del] add_ap.simps [simp del]

subsection \<open>Powers and divisors\<close>

definition modulus_ok :: "ap_t option \<Rightarrow> bool apm" where
  "modulus_ok p =
     (case p of None \<Rightarrow> return_ap True
      | Some p \<Rightarrow> if asign p = 1 then bind_ap (iszero p) (\<lambda>z. if z then return_ap False else bind_ap (isone p) (\<lambda>b. return_ap (\<not> b)))
                 else return_ap False)"

text \<open>\<open>AP_pow\<close> up to its recursive call: a result, or the arguments when there is one to come.\<close>

definition pow_start :: "ap_t option \<Rightarrow> ap_t option \<Rightarrow> ap_t option \<Rightarrow> (ap_t + ap_t \<times> ap_t) apm" where
  "pow_start x y p =
     bind_ap (the_ap x ''x'') (\<lambda>x. bind_ap (the_ap y ''y'') (\<lambda>y.
     bind_ap (assert_ap (asign y = 1) ''y->sign == 1'') (\<lambda>_.
     bind_ap (modulus_ok p) (\<lambda>b. bind_ap (assert_ap b ''!p || p->sign==1 && !iszero(p) && !isone(p)'') (\<lambda>_.
     bind_ap (iszero x) (\<lambda>b. if b then bind_ap (AP_new 0) (\<lambda>z. return_ap (Inl z)) else
     bind_ap (iszero y) (\<lambda>b. if b then bind_ap (AP_new 1) (\<lambda>z. return_ap (Inl z)) else
     bind_ap (isone x) (\<lambda>b. if b then bind_ap (iseven y) (\<lambda>e. bind_ap (AP_new (if e then 1 else asign x)) (\<lambda>z. return_ap (Inl z))) else
     bind_ap (isone y) (\<lambda>b. if b then bind_ap (case p of Some p \<Rightarrow> AP_mod (Some x) (Some p) | None \<Rightarrow> AP_addi (Some x) 0) (\<lambda>z. return_ap (Inl z))
     else return_ap (Inr (x, y)))))))))))"

text \<open>What it does with the power \<open>t\<close> of half the exponent.\<close>

definition pow_finish :: "ap_t \<Rightarrow> ap_t \<Rightarrow> ap_t option \<Rightarrow> ap_t \<Rightarrow> ap_t apm" where
  "pow_finish x y p t =
     bind_ap (case p of Some p \<Rightarrow> mulmod (Some t) (Some t) (Some p) | None \<Rightarrow> AP_mul (Some t) (Some t)) (\<lambda>z.
     bind_ap (iseven y) (\<lambda>e.
       if e then return_ap z
       else case p of Some p \<Rightarrow> bind_ap (AP_mod (Some x) (Some p)) (\<lambda>y2. mulmod (Some y2) (Some z) (Some p))
            | None \<Rightarrow> AP_mul (Some x) (Some z)))"

partial_function (option) AP_pow :: "ap_t option \<Rightarrow> ap_t option \<Rightarrow> ap_t option \<Rightarrow> ap_st \<Rightarrow> (ap_t \<times> ap_st) ores" where
  "AP_pow x y p s =
     bind_ores (Some (pow_start x y p s)) (\<lambda>(r, s).
       case r of Inl z \<Rightarrow> Some (Inr (z, s))
       | Inr (x', y') \<Rightarrow>
           bind_ores (Some (AP_rshift y 1 s)) (\<lambda>(y2, s).
           bind_ores (AP_pow x (Some y2) p s) (\<lambda>(t, s). Some (pow_finish x' y' p t s))))"

partial_function (option) gcd_loop :: "ap_t \<Rightarrow> ap_t \<Rightarrow> ap_st \<Rightarrow> (ap_t \<times> ap_st) ores" where
  "gcd_loop x y s =
     bind_ores (Some (iszero y s)) (\<lambda>(b, s).
       if b then Some (Inr (x, s))
       else bind_ores (Some (AP_mod (Some x) (Some y) s)) (\<lambda>(tmp, s). gcd_loop y tmp s))"

definition AP_gcd :: "ap_t option \<Rightarrow> ap_t option \<Rightarrow> ap_st \<Rightarrow> (ap_t \<times> ap_st) ores" where
  "AP_gcd x y s =
     bind_ores (Some (bind_ap (the_ap x ''x'') (\<lambda>x. bind_ap (the_ap y ''y'') (\<lambda>y. return_ap (x, y))) s)) (\<lambda>((x, y), s).
     bind_ores (gcd_loop x y s) (\<lambda>(x, s).
     Some (bind_ap (copy_ap x) (\<lambda>z. return_ap (z\<lparr>asign := asign x\<rparr>)) s)))"

definition AP_lcm :: "ap_t option \<Rightarrow> ap_t option \<Rightarrow> ap_st \<Rightarrow> (ap_t \<times> ap_st) ores" where
  "AP_lcm x y s =
     bind_ores (AP_gcd x y s) (\<lambda>(g, s). Some (bind_ap (AP_div y (Some g)) (\<lambda>d. AP_mul x (Some d)) s))"

subsection \<open>Conversions\<close>

definition AP_toint :: "ap_t option \<Rightarrow> int apm" where
  "AP_toint x =
     bind_ap (the_ap x ''x'') (\<lambda>x. get_mem (\<lambda>M. bind_res (XP_toint (andigits x) (adigits x) M) (\<lambda>u.
       let u = u mod (of_int long_max + 1) in Inr (if asign x = -1 then - sint u else sint u))))"

fun skip_zeros :: "string \<Rightarrow> string" where
  "skip_zeros (c # d # p) = (if c = CHR ''0'' \<and> d = CHR ''0'' then skip_zeros (d # p) else c # d # p)"
| "skip_zeros p = p"

definition ap_digit :: "int \<Rightarrow> char \<Rightarrow> bool" where
  "ap_digit base c \<longleftrightarrow>
     (let v = of_char c
      in 48 \<le> v \<and> v \<le> 57 \<and> v < 48 + base \<or> 97 \<le> v \<and> v \<le> 122 \<and> v < 97 + base - 10 \<or> 65 \<le> v \<and> v \<le> 90 \<and> v < 65 + base - 10)"

text \<open>\<open>for (k = 1; (1<<k) < base; k++)\<close> and \<open>for (k = 5; (1<<k) > base; k--)\<close>.\<close>

function bits_up :: "nat \<Rightarrow> int \<Rightarrow> nat" where
  "bits_up k base = (if 2 ^ k < base then bits_up (Suc k) base else k)"
  by pat_completeness auto
termination
  by (relation "measure (\<lambda>(k, base). nat (base - 2 ^ k))") auto

declare bits_up.simps [simp del]

fun bits_down :: "nat \<Rightarrow> int \<Rightarrow> nat" where
  "bits_down (Suc k) base = (if 2 ^ Suc k > base then bits_down k base else Suc k)"
| "bits_down 0 base = 0"

definition AP_fromstr :: "string option \<Rightarrow> int \<Rightarrow> ap_t apm" where
  "AP_fromstr str base =
     (case str of None \<Rightarrow> (\<lambda>s. Inl (Errquit ''p''))
      | Some p \<Rightarrow>
          bind_ap (assert_ap (2 \<le> base \<and> base \<le> 36) ''base >= 2 && base <= 36'') (\<lambda>_.
          let p = dropWhile c_isspace p;
              (sign, p) = (case p of c # p' \<Rightarrow> if c = CHR ''-'' \<or> c = CHR ''+'' then (c, p') else (CHR 0x00, p) | [] \<Rightarrow> (CHR 0x00, p));
              p = skip_zeros p;
              n = int (length (takeWhile (ap_digit base) p))
          in bind_ap (mk (((int (bits_up 1 base) * n + 7) AND NOT 7) sdiv 8)) (\<lambda>z.
             bind_ap (on_mem (XP_fromstr (asize z) (adigits z) (Some p) base)) (\<lambda>carry.
             bind_ap (assert_ap (carry = 0) ''carry == 0'') (\<lambda>_.
             bind_ap (normalize z (asize z)) (\<lambda>z.
             set_sign z (if sign \<noteq> CHR ''-'' then 1 else -1)))))))"

definition AP_tostr :: "ap_t option \<Rightarrow> int \<Rightarrow> ap_st \<Rightarrow> (string \<times> ap_st) ores" where
  "AP_tostr x base s =
     bind_ores (Some (bind_ap (the_ap x ''x'') (\<lambda>x. bind_ap (assert_ap (2 \<le> base \<and> base \<le> 36) ''base >= 2 && base <= 36'') (\<lambda>_.
       return_ap x)) s)) (\<lambda>(x, s).
     let k = int (bits_down 5 base);
         sz = 8 * andigits x sdiv k + 1 + 1 + (if asign x = -1 then 1 else 0);
         str = replicate (nat sz) (CHR 0x00)
     in bind_ores (Some (bind_ap (alloc_digits False (andigits x)) (\<lambda>q.
          bind_ap (do_mem (xp_memcpy q (adigits x) (andigits x))) (\<lambda>_. return_ap q)) s)) (\<lambda>(q, s).
        if asign x = -1
        then bind_ores (Some (str_put str 0 (CHR ''-''))) (\<lambda>str.
             bind_ores (XP_tostr (Some (drop 1 str)) (sz - 1) base (andigits x) q (amem s)) (\<lambda>(t, M).
             Some (Inr (take 1 str @ t, s\<lparr>amem := M\<rparr>))))
        else bind_ores (XP_tostr (Some str) sz base (andigits x) q (amem s)) (\<lambda>(t, M). Some (Inr (t, s\<lparr>amem := M\<rparr>)))))"

section \<open>Values\<close>

text \<open>
  A number is well formed in a state when its array is a block of the state with as many digits as its size says, its
  leading digit is not 0 unless it is the only one, and zero is positive.  Operations extend the state: the blocks there were stay
  as they were.
\<close>

definition amag :: "ap_st \<Rightarrow> ap_t \<Rightarrow> int" where
  "amag s z = xval (amem s) (adigits z) (nat (andigits z))"

definition aval :: "ap_st \<Rightarrow> ap_t \<Rightarrow> int" where
  "aval s z = asign z * amag s z"

definition wf_mag :: "ap_st \<Rightarrow> ap_t \<Rightarrow> bool" where
  "wf_mag s z \<longleftrightarrow> xblk (adigits z) < anext s \<and> xoff (adigits z) = 0 \<and>
     int (length (amem s (xblk (adigits z)))) = asize z \<and> 1 \<le> andigits z \<and> andigits z \<le> asize z \<and>
     (andigits z = 1 \<or> xdig (amem s) (adigits z) (nat (andigits z) - 1) \<noteq> 0)"

definition wf_ap :: "ap_st \<Rightarrow> ap_t \<Rightarrow> bool" where
  "wf_ap s z \<longleftrightarrow> wf_mag s z \<and> (asign z = 1 \<or> asign z = -1) \<and> (amag s z = 0 \<longrightarrow> asign z = 1)"

definition extends :: "ap_st \<Rightarrow> ap_st \<Rightarrow> bool" where
  "extends s t \<longleftrightarrow> anext s \<le> anext t \<and> (\<forall>b<anext s. amem t b = amem s b)"

text \<open>The operation returns a well-formed number of value \<open>v\<close>.\<close>

definition computes :: "ap_t apm \<Rightarrow> ap_st \<Rightarrow> int \<Rightarrow> bool" where
  "computes m s v \<longleftrightarrow> (\<exists>z t. m s = Inr (z, t) \<and> wf_ap t z \<and> aval t z = v \<and> extends s t)"

subsection \<open>Steps\<close>

lemmas ap_steps = bind_ap_def return_ap_def assert_ap_def on_mem_def do_mem_def get_mem_def the_ap_def

lemma extends_refl [simp]: "extends s s"
  by (simp add: extends_def)

lemma extends_trans: "\<lbrakk>extends s t; extends t u\<rbrakk> \<Longrightarrow> extends s u"
  by (auto simp: extends_def)

lemma amag_extends: "\<lbrakk>extends s t; wf_mag s z\<rbrakk> \<Longrightarrow> amag t z = amag s z"
  unfolding amag_def by (intro xval_blk) (simp add: extends_def wf_mag_def)

lemma wf_mag_extends: "\<lbrakk>extends s t; wf_mag s z\<rbrakk> \<Longrightarrow> wf_mag t z"
  using xdig_blk [of "amem t" "adigits z" "amem s"] by (auto simp: extends_def wf_mag_def)

lemma wf_ap_extends: "\<lbrakk>extends s t; wf_ap s z\<rbrakk> \<Longrightarrow> wf_ap t z"
  using amag_extends wf_mag_extends by (auto simp: wf_ap_def)

lemma aval_extends: "\<lbrakk>extends s t; wf_ap s z\<rbrakk> \<Longrightarrow> aval t z = aval s z"
  by (simp add: aval_def amag_extends wf_ap_def)

lemma amag_nonneg: "0 \<le> amag s z"
  by (simp add: amag_def xval_nonneg)

lemma wf_mag_xin: "wf_mag s z \<Longrightarrow> n \<le> nat (asize z) \<Longrightarrow> xin (amem s) (adigits z) n"
  by (auto simp: wf_mag_def xin_def)

text \<open>A fresh array of \<open>n\<close> digits, and a number on it that has yet to be normalised.\<close>

definition fresh :: "ap_st \<Rightarrow> ap_st \<Rightarrow> xp_t \<Rightarrow> nat \<Rightarrow> bool" where
  "fresh s t d n \<longleftrightarrow> extends s t \<and> anext s \<le> xblk d \<and> xblk d < anext t \<and> xoff d = 0 \<and> length (amem t (xblk d)) = n"

lemma alloc_digits_ok:
  "\<exists>d t. alloc_digits zero (int n) s = Inr (d, t) \<and> fresh s t d n \<and> ainit t = ainit s \<and> (zero \<longrightarrow> amem t (xblk d) = replicate n 0)"
  by (auto simp: alloc_digits_def fresh_def extends_def Let_def map_replicate_const intro!: replicate_eqI)

lemma mk_raw_ok:
  assumes "0 < n"
  shows "\<exists>z t. mk_raw (int n) s = Inr (z, t) \<and> fresh s t (adigits z) n \<and> ainit t = ainit s \<and> amem t (xblk (adigits z)) = replicate n 0 \<and>
    asign z = 1 \<and> andigits z = 1 \<and> asize z = int n"
  using alloc_digits_ok [of True n s] assms by (auto simp: mk_raw_def ap_steps assert_c_def)

lemma normalize_ok:
  assumes "extends s t" "xblk (adigits z) < anext t" "xoff (adigits z) = 0" "length (amem t (xblk (adigits z))) = n" "asize z = int n" "0 < n"
  shows "\<exists>k. normalize z (int n) t = Inr (z\<lparr>andigits := k\<rparr>, t) \<and> wf_mag t (z\<lparr>andigits := k\<rparr>) \<and>
    amag t (z\<lparr>andigits := k\<rparr>) = xval (amem t) (adigits z) n"
proof -
  have "xin (amem t) (adigits z) n" using assms by (simp add: xin_def)
  from XP_length_ok [OF this assms(6)] obtain k where
    k: "XP_length (int n) (adigits z) (amem t) = Inr (int k)" "0 < k" "k \<le> n" "xval (amem t) (adigits z) n = xval (amem t) (adigits z) k"
    "k = 1 \<or> xdig (amem t) (adigits z) (k - 1) \<noteq> 0" by metis
  then show ?thesis using assms
    by (intro exI [of _ "int k"]) (auto simp: normalize_def ap_steps wf_mag_def amag_def)
qed

lemma fresh_upd:
  "\<lbrakk>fresh s t d n; \<And>b. b \<noteq> xblk d \<Longrightarrow> M b = amem t b; length (M (xblk d)) = n\<rbrakk> \<Longrightarrow> fresh s (t\<lparr>amem := M\<rparr>) d n"
  by (auto simp: fresh_def extends_def)

lemma fresh_store: "fresh s t d n \<Longrightarrow> fresh s (t\<lparr>amem := xstore (amem t) d k V\<rparr>) d n"
  by (intro fresh_upd) (simp_all add: xstore_def xset_frame fresh_def)

lemma fresh_xin: "\<lbrakk>fresh s t d n; k \<le> n\<rbrakk> \<Longrightarrow> xin (amem t) d k"
  by (simp add: fresh_def xin_def)

lemma fresh_mono: "\<lbrakk>extends r s; fresh s t d n\<rbrakk> \<Longrightarrow> fresh r t d n"
  by (auto simp: fresh_def extends_def)

text \<open>Normalising the number on a fresh array, and giving it its sign.\<close>

lemma normalize_fresh:
  assumes "fresh s t (adigits z) n" "asize z = int n" "0 < n"
  shows "\<exists>k. normalize z (int n) t = Inr (z\<lparr>andigits := k\<rparr>, t) \<and> wf_mag t (z\<lparr>andigits := k\<rparr>) \<and>
    amag t (z\<lparr>andigits := k\<rparr>) = xval (amem t) (adigits z) n"
  using normalize_ok [of s t z n] assms by (simp add: fresh_def)

lemma iszero_ok: "wf_mag s z \<Longrightarrow> iszero z s = Inr (amag s z = 0, s)"
proof -
  assume z: "wf_mag s z"
  show ?thesis
  proof (cases "andigits z = 1")
    case True
    then have "xp_read (amem s) (adigits z) 0 = Inr (xdig (amem s) (adigits z) 0)"
      using xp_read_in [of "amem s" "adigits z" 1 0] z by (auto simp: wf_mag_def xin_def)
    moreover have "amag s z = uint (xdig (amem s) (adigits z) 0)" using True by (simp add: amag_def xval_Suc)
    ultimately show ?thesis using True by (simp add: iszero_def ap_steps word_uint_eq_iff)
  next
    case False
    then have "0 < amag s z" unfolding amag_def using z by (intro top_pos) (auto simp: wf_mag_def)
    then show ?thesis using False by (simp add: iszero_def ap_steps)
  qed
qed

lemma wf_mag_sign [simp]: "wf_mag s (z\<lparr>asign := v\<rparr>) = wf_mag s z"
  by (simp add: wf_mag_def)

lemma amag_sign [simp]: "amag s (z\<lparr>asign := v\<rparr>) = amag s z"
  by (simp add: amag_def)

lemma set_sign_ok:
  assumes "wf_mag s z" "v = 1 \<or> v = -1"
  shows "\<exists>w. set_sign z v s = Inr (w, s) \<and> wf_ap s w \<and> aval s w = v * amag s z"
  using assms iszero_ok [OF assms(1)] by (auto simp: set_sign_def ap_steps wf_ap_def aval_def)

lemma set_ap_ok:
  assumes z: "fresh s t (adigits z) 4" "asize z = 4" and n: "long_min \<le> n" "n \<le> long_max"
  shows "\<exists>w u. set_ap z n t = Inr (w, u) \<and> wf_ap u w \<and> aval u w = n \<and> extends s u"
proof -
  define v :: u32 where "v = (if n = long_min then of_int long_max + 1 else if n < 0 then of_int (- n) else of_int n)"
  have "v = of_int \<bar>n\<bar>" by (auto simp: v_def long_max_def long_min_def)
  then have v: "uint v = \<bar>n\<bar>" using n u32_of_int_uint [of "\<bar>n\<bar>"] by (simp add: long_max_def long_min_def)
  define M where "M = xstore (amem t) (adigits z) 4 (uint v)"
  define y where "y = z\<lparr>asign := if n < 0 then -1 else 1\<rparr>"
  have f: "XP_fromint 4 (adigits z) v (amem t) = Inr (of_int (uint v div 256 ^ 4), M)"
    using XP_fromint_eq [of 4 "amem t" "adigits z" v] fresh_xin [OF z(1)] by (simp add: M_def)
  have fr: "fresh s (t\<lparr>amem := M\<rparr>) (adigits y) 4" using fresh_store [OF z(1)] by (simp add: M_def y_def)
  have "uint v mod 256 ^ 4 = \<bar>n\<bar>" using n by (simp add: v long_max_def long_min_def)
  then have "xval M (adigits z) 4 = \<bar>n\<bar>" unfolding M_def using xval_xstore fresh_xin [OF z(1)] by simp
  then obtain k where "normalize y 4 (t\<lparr>amem := M\<rparr>) = Inr (y\<lparr>andigits := k\<rparr>, t\<lparr>amem := M\<rparr>)"
    "wf_mag (t\<lparr>amem := M\<rparr>) (y\<lparr>andigits := k\<rparr>)" "amag (t\<lparr>amem := M\<rparr>) (y\<lparr>andigits := k\<rparr>) = \<bar>n\<bar>"
    using normalize_fresh [OF fr] z(2) by (auto simp: y_def)
  then show ?thesis
    using f z(2) fr
    by (intro exI [of _ "y\<lparr>andigits := k\<rparr>"] exI [of _ "t\<lparr>amem := M\<rparr>"])
       (auto simp: set_ap_def ap_steps v_def [symmetric] y_def [symmetric] wf_ap_def aval_def fresh_def, auto simp: y_def)
qed

lemma extends_upd [simp]:
  "extends s (t\<lparr>azero := a\<rparr>) = extends s t" "extends s (t\<lparr>aone := a\<rparr>) = extends s t" "extends s (t\<lparr>ainit := b\<rparr>) = extends s t"
  "extends (s\<lparr>azero := a\<rparr>) t = extends s t" "extends (s\<lparr>aone := a\<rparr>) t = extends s t" "extends (s\<lparr>ainit := b\<rparr>) t = extends s t"
  by (simp_all add: extends_def)

lemma mk_set_ok:
  assumes "long_min \<le> n" "n \<le> long_max"
  shows "\<exists>w u. bind_ap (mk_raw 4) (\<lambda>t. set_ap t n) s = Inr (w, u) \<and> wf_ap u w \<and> aval u w = n \<and> extends s u"
proof -
  obtain z t where z: "mk_raw 4 s = Inr (z, t)" "fresh s t (adigits z) 4" "asize z = 4"
    using mk_raw_ok [of 4 s] by auto
  then show ?thesis using set_ap_ok [OF z(2,3) assms] by (simp add: bind_ap_def)
qed

lemma AP_init_ok: "\<exists>t. AP_init s = Inr ((), t) \<and> extends s t"
proof -
  obtain w u where w: "bind_ap (mk_raw 4) (\<lambda>t. set_ap t 0) (s\<lparr>ainit := True\<rparr>) = Inr (w, u)" "extends s u"
    using mk_set_ok [of 0 "s\<lparr>ainit := True\<rparr>"] by (auto simp: long_max_def long_min_def)
  obtain w' u' where w': "bind_ap (mk_raw 4) (\<lambda>t. set_ap t 1) (u\<lparr>azero := Some w\<rparr>) = Inr (w', u')" "extends u u'"
    using mk_set_ok [of 1 "u\<lparr>azero := Some w\<rparr>"] by (auto simp: long_max_def long_min_def)
  show ?thesis
    unfolding AP_init_def bind_ap_def [of "bind_ap (mk_raw 4) (\<lambda>t. set_ap t 0)"] w(1) bind_res_Inr prod.case
      bind_ap_def [of "bind_ap (mk_raw 4) (\<lambda>t. set_ap t 1)"] w'(1)
    using extends_trans [OF w(2) w'(2)] by simp
qed

lemma mk_ok:
  assumes "0 < n"
  shows "\<exists>z t. mk (int n) s = Inr (z, t) \<and> fresh s t (adigits z) n \<and> amem t (xblk (adigits z)) = replicate n 0 \<and>
    asign z = 1 \<and> andigits z = 1 \<and> asize z = int n"
proof -
  obtain u where u: "(if ainit s then Inr ((), s) else AP_init s) = Inr ((), u)" "extends s u"
    using AP_init_ok [of s] by (cases "ainit s") auto
  show ?thesis
    using mk_raw_ok [OF assms, of u] u fresh_mono [OF u(2)] unfolding mk_def bind_ap_def u(1) by auto
qed

lemma AP_new_ok:
  assumes "long_min \<le> n" "n \<le> long_max"
  shows "computes (AP_new n) s n" "computes (AP_fromint n) s n"
proof -
  obtain z t where z: "mk 4 s = Inr (z, t)" "fresh s t (adigits z) 4" "asize z = 4"
    using mk_ok [of 4 s] by auto
  then show "computes (AP_new n) s n" "computes (AP_fromint n) s n"
    using set_ap_ok [OF z(2,3) assms] by (simp_all add: computes_def AP_new_def AP_fromint_def bind_ap_def)
qed

lemma bind_ap_Inr: "m s = Inr (x, t) \<Longrightarrow> bind_ap m f s = f x t"
  by (simp add: bind_ap_def)

subsection \<open>Sums and differences of magnitudes\<close>

text \<open>A step that leaves a number of magnitude \<open>v\<close> in the fresh array of \<open>z\<close>.\<close>

definition leaves :: "ap_t apm \<Rightarrow> ap_st \<Rightarrow> ap_st \<Rightarrow> int \<Rightarrow> bool" where
  "leaves m s t v \<longleftrightarrow> (\<exists>z u. m t = Inr (z, u) \<and> wf_mag u z \<and> amag u z = v \<and> extends s u)"

lemma leaves_sign:
  assumes "leaves m s t v" "c = 1 \<or> c = -1" "extends r s"
  shows "computes (bind_ap (\<lambda>_. m t) (\<lambda>z. set_sign z c)) r (c * v)"
proof -
  obtain z u where z: "m t = Inr (z, u)" "wf_mag u z" "amag u z = v" "extends s u" using assms(1) by (auto simp: leaves_def)
  then show ?thesis using set_sign_ok [OF z(2) assms(2)] extends_trans [OF assms(3) z(4)] by (auto simp: computes_def bind_ap_def)
qed

lemma normalize_leaves:
  assumes "fresh s t (adigits z) n" "asize z = int n" "0 < n" "xval (amem t) (adigits z) n = v"
  shows "leaves (normalize z (asize z)) s t v"
  using normalize_fresh [OF assms(1-3)] assms by (auto simp: leaves_def fresh_def)

lemma wf_mag_blk: "\<lbrakk>wf_mag s x; fresh s t d n\<rbrakk> \<Longrightarrow> xblk (adigits x) \<noteq> xblk d \<and> xin (amem t) (adigits x) (nat (andigits x))
    \<and> xval (amem t) (adigits x) (nat (andigits x)) = amag s x"
proof -
  assume x: "wf_mag s x" and f: "fresh s t d n"
  then have e: "amem t (xblk (adigits x)) = amem s (xblk (adigits x))" by (simp add: wf_mag_def fresh_def extends_def)
  then have "xin (amem t) (adigits x) (nat (andigits x))" using x by (simp add: wf_mag_def xin_def)
  then show ?thesis using x f xval_blk [of "amem t" "adigits x" "amem s", OF e] by (auto simp: wf_mag_def fresh_def amag_def)
qed

lemma set_top:
  assumes "xin M z (Suc m)"
  shows "\<exists>N. xp_write M z (int m) (of_int c) = Inr N \<and> xval N z (Suc m) = xval M z m + (c mod 256) * 256 ^ m \<and>
    (\<forall>b. b \<noteq> xblk z \<longrightarrow> N b = M b) \<and> (\<forall>b. length (N b) = length (M b))"
proof -
  let ?N = "xset M z {m} (\<lambda>_. of_int c)"
  have "xval ?N z m = xval M z m" using assms by (intro xval_cong) (simp add: xdig_xset_same xin_mono)
  then have "xval ?N z (Suc m) = xval M z m + (c mod 256) * 256 ^ m"
    using assms by (simp add: xval_Suc xdig_xset_same uint_of_int_u8)
  then show ?thesis using assms by (intro exI [of _ ?N]) (simp add: xp_write_in [of _ _ "Suc m"] xset_frame)
qed

lemma div_lt_2: "\<lbrakk>0 \<le> v; v < 2 * B\<rbrakk> \<Longrightarrow> 0 \<le> v div B \<and> v div B \<le> (1 :: int)"
proof -
  assume a: "0 \<le> v" "v < 2 * B"
  then have "0 < B" by linarith
  moreover have "0 \<le> v mod B" "B * (v div B) + v mod B = v" using \<open>0 < B\<close> by simp_all
  then have "B * (v div B) < B * 2" using a by linarith
  ultimately show ?thesis using a by (simp add: pos_imp_zdiv_nonneg_iff)
qed

lemma mag_add:
  assumes nm: "n < m" and i: "xin M z (Suc m)" "xin M x m" "xin M y n" and blk: "xblk x \<noteq> xblk z" "xblk y \<noteq> xblk z"
  shows "\<exists>N. bind_res (XP_add (int n) z x y 0 M) (\<lambda>(c, M).
       bind_res (XP_sum (int m - int n) (xp_plus z (int n)) (xp_plus x (int n)) c M) (\<lambda>(c, M). xp_write M z (int m) (of_int c))) = Inr N \<and>
     xval N z (Suc m) = xval M x m + xval M y n \<and> (\<forall>b. b \<noteq> xblk z \<longrightarrow> N b = M b) \<and> (\<forall>b. length (N b) = length (M b))"
proof -
  define d where "d = m - n"
  have m: "m = n + d" "int m - int n = int d" using nm by (simp_all add: d_def)
  let ?B = "256 ^ n :: int" and ?C = "256 ^ d :: int"
  define V where "V = xval M x n + xval M y n"
  define M1 where "M1 = xstore M z n V"
  define W where "W = xval M (xp_plus x (int n)) d + V div ?B"
  define M2 where "M2 = xstore M1 (xp_plus z (int n)) d W"
  have lt: "xval M x n < ?B" "xval M y n < ?B" "xval M (xp_plus x (int n)) d < ?C" by (simp_all add: xval_less)
  have V0: "0 \<le> V" "0 \<le> W" by (simp_all add: V_def W_def xval_nonneg pos_imp_zdiv_nonneg_iff)
  have a: "XP_add (int n) z x y 0 M = Inr (V div ?B, M1)"
    using XP_add_eq [of M z n x y 0] i blk xin_mono [OF i(1), of n] xin_mono [OF i(2), of n] nm by (simp add: fwd_ok_def Let_def V_def M1_def)
  have in1: "xin M1 (xp_plus z (int n)) d" "xin M1 (xp_plus x (int n)) d"
    using i xin_plus [OF i(1), of n d] xin_plus [OF i(2), of n d] by (simp_all add: M1_def m(1))
  have "xval M1 (xp_plus x (int n)) d = xval M (xp_plus x (int n)) d" using blk by (simp add: M1_def xstore_other xp_plus_def)
  then have s: "XP_sum (int d) (xp_plus z (int n)) (xp_plus x (int n)) (V div ?B) M1 = Inr (W div ?C, M2)"
    using XP_sum_eq [OF in1] V0 blk by (simp add: fwd_ok_def xp_plus_def Let_def W_def M2_def pos_imp_zdiv_nonneg_iff)
  have in2: "xin M2 z (Suc m)" using i by (simp add: M2_def M1_def)
  have "xval M2 z n = xval M1 z n"
    using xin_mono [OF i(1), of n] nm unfolding M2_def by (intro xval_xstore_disj) (simp_all add: xdisj_def xp_plus_def M1_def)
  also have "\<dots> = V mod ?B" using xin_mono [OF i(1), of n] nm by (simp add: M1_def xval_xstore)
  finally have "xval M2 z m = V mod ?B + ?B * (W mod ?C)"
    using in1 unfolding m(1) xval_split by (simp add: M2_def xval_xstore)
  moreover have "W div ?C mod 256 = W div ?C"
  proof -
    have "V < 2 * ?B" using lt by (simp add: V_def)
    then have "V div ?B \<le> 1" using div_lt_2 V0 by blast
    moreover have "1 \<le> ?C" by simp
    ultimately have "W < 2 * ?C" using lt(3) unfolding W_def by linarith
    then show ?thesis using div_lt_2 [of W ?C] V0 by simp
  qed
  ultimately have "xval M2 z m + (W div ?C mod 256) * 256 ^ m = V mod ?B + ?B * (?C * (W div ?C) + W mod ?C)"
    by (simp only: m(1) power_add) (simp only: algebra_simps)
  also have "\<dots> = ?B * (V div ?B) + V mod ?B + ?B * xval M (xp_plus x (int n)) d"
    unfolding mult_div_mod_eq [of ?C W] by (simp only: W_def algebra_simps)
  also have "\<dots> = xval M x m + xval M y n"
    by (simp only: mult_div_mod_eq) (simp add: V_def m(1) xval_split)
  finally have "xval M2 z m + (W div ?C mod 256) * 256 ^ m = xval M x m + xval M y n" .
  then show ?thesis
    using set_top [OF in2, of "W div ?C"] a s unfolding m(2)
    by (auto simp: M2_def M1_def xstore_frame xp_plus_def) (simp_all add: xstore_def)
qed

lemma add_ap_ok:
  assumes x: "wf_mag s x" and y: "wf_mag s y" and z: "fresh s t (adigits z) (nat (maxdigits x y + 1))" "asize z = maxdigits x y + 1"
  shows "leaves (add_ap z x y) s t (amag s x + amag s y)"
  using assms
proof (induction z x y rule: add_ap.induct)
  case (1 z x y)
  show ?case
  proof (cases "andigits x < andigits y")
    case True
    then have "maxdigits x y = maxdigits y x" by (simp add: maxdigits_def)
    then have "leaves (add_ap z y x) s t (amag s y + amag s x)" using 1 True by simp
    then show ?thesis using True by (simp add: leaves_def add_ap.simps [of z x y] add.commute)
  next
    case False
    define n m where "n = nat (andigits y)" and "m = nat (andigits x)"
    have nm: "andigits y = int n" "andigits x = int m" "n \<le> m" "0 < n" using 1 False by (auto simp: n_def m_def wf_mag_def)
    have mx: "maxdigits x y = int m" using False nm by (simp add: maxdigits_def)
    have fz: "fresh s t (adigits z) (Suc m)" "asize z = int (Suc m)" using 1(4,5) by (simp_all add: mx nat_add_distrib)
    let ?M = "amem t" and ?z = "adigits z" and ?x = "adigits x" and ?y = "adigits y"
    have X: "xblk ?x \<noteq> xblk ?z" "xin ?M ?x m" "xval ?M ?x m = amag s x" using wf_mag_blk [OF 1(2) fz(1)] by (simp_all add: nm)
    have Y: "xblk ?y \<noteq> xblk ?z" "xin ?M ?y n" "xval ?M ?y n = amag s y" using wf_mag_blk [OF 1(3) fz(1)] by (simp_all add: nm)
    have Z: "xin ?M ?z (Suc m)" using fresh_xin [OF fz(1)] by simp
    let ?op = "if n < m
            then bind_ap (on_mem (XP_add (int n) ?z ?x ?y 0)) (\<lambda>carry.
                 bind_ap (on_mem (XP_sum (int m - int n) (xp_plus ?z (int n)) (xp_plus ?x (int n)) carry)) (\<lambda>c.
                 do_mem (\<lambda>M. xp_write M ?z (int m) (of_int c))))
            else bind_ap (on_mem (XP_add (int n) ?z ?x ?y 0)) (\<lambda>c.
                 do_mem (\<lambda>M. xp_write M ?z (int n) (of_int c)))"
    have "\<exists>N. ?op t = Inr ((), t\<lparr>amem := N\<rparr>) \<and>
        xval N ?z (Suc m) = amag s x + amag s y \<and> (\<forall>b. b \<noteq> xblk ?z \<longrightarrow> N b = ?M b) \<and> (\<forall>b. length (N b) = length (?M b))"
    proof (cases "n < m")
      case True
      from mag_add [OF True Z X(2) Y(2) X(1) Y(1)] show ?thesis
        using True X(3) Y(3) by (fastforce simp: ap_steps bind_res_eq_Inr split: prod.splits)
    next
      case False
      then have e: "m = n" using nm by simp
      define V where "V = xval ?M ?x n + xval ?M ?y n"
      let ?M1 = "xstore ?M ?z n V"
      have a: "XP_add (int n) ?z ?x ?y 0 ?M = Inr (V div 256 ^ n, ?M1)"
        using XP_add_eq [of ?M ?z n ?x ?y 0] X Y xin_mono [OF Z, of n] by (simp add: fwd_ok_def Let_def V_def e)
      have "V < 2 * 256 ^ n" "0 \<le> V" using xval_less [of ?M ?x n] xval_less [of ?M ?y n] by (simp_all add: V_def xval_nonneg)
      then have "V div 256 ^ n mod 256 = V div 256 ^ n" using div_lt_2 [of V "256 ^ n"] by simp
      moreover have "xval ?M1 ?z n = V mod 256 ^ n" using xin_mono [OF Z, of n] by (simp add: e xval_xstore)
      moreover have "V mod 256 ^ n + V div 256 ^ n * 256 ^ n = V" by (rule mod_div_mult_eq)
      ultimately have "xval ?M1 ?z n + (V div 256 ^ n mod 256) * 256 ^ n = V" by simp
      then show ?thesis
        using set_top [of ?M1 ?z n "V div 256 ^ n"] Z a X(3) Y(3)
        by (auto simp: e ap_steps V_def xstore_frame) (auto simp: xstore_def)
    qed
    then obtain N where N: "xval N ?z (Suc m) = amag s x + amag s y" "\<forall>b. b \<noteq> xblk ?z \<longrightarrow> N b = ?M b" "\<forall>b. length (N b) = length (?M b)"
      "?op t = Inr ((), t\<lparr>amem := N\<rparr>)" by blast
    have "add_ap z x y = bind_ap ?op (\<lambda>_. normalize z (asize z))"
      using False fz(2) by (subst add_ap.simps) (simp add: Let_def nm)
    then have e: "add_ap z x y t = normalize z (asize z) (t\<lparr>amem := N\<rparr>)" using bind_ap_Inr [of ?op t, OF N(4)] by (simp only:)
    have "fresh s (t\<lparr>amem := N\<rparr>) ?z (Suc m)" using fresh_upd [OF fz(1), of N] N fz(1) by (simp add: fresh_def)
    then show ?thesis using normalize_leaves [of s "t\<lparr>amem := N\<rparr>" z "Suc m"] N(1) fz(2) e by (simp add: leaves_def)
  qed
qed

lemma xblk_plus [simp]: "xblk (xp_plus p k) = xblk p"
  by (simp add: xp_plus_def)

lemma mag_digits: "\<lbrakk>wf_mag s x; wf_mag s y; andigits x < andigits y\<rbrakk> \<Longrightarrow> amag s x < amag s y"
proof -
  assume a: "wf_mag s x" "wf_mag s y" "andigits x < andigits y"
  have "amag s x < 256 ^ nat (andigits x)" by (simp add: amag_def xval_less)
  also have "\<dots> \<le> 256 ^ (nat (andigits y) - 1)" using a by (intro power_increasing) (auto simp: wf_mag_def)
  also have "\<dots> \<le> amag s y" unfolding amag_def using a by (intro top_digit) (auto simp: wf_mag_def)
  finally show ?thesis .
qed

lemma cmp_ap_ok:
  assumes "wf_mag s x" "wf_mag s y"
  shows "\<exists>c. cmp_ap x y s = Inr (c, s) \<and> sgn c = sgn (amag s x - amag s y)"
proof (cases "andigits x = andigits y")
  case True
  define n where "n = nat (andigits x) - 1"
  have n: "nat (andigits x) = Suc n" "andigits x = int (Suc n)"
    using assms(1) by (auto simp: n_def wf_mag_def)
  have "xin (amem s) (adigits x) (Suc n)" "xin (amem s) (adigits y) (Suc n)"
    using assms n True by (auto intro!: wf_mag_xin simp: wf_mag_def)
  from XP_cmp_ok [OF this] show ?thesis
    using n True by (auto simp: cmp_ap_def ap_steps amag_def)
next
  case False
  then consider "andigits x < andigits y" | "andigits y < andigits x" by linarith
  then show ?thesis
    using mag_digits [OF assms] mag_digits [OF assms(2,1)] False by cases (auto simp: cmp_ap_def ap_steps sgn_if)
qed

lemma mag_sub:
  assumes nm: "n \<le> m" and i: "xin M z m" "xin M x m" "xin M y n" and blk: "xblk x \<noteq> xblk z" "xblk y \<noteq> xblk z"
    and le: "xval M y n \<le> xval M x m"
  shows "\<exists>N. bind_res (XP_sub (int n) z x y 0 M) (\<lambda>(b, M).
       if n < m then XP_diff (int m - int n) (xp_plus z (int n)) (xp_plus x (int n)) b M else Inr (b, M)) = Inr (0, N) \<and>
     xval N z m = xval M x m - xval M y n \<and> (\<forall>b. b \<noteq> xblk z \<longrightarrow> N b = M b) \<and> (\<forall>b. length (N b) = length (M b))"
proof -
  define d where "d = m - n"
  have m: "m = n + d" "int m - int n = int d" using nm by (simp_all add: d_def)
  let ?B = "256 ^ n :: int" and ?C = "256 ^ d :: int"
  define V where "V = xval M x n - xval M y n"
  define M1 where "M1 = xstore M z n V"
  define W where "W = xval M (xp_plus x (int n)) d + V div ?B"
  have Bp: "0 < ?B" by simp
  have lt: "xval M x n < ?B" "xval M y n < ?B" "xval M (xp_plus x (int n)) d < ?C" "0 \<le> xval M y n" "0 \<le> xval M x n"
    by (simp_all add: xval_less xval_nonneg)
  have X: "xval M x m = xval M x n + ?B * xval M (xp_plus x (int n)) d" by (simp add: m(1) xval_split)
  have vm: "0 \<le> V mod ?B" "V mod ?B < ?B" "?B * (V div ?B) + V mod ?B = V" by simp_all
  have "xval M x m - xval M y n = V + ?B * xval M (xp_plus x (int n)) d" by (simp add: X V_def)
  also have "\<dots> = V mod ?B + ?B * W" unfolding W_def distrib_left using vm(3) by linarith
  finally have dif: "xval M x m - xval M y n = V mod ?B + ?B * W" .
  have "- ?B < ?B * W" using dif le vm by linarith
  then have "?B * (- 1) < ?B * W" by simp
  then have W0: "0 \<le> W" using Bp by (simp only: mult_less_cancel_left_pos)
  have "- ?B \<le> V" "V \<le> ?B - 1" using lt by (simp_all add: V_def)
  then have Vd: "- 1 \<le> V div ?B" "V div ?B \<le> 0"
    using zdiv_mono1 [of "(- 1) * ?B" V ?B] nonzero_mult_div_cancel_right [of ?B "- 1"] zdiv_mono1 [of V "?B - 1" ?B] by simp_all
  have WC: "W < ?C" using lt(3) Vd by (simp add: W_def)
  have s: "XP_sub (int n) z x y 0 M = Inr (- (V div ?B), M1)"
    using XP_sub_eq [of M z n x y 0] i blk xin_mono [OF i(1), of n] xin_mono [OF i(2), of n] nm by (simp add: fwd_ok_def Let_def V_def M1_def)
  have v1: "xval M1 z n = V mod ?B" using xin_mono [OF i(1), of n] nm by (simp add: M1_def xval_xstore)
  show ?thesis
  proof (cases "n < m")
    case True
    define M2 where "M2 = xstore M1 (xp_plus z (int n)) d W"
    have in1: "xin M1 (xp_plus z (int n)) d" "xin M1 (xp_plus x (int n)) d"
      using i xin_plus [OF i(1), of n d] xin_plus [OF i(2), of n d] by (simp_all add: M1_def m(1))
    have "xval M1 (xp_plus x (int n)) d = xval M (xp_plus x (int n)) d" using blk by (simp add: M1_def xstore_other xp_plus_def)
    then have t: "XP_diff (int d) (xp_plus z (int n)) (xp_plus x (int n)) (- (V div ?B)) M1 = Inr (0, M2)"
      using XP_diff_eq [OF in1, of "- (V div ?B)"] Vd W0 WC blk by (simp add: fwd_ok_def Let_def W_def [symmetric] M2_def)
    have "xval M2 z n = xval M1 z n"
      using xin_mono [OF i(1), of n] nm unfolding M2_def by (intro xval_xstore_disj) (simp_all add: xdisj_def xp_plus_def M1_def)
    then have "xval M2 z m = xval M x m - xval M y n"
      unfolding dif using in1 v1 W0 WC unfolding m(1) xval_split by (simp add: M2_def xval_xstore)
    then show ?thesis using True s t unfolding m(2) by (auto simp: M2_def M1_def xstore_frame xp_plus_def) (simp_all add: xstore_def)
  next
    case False
    then have "d = 0" "m = n" using m by simp_all
    then have "V div ?B = 0" using W0 Vd by (simp add: W_def)
    then show ?thesis using False s v1 dif \<open>d = 0\<close> \<open>m = n\<close>
      by (auto simp: M1_def xstore_frame W_def) (simp add: xstore_def)
  qed
qed

lemma sub_ap_ok:
  assumes x: "wf_mag s x" and y: "wf_mag s y" and le: "amag s y \<le> amag s x"
    and z: "fresh s t (adigits z) (nat (andigits x))" "asize z = andigits x"
  shows "leaves (sub_ap z x y) s t (amag s x - amag s y)"
proof -
  define n m where "n = nat (andigits y)" and "m = nat (andigits x)"
  have "\<not> andigits x < andigits y" using mag_digits [OF x y] le by linarith
  then have nm: "andigits y = int n" "andigits x = int m" "n \<le> m" "0 < m" using x y by (auto simp: n_def m_def wf_mag_def)
  have fz: "fresh s t (adigits z) m" "asize z = int m" using z by (simp_all add: nm)
  let ?M = "amem t" and ?z = "adigits z" and ?x = "adigits x" and ?y = "adigits y"
  have X: "xblk ?x \<noteq> xblk ?z" "xin ?M ?x m" "xval ?M ?x m = amag s x" using wf_mag_blk [OF x fz(1)] by (simp_all add: nm)
  have Y: "xblk ?y \<noteq> xblk ?z" "xin ?M ?y n" "xval ?M ?y n = amag s y" using wf_mag_blk [OF y fz(1)] by (simp_all add: nm)
  have Z: "xin ?M ?z m" using fresh_xin [OF fz(1)] by simp
  obtain N where N: "bind_res (XP_sub (int n) ?z ?x ?y 0 ?M) (\<lambda>(b, M).
       if n < m then XP_diff (int m - int n) (xp_plus ?z (int n)) (xp_plus ?x (int n)) b M else Inr (b, M)) = Inr (0, N)"
     "xval N ?z m = amag s x - amag s y" "\<forall>b. b \<noteq> xblk ?z \<longrightarrow> N b = ?M b" "\<forall>b. length (N b) = length (?M b)"
    using mag_sub [OF nm(3) Z X(2) Y(2) X(1) Y(1)] X(3) Y(3) le by auto
  have e: "sub_ap z x y t = normalize z (asize z) (t\<lparr>amem := N\<rparr>)"
    using N(1) by (cases "n < m") (auto simp: sub_ap_def Let_def nm ap_steps assert_c_def bind_res_eq_Inr split: prod.splits)
  have "fresh s (t\<lparr>amem := N\<rparr>) ?z m" using fresh_upd [OF fz(1), of N] N fz(1) by (simp add: fresh_def)
  then show ?thesis using normalize_leaves [of s "t\<lparr>amem := N\<rparr>" z m] N(2) fz(2) nm(4) e by (simp add: leaves_def)
qed

subsection \<open>The operations refine integer arithmetic\<close>

lemma sign_xor: "\<lbrakk>wf_ap s x; wf_ap s y\<rbrakk> \<Longrightarrow> asign x XOR asign y = 0 \<longleftrightarrow> asign x = asign y"
  by (auto simp: wf_ap_def)

lemma sign_prod: "\<lbrakk>wf_ap s x; wf_ap s y\<rbrakk> \<Longrightarrow> (if asign x XOR asign y = 0 then 1 else - 1) = asign x * asign y"
  by (auto simp: wf_ap_def)

lemma wf_apD: "wf_ap s x \<Longrightarrow> wf_mag s x" "wf_ap s x \<Longrightarrow> asign x = 1 \<or> asign x = -1" "wf_ap s x \<Longrightarrow> 0 < andigits x"
  by (auto simp: wf_ap_def wf_mag_def)

text \<open>The shape of every operation: a fresh number, the work on its digits, its sign.\<close>

lemma mk_leaves:
  assumes n: "0 < n" and c: "c = 1 \<or> c = -1"
    and f: "\<And>z t. \<lbrakk>fresh s t (adigits z) (nat n); asize z = n; amem t (xblk (adigits z)) = replicate (nat n) 0\<rbrakk> \<Longrightarrow> leaves (f z) s t v"
  shows "computes (bind_ap (mk n) (\<lambda>z. bind_ap (f z) (\<lambda>z. set_sign z c))) s (c * v)"
proof -
  obtain z t where z: "mk n s = Inr (z, t)" "fresh s t (adigits z) (nat n)" "asize z = n" "amem t (xblk (adigits z)) = replicate (nat n) 0"
    using mk_ok [of "nat n" s] n by auto
  from leaves_sign [OF f [OF z(2-4)] c extends_refl] show ?thesis
    using z(1) by (simp add: computes_def bind_ap_def)
qed

lemma computes_cong: "\<lbrakk>computes m s v; m s = m' s; v = v'\<rbrakk> \<Longrightarrow> computes m' s v'"
  by (simp add: computes_def)

lemma add_signed:
  assumes "wf_ap s x" "wf_ap s y"
  shows "computes (bind_ap (mk (maxdigits x y + 1)) (\<lambda>z. bind_ap (add_ap z x y) (\<lambda>z. set_sign z (asign x)))) s (asign x * (amag s x + amag s y))"
  using assms by (intro mk_leaves add_ap_ok) (auto simp: maxdigits_def dest: wf_apD)

lemma sub_signed:
  assumes x: "wf_ap s x" and y: "wf_ap s y"
  shows "computes (bind_ap (cmp_ap x y) (\<lambda>c.
          if 0 < c
          then bind_ap (mk (andigits x)) (\<lambda>z. bind_ap (sub_ap z x y) (\<lambda>z. set_sign z (asign x)))
          else bind_ap (mk (andigits y)) (\<lambda>z. bind_ap (sub_ap z y x) (\<lambda>z. set_sign z (- asign x))))) s (asign x * (amag s x - amag s y))"
proof -
  obtain c where c: "cmp_ap x y s = Inr (c, s)" "sgn c = sgn (amag s x - amag s y)" using cmp_ap_ok wf_apD x y by blast
  note w = wf_apD [OF x] wf_apD [OF y]
  show ?thesis
  proof (cases "0 < c")
    case True
    then have "amag s y \<le> amag s x" using c(2) by (simp add: sgn_if split: if_splits)
    then have "computes (bind_ap (mk (andigits x)) (\<lambda>z. bind_ap (sub_ap z x y) (\<lambda>z. set_sign z (asign x)))) s (asign x * (amag s x - amag s y))"
      using w by (intro mk_leaves sub_ap_ok) auto
    then show ?thesis by (rule computes_cong) (simp_all add: bind_ap_Inr [of "cmp_ap x y" s, OF c(1)] True)
  next
    case False
    then have "amag s x \<le> amag s y" using c(2) by (simp add: sgn_if split: if_splits)
    then have "computes (bind_ap (mk (andigits y)) (\<lambda>z. bind_ap (sub_ap z y x) (\<lambda>z. set_sign z (- asign x)))) s (- asign x * (amag s y - amag s x))"
      using w by (intro mk_leaves sub_ap_ok) auto
    then show ?thesis by (rule computes_cong) (simp_all add: bind_ap_Inr [of "cmp_ap x y" s, OF c(1)] False algebra_simps)
  qed
qed

lemma the_ap_Some [simp]: "bind_ap (the_ap (Some x) msg) f = f x"
  by (simp add: fun_eq_iff ap_steps)

lemma AP_add_ok:
  assumes "wf_ap s x" "wf_ap s y"
  shows "computes (AP_add (Some x) (Some y)) s (aval s x + aval s y)"
  using add_signed [OF assms] sub_signed [OF assms] sign_xor [OF assms] wf_apD(2) [OF assms(1)] wf_apD(2) [OF assms(2)]
  by (auto simp: AP_add_def aval_def algebra_simps)

lemma AP_sub_ok:
  assumes "wf_ap s x" "wf_ap s y"
  shows "computes (AP_sub (Some x) (Some y)) s (aval s x - aval s y)"
  using add_signed [OF assms] sub_signed [OF assms] sign_xor [OF assms] wf_apD(2) [OF assms(1)] wf_apD(2) [OF assms(2)]
  by (auto simp: AP_sub_def aval_def algebra_simps)

lemma AP_cmp_ok:
  assumes "wf_ap s x" "wf_ap s y"
  shows "\<exists>c. AP_cmp (Some x) (Some y) s = Inr (c, s) \<and> sgn c = sgn (aval s x - aval s y)"
proof (cases "asign x = asign y")
  case True
  then show ?thesis
    using cmp_ap_ok [OF assms [THEN wf_apD(1)]] cmp_ap_ok [OF assms(2,1) [THEN wf_apD(1)]] sign_xor [OF assms] wf_apD(2) [OF assms(1)] wf_apD(2) [OF assms(2)]
    by (auto simp: AP_cmp_def aval_def dest: wf_apD)
next
  case False
  have m: "0 \<le> amag s x" "0 \<le> amag s y" by (simp_all add: amag_nonneg)
  have "amag s x \<noteq> 0 \<or> amag s y \<noteq> 0" using False assms by (auto simp: wf_ap_def)
  then have "0 < amag s x + amag s y" using m by linarith
  then have "sgn (asign x) = sgn (aval s x - aval s y)"
    using False wf_apD(2) [OF assms(1)] wf_apD(2) [OF assms(2)] by (auto simp: aval_def)
  then show ?thesis using False sign_xor [OF assms] by (simp add: AP_cmp_def return_ap_def)
qed

lemma bind_ap_assoc: "bind_ap (bind_ap m f) g = bind_ap m (\<lambda>x. bind_ap (f x) g)"
  by (simp add: fun_eq_iff bind_ap_def bind_res_assoc case_prod_unfold)

lemma fresh_lens:
  "\<lbrakk>fresh s t d n; \<And>b. anext s \<le> b \<or> N b = amem t b; lens N = lens (amem t)\<rbrakk> \<Longrightarrow> fresh s (t\<lparr>amem := N\<rparr>) d n"
  by (auto simp: fresh_def extends_def lens_eq not_le) (metis leD order_less_le_trans)+

lemma fresh_extends: "\<lbrakk>fresh s t d n; extends t u\<rbrakk> \<Longrightarrow> fresh s u d n"
  by (auto simp: fresh_def extends_def)

lemma xval_zeros: "\<lbrakk>M (xblk d) = replicate k 0; xoff d = 0; n \<le> k\<rbrakk> \<Longrightarrow> xval M d n = 0"
  by (simp add: xval_def xdig_def)

lemma mul_leaves:
  assumes x: "wf_mag s x" and y: "wf_mag s y" and z: "fresh s t (adigits z) (nat (andigits x + andigits y))" "asize z = andigits x + andigits y"
    "amem t (xblk (adigits z)) = replicate (nat (andigits x + andigits y)) 0"
  shows "leaves (bind_ap (on_mem (XP_mul (adigits z) (andigits x) (adigits x) (andigits y) (adigits y))) (\<lambda>_. normalize z (asize z))) s t
    (amag s x * amag s y)"
proof -
  define n m where "n = nat (andigits x)" and "m = nat (andigits y)"
  have nm: "andigits x = int n" "andigits y = int m" "0 < n" using x y by (auto simp: n_def m_def wf_mag_def)
  have fz: "fresh s t (adigits z) (n + m)" "asize z = int (n + m)" using z by (simp_all add: nm nat_add_distrib)
  let ?M = "amem t" and ?z = "adigits z" and ?x = "adigits x" and ?y = "adigits y"
  have X: "xblk ?x \<noteq> xblk ?z" "xin ?M ?x n" "xval ?M ?x n = amag s x" using wf_mag_blk [OF x fz(1)] by (simp_all add: nm)
  have Y: "xblk ?y \<noteq> xblk ?z" "xin ?M ?y m" "xval ?M ?y m = amag s y" using wf_mag_blk [OF y fz(1)] by (simp_all add: nm)
  have Z: "xin ?M ?z (n + m)" using fresh_xin [OF fz(1)] by simp
  define V where "V = amag s x * amag s y"
  have "xval ?M ?z (n + m) = 0" using z(3) fz(1) by (intro xval_zeros [where k = "n + m"]) (simp_all add: nm fresh_def nat_add_distrib)
  then have e: "XP_mul ?z (int n) ?x (int m) ?y ?M = Inr (of_int (V div 256 ^ (n + m)), xstore ?M ?z (n + m) V)"
    using XP_mul_eq [OF Z X(2) Y(2)] X Y by (simp add: xdisj_def V_def Let_def)
  have "V < 256 ^ n * 256 ^ m"
    using xval_less [of ?M ?x n] xval_less [of ?M ?y m] unfolding V_def X(3) [symmetric] Y(3) [symmetric]
    by (intro mult_strict_mono) (simp_all add: xval_nonneg)
  then have "xval (xstore ?M ?z (n + m) V) ?z (n + m) = V"
    using Z by (simp add: xval_xstore V_def amag_nonneg power_add)
  moreover have "fresh s (t\<lparr>amem := xstore ?M ?z (n + m) V\<rparr>) ?z (n + m)" by (rule fresh_store [OF fz(1)])
  ultimately have "leaves (normalize z (asize z)) s (t\<lparr>amem := xstore ?M ?z (n + m) V\<rparr>) V"
    using fz(2) nm(3) by (intro normalize_leaves) simp_all
  then show ?thesis using e by (simp add: leaves_def V_def nm ap_steps)
qed

lemma AP_mul_ok:
  assumes "wf_ap s x" "wf_ap s y"
  shows "computes (AP_mul (Some x) (Some y)) s (aval s x * aval s y)"
proof -
  note w = wf_apD [OF assms(1)] wf_apD [OF assms(2)]
  have "computes (bind_ap (mk (andigits x + andigits y)) (\<lambda>z.
      bind_ap (bind_ap (on_mem (XP_mul (adigits z) (andigits x) (adigits x) (andigits y) (adigits y))) (\<lambda>_. normalize z (asize z)))
      (\<lambda>z. set_sign z (asign x * asign y)))) s (asign x * asign y * (amag s x * amag s y))"
    using w by (intro mk_leaves mul_leaves) auto
  then show ?thesis
    by (simp add: AP_mul_def bind_ap_assoc sign_prod [OF assms] aval_def algebra_simps)
qed

lemma copy_leaves:
  assumes x: "wf_mag s x"
  shows "leaves (copy_ap x) s s (amag s x)"
proof -
  define n where "n = nat (andigits x)"
  have n: "andigits x = int n" "0 < n" using x by (auto simp: n_def wf_mag_def)
  obtain z t where z: "mk (int n) s = Inr (z, t)" "fresh s t (adigits z) n" "asize z = int n" using mk_ok [OF n(2)] by blast
  let ?M = "amem t" and ?z = "adigits z" and ?x = "adigits x"
  have X: "xblk ?x \<noteq> xblk ?z" "xin ?M ?x n" "xval ?M ?x n = amag s x" using wf_mag_blk [OF x z(2)] by (simp_all add: n)
  have Z: "xin ?M ?z n" using fresh_xin [OF z(2)] by simp
  let ?N = "xstore ?M ?z n (amag s x)"
  have c: "xp_memcpy ?z ?x (int n) ?M = Inr ?N" using xp_memcpy_eq [OF Z X(2)] X by (simp add: fwd_ok_def)
  have v: "xval ?N ?z n = amag s x"
    using Z xval_less [of ?M ?x n] by (simp add: xval_xstore amag_nonneg X(3))
  have fr: "fresh s (t\<lparr>amem := ?N\<rparr>) ?z n" by (rule fresh_store [OF z(2)])
  have "n = 1 \<or> xdig ?N ?z (n - 1) \<noteq> 0"
  proof (cases "n = 1")
    case False
    then have "256 ^ (n - 1) \<le> amag s x" using x n top_digit [of "amem s" ?x n] by (auto simp: amag_def wf_mag_def)
    then have "xval ?N ?z (Suc (n - 1)) \<ge> 256 ^ (n - 1)" using v n by simp
    moreover have "xval ?N ?z (n - 1) < 256 ^ (n - 1)" by (rule xval_less)
    ultimately have "xdig ?N ?z (n - 1) \<noteq> 0" by (auto simp: xval_Suc)
    then show ?thesis by simp
  qed simp
  then have "wf_mag (t\<lparr>amem := ?N\<rparr>) (z\<lparr>andigits := int n\<rparr>)" using fr z(3) n by (auto simp: wf_mag_def fresh_def)
  then show ?thesis
    using z(1) c v fr by (auto simp: leaves_def copy_ap_def n ap_steps amag_def fresh_def)
qed

lemma AP_neg_ok: "wf_ap s x \<Longrightarrow> computes (AP_neg (Some x)) s (- aval s x)"
  using leaves_sign [OF copy_leaves, of s x "- asign x" s] by (auto simp: AP_neg_def aval_def computes_def bind_ap_def dest: wf_apD)

lemma AP_abs_ok: "wf_ap s x \<Longrightarrow> computes (AP_abs (Some x)) s \<bar>aval s x\<bar>"
proof -
  assume x: "wf_ap s x"
  have "\<bar>aval s x\<bar> = amag s x" using wf_apD(2) [OF x] amag_nonneg [of s x] by (auto simp: aval_def)
  then show ?thesis
    using copy_leaves [OF wf_apD(1) [OF x]] by (auto simp: AP_abs_def leaves_def computes_def bind_ap_def return_ap_def wf_ap_def aval_def)
qed

subsection \<open>Division\<close>

lemma fresh_blk: "\<lbrakk>fresh s t d n; fresh t u d' n'\<rbrakk> \<Longrightarrow> xblk d \<noteq> xblk d'"
  by (auto simp: fresh_def)

lemma divmod_ap_ok:
  assumes wx: "wf_ap s x" and wy: "wf_ap s y" and nz: "amag s y \<noteq> 0"
  shows "\<exists>q r t. divmod_ap (Some x) (Some y) s = Inr ((x, y, q, r), t) \<and> extends s t \<and>
    wf_mag t q \<and> amag t q = amag s x div amag s y \<and> wf_mag t r \<and> amag t r = amag s x mod amag s y"
proof -
  note x = wf_apD(1) [OF wx] and y = wf_apD(1) [OF wy]
  define n m where "n = nat (andigits x)" and "m = nat (andigits y)"
  have nm: "andigits x = int n" "andigits y = int m" "0 < n" "0 < m" using x y by (auto simp: n_def m_def wf_mag_def)
  obtain q t1 where q: "mk (int n) s = Inr (q, t1)" "fresh s t1 (adigits q) n" "asize q = int n" using mk_ok [OF nm(3)] by blast
  obtain r t2 where r: "mk (int m) t1 = Inr (r, t2)" "fresh t1 t2 (adigits r) m" "asize r = int m" using mk_ok [OF nm(4)] by blast
  obtain d t3 where d: "alloc_digits False (int n + int m + 2) t2 = Inr (d, t3)" "fresh t2 t3 d (n + m + 2)"
    using alloc_digits_ok [of False "n + m + 2" t2] by (auto simp: algebra_simps)
  have e: "extends s t1" "extends t1 t2" "extends t2 t3" using q(2) r(2) d(2) by (simp_all add: fresh_def)
  note e13 = extends_trans [OF e(2,3)] and e03 = extends_trans [OF e(1) extends_trans [OF e(2,3)]]
  have Q: "fresh s t3 (adigits q) n" using fresh_extends [OF q(2) e13] .
  have R: "fresh s t3 (adigits r) m" using fresh_mono [OF e(1) fresh_extends [OF r(2) e(3)]] .
  have D: "fresh s t3 d (n + m + 2)" using fresh_mono [OF extends_trans [OF e(1,2)] d(2)] .
  have ne: "xblk (adigits q) \<noteq> xblk (adigits r)" "xblk (adigits q) \<noteq> xblk d" "xblk (adigits r) \<noteq> xblk d"
    using fresh_blk [OF q(2) fresh_extends [OF r(2) e(3)]] fresh_blk [OF fresh_extends [OF q(2) e(2)] d(2)] fresh_blk [OF r(2) d(2)] by simp_all
  have X: "xin (amem t3) (adigits x) n" "xval (amem t3) (adigits x) n = amag s x"
    "xblk (adigits x) \<notin> {xblk (adigits q), xblk (adigits r), xblk d}"
    using wf_mag_blk [OF x Q] wf_mag_blk [OF x R] wf_mag_blk [OF x D] by (simp_all add: nm)
  have Y: "xin (amem t3) (adigits y) m" "xval (amem t3) (adigits y) m = amag s y"
    "xblk (adigits y) \<notin> {xblk (adigits q), xblk (adigits r), xblk d}"
    using wf_mag_blk [OF y Q] wf_mag_blk [OF y R] wf_mag_blk [OF y D] by (simp_all add: nm)
  obtain N where N: "XP_div (int n) (adigits q) (adigits x) (int m) (adigits y) (adigits r) d (amem t3) = Inr (1, N)"
    "xval N (adigits q) n = amag s x div amag s y" "xval N (adigits r) m = amag s x mod amag s y"
    "\<And>b. b \<notin> {xblk (adigits q), xblk (adigits r), xblk d} \<Longrightarrow> N b = amem t3 b"
    using XP_div_ok [OF nm(3,4) fresh_xin [OF Q] X(1) Y(1) fresh_xin [OF R] fresh_xin [OF D] _ X(3) Y(3)] X(2) Y(2) nz ne by fastforce
  have old: "anext s \<le> b \<or> N b = amem t3 b" for b using N(4) [of b] Q R D by (auto simp: fresh_def)
  let ?t = "t3\<lparr>amem := N\<rparr>"
  note fr = fresh_lens [OF _ old XP_div_lens [OF N(1)]]
  obtain k where k: "normalize q (int n) ?t = Inr (q\<lparr>andigits := k\<rparr>, ?t)" "wf_mag ?t (q\<lparr>andigits := k\<rparr>)" "amag ?t (q\<lparr>andigits := k\<rparr>) = amag s x div amag s y"
    using normalize_fresh [OF fr [OF Q] q(3) nm(3)] N(2) by auto
  obtain l where l: "normalize r (int m) ?t = Inr (r\<lparr>andigits := l\<rparr>, ?t)" "wf_mag ?t (r\<lparr>andigits := l\<rparr>)" "amag ?t (r\<lparr>andigits := l\<rparr>) = amag s x mod amag s y"
    using normalize_fresh [OF fr [OF R] r(3) nm(4)] N(3) by auto
  have "iszero y s = Inr (False, s)" using iszero_ok [OF y] nz by simp
  then have "divmod_ap (Some x) (Some y) s = Inr ((x, y, q\<lparr>andigits := k\<rparr>, r\<lparr>andigits := l\<rparr>), ?t)"
    using q r d N(1) k(1) l(1) by (simp add: divmod_ap_def nm ap_steps assert_c_def)
  then show ?thesis using k l fr [OF Q] by (auto simp: fresh_def)
qed

lemma AP_div_ok:
  assumes "wf_ap s x" "wf_ap s y" "aval s y \<noteq> 0"
  shows "computes (AP_div (Some x) (Some y)) s (aval s x sdiv aval s y)" "computes (AP_mod (Some x) (Some y)) s (aval s x smod aval s y)"
proof -
  note sg = wf_apD(2) [OF assms(1)] wf_apD(2) [OF assms(2)]
  have nz: "amag s y \<noteq> 0" using assms(3) by (auto simp: aval_def)
  have m: "0 \<le> amag s x" "0 \<le> amag s y" by (simp_all add: amag_nonneg)
  obtain q r t where t: "divmod_ap (Some x) (Some y) s = Inr ((x, y, q, r), t)" "extends s t"
    "wf_mag t q" "amag t q = amag s x div amag s y" "wf_mag t r" "amag t r = amag s x mod amag s y"
    using divmod_ap_ok [OF assms(1,2) nz] by blast
  have "aval s x sdiv aval s y = asign x * asign y * (amag s x div amag s y)"
    using sg m nz by (auto simp: signed_divide_int_def aval_def sgn_if)
  then show "computes (AP_div (Some x) (Some y)) s (aval s x sdiv aval s y)"
    using set_sign_ok [OF t(3), of "asign x * asign y"] sg t by (auto simp: computes_def AP_div_def sign_prod [OF assms(1,2)] bind_ap_def)
  have "aval s x smod aval s y = asign x * (amag s x mod amag s y)"
    using sg m nz by (auto simp: signed_modulo_int_def signed_divide_int_def aval_def sgn_if minus_div_mult_eq_mod [symmetric] algebra_simps)
  then show "computes (AP_mod (Some x) (Some y)) s (aval s x smod aval s y)"
    using set_sign_ok [OF t(5), of "asign x"] sg t by (auto simp: computes_def AP_mod_def bind_ap_def)
qed

lemma AP_div_zero:
  assumes "wf_ap s x" "wf_ap s y" "aval s y = 0"
  shows "AP_div (Some x) (Some y) s = Inl (Errquit ''!iszero(y)'')" "AP_mod (Some x) (Some y) s = Inl (Errquit ''!iszero(y)'')"
proof -
  have "amag s y = 0" using assms by (auto simp: aval_def wf_ap_def)
  then have "divmod_ap (Some x) (Some y) s = Inl (Errquit ''!iszero(y)'')"
    using iszero_ok [OF wf_apD(1) [OF assms(2)]] by (simp add: divmod_ap_def ap_steps assert_c_def)
  then show "AP_div (Some x) (Some y) s = Inl (Errquit ''!iszero(y)'')" "AP_mod (Some x) (Some y) s = Inl (Errquit ''!iszero(y)'')"
    by (simp_all add: AP_div_def AP_mod_def bind_ap_def)
qed

subsection \<open>Operands that are machine integers\<close>

lemma computes_bind:
  assumes "computes m s v" "\<And>z t. \<lbrakk>wf_ap t z; aval t z = v; extends s t\<rbrakk> \<Longrightarrow> computes (f z) t w"
  shows "computes (bind_ap m f) s w"
proof -
  obtain z t where z: "m s = Inr (z, t)" "wf_ap t z" "aval t z = v" "extends s t" using assms(1) by (auto simp: computes_def)
  then show ?thesis using assms(2) [of t z] extends_trans [OF z(4)] by (auto simp: computes_def bind_ap_def)
qed

lemma AP_new_bind: "bind_ap (mk 4) (\<lambda>t. bind_ap (set_ap t y) f) = bind_ap (AP_new y) f"
  by (simp add: AP_new_def bind_ap_assoc)

lemma AP_immediate_ok:
  assumes x: "wf_ap s x" and n: "long_min \<le> n" "n \<le> long_max"
  shows "computes (AP_addi (Some x) n) s (aval s x + n)" "computes (AP_subi (Some x) n) s (aval s x - n)"
    "computes (AP_muli (Some x) n) s (aval s x * n)"
    "n \<noteq> 0 \<Longrightarrow> computes (AP_divi (Some x) n) s (aval s x sdiv n)"
proof -
  note new = AP_new_ok(1) [OF n, of s] and w = wf_ap_extends [OF _ x] and a = aval_extends [OF _ x]
  show "computes (AP_addi (Some x) n) s (aval s x + n)"
    unfolding AP_addi_def AP_new_bind by (rule computes_bind [OF new]) (use AP_add_ok w a in metis)
  show "computes (AP_subi (Some x) n) s (aval s x - n)"
    unfolding AP_subi_def AP_new_bind by (rule computes_bind [OF new]) (use AP_sub_ok w a in metis)
  show "computes (AP_muli (Some x) n) s (aval s x * n)"
    unfolding AP_muli_def AP_new_bind by (rule computes_bind [OF new]) (use AP_mul_ok w a in metis)
  show "n \<noteq> 0 \<Longrightarrow> computes (AP_divi (Some x) n) s (aval s x sdiv n)"
    unfolding AP_divi_def AP_new_bind by (rule computes_bind [OF new]) (use AP_div_ok w a in metis)
qed

lemma AP_cmpi_ok:
  assumes x: "wf_ap s x" and n: "long_min \<le> n" "n \<le> long_max"
  shows "\<exists>c t. AP_cmpi (Some x) n s = Inr (c, t) \<and> sgn c = sgn (aval s x - n) \<and> extends s t"
proof -
  obtain z t where z: "AP_new n s = Inr (z, t)" "wf_ap t z" "aval t z = n" "extends s t" using AP_new_ok(1) [OF n, of s] by (auto simp: computes_def)
  then show ?thesis
    using AP_cmp_ok [OF wf_ap_extends [OF z(4) x] z(2)] aval_extends [OF z(4) x] by (auto simp: AP_cmpi_def AP_new_bind bind_ap_def)
qed

subsection \<open>Shifts\<close>

lemma round_bits: "0 \<le> k \<Longrightarrow> ((k + 7) AND NOT 7) sdiv 8 = (k + 7) div (8 :: int)"
proof -
  assume k: "0 \<le> k"
  have "a AND NOT (mask 3) = push_bit 3 (drop_bit 3 a)" for a :: int by (intro bit_eqI) (auto simp: bit_simps)
  from this [of "k + 7"] have "(k + 7) AND NOT 7 = push_bit 3 (drop_bit 3 (k + 7))" by (simp add: mask_eq_exp_minus_1)
  also have "\<dots> = 8 * ((k + 7) div 8)" by (simp add: push_bit_eq_mult drop_bit_eq_div)
  finally have "(k + 7) AND NOT 7 = 8 * ((k + 7) div 8)" .
  then show ?thesis using k by (simp add: signed_divide_int_def sgn_if)
qed

lemma AP_lshift_ok:
  assumes w: "wf_ap s x"
  shows "computes (AP_lshift (Some x) (int k)) s (aval s x * 2 ^ k)"
proof -
  note x = wf_apD(1) [OF w]
  define m n where "m = nat (andigits x)" and "n = m + (k + 7) div 8"
  have nm: "andigits x = int m" "0 < m" "0 < n" using x by (auto simp: m_def n_def wf_mag_def)
  have "((int k + 7) AND NOT 7) sdiv 8 = int ((k + 7) div 8)" using round_bits [of "int k"] by (simp add: zdiv_int)
  then have sz: "andigits x + ((int k + 7) AND NOT 7) sdiv 8 = int n" by (simp only: nm n_def of_nat_add)
  obtain z t where z: "mk (int n) s = Inr (z, t)" "fresh s t (adigits z) n" "asize z = int n" using mk_ok [OF nm(3)] by blast
  have X: "xblk (adigits z) \<noteq> xblk (adigits x)" "xin (amem t) (adigits x) m" "xval (amem t) (adigits x) m = amag s x"
    using wf_mag_blk [OF x z(2)] by (simp_all add: nm)
  have "m + k div 8 \<le> n" by (simp add: n_def div_le_mono)
  then obtain N where N: "XP_lshift (int n) (adigits z) (int m) (adigits x) (int k) 0 (amem t) = Inr N"
    "xval N (adigits z) n = amag s x * 2 ^ k mod 256 ^ n" "\<And>b. b \<noteq> xblk (adigits z) \<Longrightarrow> N b = amem t b"
    using XP_lshift_eq [OF _ nm(3) fresh_xin [OF z(2)] X(2,1)] X(3) by auto
  have "k \<le> 8 * ((k + 7) div 8)" by linarith
  then have "(2 :: int) ^ k \<le> 256 ^ ((k + 7) div 8)" using power_increasing [of k "8 * ((k + 7) div 8)" "2 :: int"] by (simp add: power_mult)
  then have "amag s x * 2 ^ k < 256 ^ m * 256 ^ ((k + 7) div 8)"
    using xval_less [of "amem t" "adigits x" m] amag_nonneg [of s x] by (intro mult_less_le_imp_less) (simp_all add: X(3))
  then have v: "xval N (adigits z) n = amag s x * 2 ^ k" using N(2) amag_nonneg [of s x] by (simp add: n_def power_add)
  let ?z = "z\<lparr>asign := asign x\<rparr>" and ?t = "t\<lparr>amem := N\<rparr>"
  have fr: "fresh s ?t (adigits ?z) n"
    using fresh_upd [OF z(2), of N] N(3) XP_lshift_lens [OF N(1)] z(2) by (simp add: lens_eq fresh_def)
  obtain l where l: "normalize ?z (int n) ?t = Inr (?z\<lparr>andigits := l\<rparr>, ?t)" "wf_mag ?t (?z\<lparr>andigits := l\<rparr>)" "amag ?t (?z\<lparr>andigits := l\<rparr>) = amag s x * 2 ^ k"
    using normalize_fresh [OF fr] z(3) nm(3) v by auto
  have "AP_lshift (Some x) (int k) s = Inr (?z\<lparr>andigits := l\<rparr>, ?t)"
    using sz z N(1) l(1) by (simp add: AP_lshift_def ap_steps assert_c_def nm)
  then show ?thesis using l fr w by (auto simp: computes_def fresh_def wf_ap_def aval_def)
qed

lemma AP_rshift_ok:
  assumes w: "wf_ap s x"
  shows "computes (AP_rshift (Some x) (int k)) s (aval s x sdiv 2 ^ k)"
proof -
  note x = wf_apD(1) [OF w] and sg = wf_apD(2) [OF w]
  define m n where "m = nat (andigits x)" and "n = m - k div 8"
  have m: "andigits x = int m" "0 < m" using x by (auto simp: m_def wf_mag_def)
  have v: "aval s x sdiv 2 ^ k = asign x * (amag s x div 2 ^ k)"
    using sg amag_nonneg [of s x] by (auto simp: signed_divide_int_def aval_def sgn_if)
  show ?thesis
  proof (cases "8 * m \<le> k")
    case True
    have "amag s x < 256 ^ m" by (simp add: amag_def xval_less m)
    also have "\<dots> = 2 ^ (8 * m)" by (simp add: power_mult)
    also have "\<dots> \<le> 2 ^ k" using True by (intro power_increasing) simp_all
    finally have "aval s x sdiv 2 ^ k = 0" using v amag_nonneg [of s x] by simp
    then show ?thesis
      using AP_new_ok(1) [of 0 s] True m by (simp add: AP_rshift_def computes_def bind_ap_def assert_ap_def assert_c_def long_max_def long_min_def)
  next
    case False
    then have k8: "k div 8 < m" by linarith
    have sz: "andigits x - int k sdiv 8 = int n" using k8 by (simp add: m n_def signed_divide_int_def zdiv_int sgn_if of_nat_diff)
    have n0: "0 < n" using k8 by (simp add: n_def)
    obtain z t where z: "mk (int n) s = Inr (z, t)" "fresh s t (adigits z) n" "asize z = int n" using mk_ok [OF n0] by blast
    have X: "xblk (adigits z) \<noteq> xblk (adigits x)" "xin (amem t) (adigits x) m" "xval (amem t) (adigits x) m = amag s x"
      using wf_mag_blk [OF x z(2)] by (simp_all add: m)
    obtain N where N: "XP_rshift (int n) (adigits z) (int m) (adigits x) (int k) 0 (amem t) = Inr N"
      "xval N (adigits z) n = amag s x div 2 ^ k" "\<And>b. b \<noteq> xblk (adigits z) \<Longrightarrow> N b = amem t b"
      using XP_rshift_eq [OF _ n0 fresh_xin [OF z(2)] X(2,1), of k] X(3) by (auto simp: n_def)
    have fr: "fresh s (t\<lparr>amem := N\<rparr>) (adigits z) n"
      using fresh_upd [OF z(2), of N] N(3) XP_rshift_lens [OF N(1)] z(2) by (simp add: lens_eq fresh_def)
    from normalize_leaves [OF fr z(3) n0] N(2) have "leaves (normalize z (asize z)) s (t\<lparr>amem := N\<rparr>) (amag s x div 2 ^ k)" by simp
    from leaves_sign [OF this sg extends_refl] show ?thesis
      using sz z(1,3) N(1) False m v by (simp add: computes_def AP_rshift_def ap_steps assert_c_def)
  qed
qed

subsection \<open>Divisors and powers\<close>

lemma gcd_loop_ok:
  "\<lbrakk>wf_ap s x; wf_ap s y\<rbrakk> \<Longrightarrow>
    \<exists>z t. gcd_loop x y s = Some (Inr (z, t)) \<and> wf_ap t z \<and> \<bar>aval t z\<bar> = gcd (aval s x) (aval s y) \<and> extends s t"
proof (induction "nat \<bar>aval s y\<bar>" arbitrary: x y s rule: less_induct)
  case less
  show ?case
  proof (cases "aval s y = 0")
    case True
    then have "amag s y = 0" using less(3) by (auto simp: aval_def wf_ap_def)
    then show ?thesis using less(2) iszero_ok [OF wf_apD(1) [OF less(3)]] True by (subst gcd_loop.simps) auto
  next
    case False
    then have z: "iszero y s = Inr (False, s)" using iszero_ok [OF wf_apD(1) [OF less(3)]] by (auto simp: aval_def)
    obtain r t where r: "AP_mod (Some x) (Some y) s = Inr (r, t)" "wf_ap t r" "aval t r = aval s x smod aval s y" "extends s t"
      using AP_div_ok(2) [OF less(2,3) False] by (auto simp: computes_def)
    note y = wf_ap_extends [OF r(4) less(3)] and ya = aval_extends [OF r(4) less(3)]
    have sm: "aval s x smod aval s y = sgn (aval s x) * (\<bar>aval s x\<bar> mod \<bar>aval s y\<bar>)"
      by (auto simp: signed_modulo_int_def signed_divide_int_def sgn_if minus_div_mult_eq_mod [symmetric] algebra_simps)
    have "nat \<bar>aval t r\<bar> < nat \<bar>aval s y\<bar>" using False by (auto simp: r(3) sm abs_mult sgn_if)
    from less(1) [OF this y r(2)] obtain z u where u: "gcd_loop y r t = Some (Inr (z, u))" "wf_ap u z"
      "\<bar>aval u z\<bar> = gcd (aval s y) (aval s x smod aval s y)" "extends t u" using r(3) ya by auto
    have "gcd (aval s y) (aval s x smod aval s y) = gcd (aval s x) (aval s y)"
    proof -
      have "gcd (aval s y) (aval s x - aval s y * (aval s x sdiv aval s y)) = gcd (aval s x) (aval s y)"
        using gcd_add_mult [of "aval s y" "- (aval s x sdiv aval s y)" "aval s x"] by (simp add: gcd.commute algebra_simps)
      then show ?thesis by (simp only: minus_mult_sdiv_eq_smod)
    qed
    then show ?thesis using z r(1) u extends_trans [OF r(4) u(4)] by (subst gcd_loop.simps) auto
  qed
qed

lemma AP_gcd_ok:
  assumes "wf_ap s x" "wf_ap s y"
  shows "\<exists>z t. AP_gcd (Some x) (Some y) s = Some (Inr (z, t)) \<and> wf_ap t z \<and> \<bar>aval t z\<bar> = gcd (aval s x) (aval s y) \<and> extends s t"
proof -
  obtain g t where g: "gcd_loop x y s = Some (Inr (g, t))" "wf_ap t g" "\<bar>aval t g\<bar> = gcd (aval s x) (aval s y)" "extends s t"
    using gcd_loop_ok [OF assms] by blast
  obtain z u where z: "copy_ap g t = Inr (z, u)" "wf_mag u z" "amag u z = amag t g" "extends t u"
    using copy_leaves [OF wf_apD(1) [OF g(2)]] by (auto simp: leaves_def)
  have e: "AP_gcd (Some x) (Some y) s = Some (Inr (z\<lparr>asign := asign g\<rparr>, u))"
    using g(1) z(1) by (simp add: AP_gcd_def) (simp add: ap_steps)
  have "wf_ap u (z\<lparr>asign := asign g\<rparr>)" "aval u (z\<lparr>asign := asign g\<rparr>) = aval t g"
    using z g(2) by (simp_all add: wf_ap_def aval_def)
  then show ?thesis using e g(3) extends_trans [OF g(4) z(4)] by auto
qed

lemma AP_lcm_ok:
  assumes "wf_ap s x" "wf_ap s y" "aval s x \<noteq> 0 \<or> aval s y \<noteq> 0"
  shows "\<exists>z t. AP_lcm (Some x) (Some y) s = Some (Inr (z, t)) \<and> wf_ap t z \<and> \<bar>aval t z\<bar> = lcm (aval s x) (aval s y) \<and> extends s t"
proof -
  obtain g t where g: "AP_gcd (Some x) (Some y) s = Some (Inr (g, t))" "wf_ap t g" "\<bar>aval t g\<bar> = gcd (aval s x) (aval s y)" "extends s t"
    using AP_gcd_ok [OF assms(1,2)] by blast
  note xy = wf_ap_extends [OF g(4) assms(1)] wf_ap_extends [OF g(4) assms(2)] aval_extends [OF g(4) assms(1)] aval_extends [OF g(4) assms(2)]
  have nz: "aval t g \<noteq> 0" using g(3) assms(3) by auto
  have "computes (bind_ap (AP_div (Some y) (Some g)) (\<lambda>d. AP_mul (Some x) (Some d))) t (aval s x * (aval s y sdiv aval t g))"
    by (rule computes_bind [OF AP_div_ok(1) [OF xy(2) g(2) nz]]) (use AP_mul_ok wf_ap_extends [OF _ xy(1)] aval_extends [OF _ xy(1)] xy in metis)
  then obtain z u where z: "bind_ap (AP_div (Some y) (Some g)) (\<lambda>d. AP_mul (Some x) (Some d)) t = Inr (z, u)" "wf_ap u z"
    "aval u z = aval s x * (aval s y sdiv aval t g)" "extends t u" by (auto simp: computes_def)
  have "\<bar>aval s y sdiv aval t g\<bar> = \<bar>aval s y\<bar> div gcd (aval s x) (aval s y)"
    using nz by (auto simp: signed_divide_int_def abs_mult sgn_if g(3) pos_imp_zdiv_nonneg_iff)
  then have "\<bar>aval u z\<bar> = \<bar>aval s x\<bar> * (\<bar>aval s y\<bar> div gcd (aval s x) (aval s y))" by (simp add: z(3) abs_mult)
  also have "\<dots> = lcm (aval s x) (aval s y)"
    by (simp add: lcm_altdef_int div_mult_swap)
  finally show ?thesis using g(1) z(1,2) extends_trans [OF g(4) z(4)] by (auto simp: AP_lcm_def)
qed

lemma isone_ok: "wf_mag s z \<Longrightarrow> isone z s = Inr (amag s z = 1, s)"
proof -
  assume z: "wf_mag s z"
  show ?thesis
  proof (cases "andigits z = 1")
    case True
    then have "xp_read (amem s) (adigits z) 0 = Inr (xdig (amem s) (adigits z) 0)"
      using xp_read_in [of "amem s" "adigits z" 1 0] z by (auto simp: wf_mag_def xin_def)
    moreover have "amag s z = uint (xdig (amem s) (adigits z) 0)" using True by (simp add: amag_def xval_Suc)
    ultimately show ?thesis using True by (simp add: isone_def ap_steps word_uint_eq_iff)
  next
    case False
    then have "256 ^ (nat (andigits z) - 1) \<le> amag s z" unfolding amag_def using z by (intro top_digit) (auto simp: wf_mag_def)
    moreover have "(1 :: int) < 256 ^ (nat (andigits z) - 1)" using False z by (intro one_less_power) (auto simp: wf_mag_def)
    ultimately show ?thesis using False by (simp add: isone_def ap_steps)
  qed
qed

lemma even_u8: "(d AND 1 = 0) = even (uint (d :: u8))"
  by (simp add: word_uint_eq_iff uint_and and_one_eq even_iff_mod_2_eq_zero uint_mod)

lemma iseven_ok: "wf_mag s z \<Longrightarrow> iseven z s = Inr (even (amag s z), s)"
proof -
  assume z: "wf_mag s z"
  define k where "k = nat (andigits z) - 1"
  have k: "nat (andigits z) = 1 + k" using z by (auto simp: k_def wf_mag_def)
  have "xp_read (amem s) (adigits z) 0 = Inr (xdig (amem s) (adigits z) 0)"
    using xp_read_in [of "amem s" "adigits z" 1 0] z by (auto simp: wf_mag_def xin_def)
  moreover have "even (amag s z) = even (uint (xdig (amem s) (adigits z) 0))"
    unfolding amag_def k xval_split by (simp add: xval_Suc)
  ultimately show ?thesis by (simp add: iseven_def ap_steps even_u8)
qed

text \<open>The power \<open>AP_pow\<close> is to return: the remainder has the sign of the power, as everywhere in the library.\<close>

definition pow_val :: "int \<Rightarrow> nat \<Rightarrow> int option \<Rightarrow> int" where
  "pow_val x n p = (case p of None \<Rightarrow> x ^ n | Some p \<Rightarrow> x ^ n smod p)"

lemma smod_eq: "a smod b = sgn a * (\<bar>a\<bar> mod \<bar>b\<bar>)" for a b :: int
  by (auto simp: signed_modulo_int_def sgn_if)

lemma smod_mult: "((a smod p) * (b smod p)) smod p = (a * b) smod p" if "0 < p" for a b p :: int
proof -
  have m: "\<bar>c smod p\<bar> = \<bar>c\<bar> mod p" for c using that by (auto simp: smod_eq abs_mult sgn_if)
  have e: "\<bar>(a smod p) * (b smod p)\<bar> mod p = \<bar>a * b\<bar> mod p" by (simp add: abs_mult m mod_mult_eq)
  show ?thesis
  proof (cases "(a smod p) * (b smod p) = 0")
    case True
    then show ?thesis using e that by (auto simp: smod_eq [of "a * b"])
  next
    case False
    have "sgn (c smod p) = sgn c" if "c smod p \<noteq> 0" for c
    proof -
      have "0 < \<bar>c\<bar> mod p" using that \<open>0 < p\<close> m [of c] by (metis zero_less_abs_iff)
      then show ?thesis using \<open>0 < p\<close> by (simp add: smod_eq sgn_mult)
    qed
    then have "sgn ((a smod p) * (b smod p)) = sgn (a * b)" using False by (simp add: sgn_mult)
    then show ?thesis using e that by (simp add: smod_eq [of "a * b"] smod_eq [of "(a smod p) * (b smod p)"])
  qed
qed

text \<open>A modulus that passes the assertion.\<close>

definition mod_wf :: "ap_st \<Rightarrow> ap_t option \<Rightarrow> bool" where
  "mod_wf s p \<longleftrightarrow> (case p of None \<Rightarrow> True | Some p \<Rightarrow> wf_ap s p \<and> 2 \<le> aval s p)"

lemma mod_wf_extends: "\<lbrakk>extends s t; mod_wf s p\<rbrakk> \<Longrightarrow> mod_wf t p \<and> map_option (aval t) p = map_option (aval s) p"
  using wf_ap_extends [of s t] aval_extends [of s t] by (auto simp: mod_wf_def split: option.splits)

lemma modulus_ok_ok: "mod_wf s p \<Longrightarrow> modulus_ok p s = Inr (True, s)"
proof (cases p)
  case (Some q)
  assume "mod_wf s p"
  then have q: "wf_ap s q" "2 \<le> aval s q" using Some by (simp_all add: mod_wf_def)
  then have "asign q = 1" "2 \<le> amag s q" using amag_nonneg [of s q] by (auto simp: wf_ap_def aval_def)
  then show ?thesis using Some iszero_ok isone_ok wf_apD(1) [OF q(1)] by (simp add: modulus_ok_def ap_steps)
qed (simp add: modulus_ok_def return_ap_def)

lemma computes_Inl:
  "computes m s v \<Longrightarrow> \<exists>z t. bind_ap m (\<lambda>z. return_ap (Inl z :: ap_t + ap_t \<times> ap_t)) s = Inr (Inl z, t) \<and> wf_ap t z \<and> aval t z = v \<and> extends s t"
  by (auto simp: computes_def bind_ap_def return_ap_def)

lemma smod_small: "\<lbrakk>\<bar>a\<bar> < p\<rbrakk> \<Longrightarrow> a smod p = (a :: int)"
  by (auto simp: smod_eq abs_if sgn_if)

lemma pow_start_ok:
  assumes x: "wf_ap s x" and y: "wf_ap s y" and p: "mod_wf s p" and Y: "0 \<le> aval s y" and nz: "aval s x \<noteq> 0 \<or> aval s y \<noteq> 0"
  shows "(\<exists>z t. pow_start (Some x) (Some y) p s = Inr (Inl z, t) \<and> wf_ap t z \<and>
      aval t z = pow_val (aval s x) (nat (aval s y)) (map_option (aval s) p) \<and> extends s t) \<or>
    pow_start (Some x) (Some y) p s = Inr (Inr (x, y), s) \<and> 2 \<le> aval s y"
    (is "(\<exists>z t. _ \<and> _ \<and> _ = ?v \<and> _) \<or> _")
proof -
  note X = wf_apD [OF x] and sy = wf_apD(2) [OF y] and mx = amag_nonneg [of s x] and my = amag_nonneg [of s y]
  have ys: "asign y = 1" "aval s y = amag s y" using Y sy my y by (auto simp: aval_def wf_ap_def)
  have P: "pow_val v n (map_option (aval s) p) = v ^ n" if "\<bar>v ^ n\<bar> < 2" for v n
    using that p by (auto simp: pow_val_def mod_wf_def smod_small split: option.splits)
  have start: "pow_start (Some x) (Some y) p s =
      (if amag s x = 0 then bind_ap (AP_new 0) (\<lambda>z. return_ap (Inl z)) s
       else if amag s y = 0 then bind_ap (AP_new 1) (\<lambda>z. return_ap (Inl z)) s
       else if amag s x = 1 then bind_ap (AP_new (if even (amag s y) then 1 else asign x)) (\<lambda>z. return_ap (Inl z)) s
       else if amag s y = 1 then bind_ap (case p of Some p \<Rightarrow> AP_mod (Some x) (Some p) | None \<Rightarrow> AP_addi (Some x) 0) (\<lambda>z. return_ap (Inl z)) s
       else Inr (Inr (x, y), s))"
    using iszero_ok [OF X(1)] iszero_ok [OF wf_apD(1) [OF y]] isone_ok [OF X(1)] isone_ok [OF wf_apD(1) [OF y]] iseven_ok [OF wf_apD(1) [OF y]]
      modulus_ok_ok [OF p] ys(1)
    by (simp add: pow_start_def bind_ap_Inr [where m = "iszero _"] bind_ap_Inr [where m = "isone _"] bind_ap_Inr [where m = "iseven _"]
        bind_ap_Inr [where m = "modulus_ok _"] bind_ap_def [of "assert_ap _ _"] assert_ap_def assert_c_def return_ap_def)
  have new: "computes (AP_new n) s n" if "\<bar>n\<bar> < 2" for n using that AP_new_ok(1) [of n s] by (simp add: long_min_def long_max_def)
  consider "amag s x = 0" | "amag s x \<noteq> 0" "amag s y = 0" | "amag s x = 1" "amag s y \<noteq> 0" | "1 < amag s x" "amag s y = 1" | "1 < amag s x" "1 < amag s y"
    using mx my by linarith
  then show ?thesis
  proof cases
    case 1
    then have "aval s x = 0" "nat (aval s y) \<noteq> 0" using nz Y by (auto simp: aval_def)
    then have "?v = 0" using P [of 0 "nat (aval s y)"] by (simp add: power_0_left)
    then show ?thesis unfolding start using 1 computes_Inl [OF new [of 0]] by simp
  next
    case 2
    then have "?v = 1" using P [of "aval s x" 0] ys by simp
    then show ?thesis unfolding start using 2 computes_Inl [OF new [of 1]] by simp
  next
    case 3
    let ?n = "if even (amag s y) then 1 else asign x"
    have "aval s x ^ nat (aval s y) = ?n" using 3 X(2) ys my by (auto simp: aval_def even_nat_iff)
    then have "?v = ?n" "\<bar>?n\<bar> < 2" using P [of "aval s x" "nat (aval s y)"] X(2) by auto
    then show ?thesis unfolding start using 3 computes_Inl [OF new [of ?n]] by simp
  next
    case 4
    then have "computes (case p of Some p \<Rightarrow> AP_mod (Some x) (Some p) | None \<Rightarrow> AP_addi (Some x) 0) s ?v"
      using p AP_div_ok(2) [OF x] AP_immediate_ok(1) [OF x, of 0] ys
      by (auto simp: mod_wf_def pow_val_def long_min_def long_max_def split: option.splits)
    from computes_Inl [OF this] show ?thesis unfolding start using 4 by simp
  next
    case 5
    then show ?thesis unfolding start using ys by simp
  qed
qed

lemma mulmod_ok:
  assumes "wf_ap s x" "wf_ap s y" "wf_ap s p" "aval s p \<noteq> 0"
  shows "computes (mulmod (Some x) (Some y) (Some p)) s ((aval s x * aval s y) smod aval s p)"
  unfolding mulmod_def
  by (rule computes_bind [OF AP_mul_ok [OF assms(1,2)]]) (use AP_div_ok(2) wf_ap_extends [OF _ assms(3)] aval_extends [OF _ assms(3)] assms(4) in metis)

lemma pow_val_half:
  assumes "n \<noteq> 0" "\<And>q. p = Some q \<Longrightarrow> 0 < q"
  shows "pow_val x n p =
    (let t = pow_val x (n div 2) p; z = (case p of None \<Rightarrow> t * t | Some q \<Rightarrow> (t * t) smod q)
     in if even n then z else case p of None \<Rightarrow> x * z | Some q \<Rightarrow> ((x smod q) * z) smod q)"
proof -
  have e: "x ^ n = (if even n then 1 else x) * (x ^ (n div 2) * x ^ (n div 2))"
    by (simp add: power_add [symmetric] flip: power_Suc) (metis odd_two_times_div_two_succ even_two_times_div_two mult_2 Suc_eq_plus1)
  show ?thesis using assms e by (cases p) (auto simp: pow_val_def Let_def smod_mult)
qed

lemma pow_finish_ok:
  assumes x: "wf_ap s x" and y: "wf_ap s y" and p: "mod_wf s p" and t: "wf_ap s t" and Y: "0 < aval s y"
    and v: "aval s t = pow_val (aval s x) (nat (aval s y) div 2) (map_option (aval s) p)"
  shows "computes (pow_finish x y p t) s (pow_val (aval s x) (nat (aval s y)) (map_option (aval s) p))"
proof -
  have ev: "even (amag s y) = even (nat (aval s y))"
    using Y wf_apD(2) [OF y] amag_nonneg [of s y] by (auto simp: aval_def even_nat_iff)
  let ?z = "case p of None \<Rightarrow> aval s t * aval s t | Some q \<Rightarrow> (aval s t * aval s t) smod aval s q"
  have z: "computes (case p of Some p \<Rightarrow> mulmod (Some t) (Some t) (Some p) | None \<Rightarrow> AP_mul (Some t) (Some t)) s ?z"
    using AP_mul_ok [OF t t] mulmod_ok [OF t t] p by (auto simp: mod_wf_def split: option.splits)
  have P: "pow_val (aval s x) (nat (aval s y)) (map_option (aval s) p) =
      (if even (amag s y) then ?z else case p of None \<Rightarrow> aval s x * ?z | Some q \<Rightarrow> ((aval s x smod aval s q) * ?z) smod aval s q)"
    using Y p v ev by (subst pow_val_half) (auto simp: Let_def mod_wf_def split: option.splits)
  show ?thesis
    unfolding pow_finish_def
  proof (rule computes_bind [OF z])
    fix w u
    assume w: "wf_ap u w" "aval u w = ?z" "extends s u"
    note xu = wf_ap_extends [OF w(3) x] aval_extends [OF w(3) x] and yu = wf_ap_extends [OF w(3) y]
      and my = amag_extends [OF w(3) wf_apD(1) [OF y]]
    have "computes (case p of Some p \<Rightarrow> bind_ap (AP_mod (Some x) (Some p)) (\<lambda>y2. mulmod (Some y2) (Some w) (Some p))
            | None \<Rightarrow> AP_mul (Some x) (Some w)) u (case p of None \<Rightarrow> aval s x * ?z | Some q \<Rightarrow> ((aval s x smod aval s q) * ?z) smod aval s q)"
    proof (cases p)
      case None
      then show ?thesis using AP_mul_ok [OF xu(1) w(1)] w(2) xu(2) by simp
    next
      case (Some q)
      then have q: "wf_ap s q" "2 \<le> aval s q" using p by (simp_all add: mod_wf_def)
      note qu = wf_ap_extends [OF w(3) q(1)] aval_extends [OF w(3) q(1)]
      have "computes (bind_ap (AP_mod (Some x) (Some q)) (\<lambda>y2. mulmod (Some y2) (Some w) (Some q))) u (((aval s x smod aval s q) * aval u w) smod aval s q)"
      proof (rule computes_bind [OF AP_div_ok(2) [OF xu(1) qu(1)]])
        show "aval u q \<noteq> 0" using qu q by simp
        show "computes (mulmod (Some y2) (Some w) (Some q)) r (((aval s x smod aval s q) * aval u w) smod aval s q)"
          if "wf_ap r y2" "aval r y2 = aval u x smod aval u q" "extends u r" for y2 r
          using mulmod_ok [OF that(1) wf_ap_extends [OF that(3) w(1)] wf_ap_extends [OF that(3) qu(1)]] that(2)
            aval_extends [OF that(3) w(1)] aval_extends [OF that(3) qu(1)] qu(2) xu(2) q(2) by simp
      qed
      then show ?thesis using Some w(2) by simp
    qed
    then show "computes (bind_ap (iseven y) (\<lambda>e. if e then return_ap w
       else case p of Some p \<Rightarrow> bind_ap (AP_mod (Some x) (Some p)) (\<lambda>y2. mulmod (Some y2) (Some w) (Some p))
            | None \<Rightarrow> AP_mul (Some x) (Some w))) u (pow_val (aval s x) (nat (aval s y)) (map_option (aval s) p))"
      unfolding P using w(1,2) my iseven_ok [OF wf_apD(1) [OF yu]]
      by (cases "even (amag s y)") (simp_all add: computes_def bind_ap_Inr [where m = "iseven y"] return_ap_def)
  qed
qed

lemma AP_pow_ok:
  "\<lbrakk>wf_ap s x; wf_ap s y; mod_wf s p; 0 \<le> aval s y; aval s x \<noteq> 0 \<or> aval s y \<noteq> 0\<rbrakk> \<Longrightarrow>
    \<exists>z t. AP_pow (Some x) (Some y) p s = Some (Inr (z, t)) \<and> wf_ap t z \<and>
      aval t z = pow_val (aval s x) (nat (aval s y)) (map_option (aval s) p) \<and> extends s t"
proof (induction "nat (aval s y)" arbitrary: y s rule: less_induct)
  case less
  from pow_start_ok [OF less(2-6)] show ?case
  proof (elim disjE exE conjE)
    fix z t
    assume "pow_start (Some x) (Some y) p s = Inr (Inl z, t)" "wf_ap t z" "extends s t"
      "aval t z = pow_val (aval s x) (nat (aval s y)) (map_option (aval s) p)"
    then show ?thesis by (subst AP_pow.simps) auto
  next
    assume st: "pow_start (Some x) (Some y) p s = Inr (Inr (x, y), s)" and Y: "2 \<le> aval s y"
    obtain h u where h: "AP_rshift (Some y) 1 s = Inr (h, u)" "wf_ap u h" "aval u h = aval s y div 2" "extends s u"
      using AP_rshift_ok [OF less(3), of 1] Y by (auto simp: computes_def signed_divide_int_def sgn_if)
    note xu = wf_ap_extends [OF h(4) less(2)] aval_extends [OF h(4) less(2)] and pu = mod_wf_extends [OF h(4) less(4)]
    have "nat (aval u h) < nat (aval s y)" "0 \<le> aval u h" "aval u x \<noteq> 0 \<or> aval u h \<noteq> 0" using h(3) Y by auto
    with less(1) [OF _ xu(1) h(2)] pu obtain t v where t: "AP_pow (Some x) (Some h) p u = Some (Inr (t, v))" "wf_ap v t"
      "aval v t = pow_val (aval s x) (nat (aval s y) div 2) (map_option (aval s) p)" "extends u v"
      using h(3) xu(2) by (auto simp: nat_div_distrib)
    note sv = extends_trans [OF h(4) t(4)]
    note xv = wf_ap_extends [OF sv less(2)] aval_extends [OF sv less(2)] and yv = wf_ap_extends [OF sv less(3)] aval_extends [OF sv less(3)]
      and pv = mod_wf_extends [OF sv less(4)]
    have "computes (pow_finish x y p t) v (pow_val (aval s x) (nat (aval s y)) (map_option (aval s) p))"
      using pow_finish_ok [OF xv(1) yv(1) _ t(2), of p] t(3) xv yv pv Y by simp
    then obtain w r where w: "pow_finish x y p t v = Inr (w, r)" "wf_ap r w" "extends v r"
      "aval r w = pow_val (aval s x) (nat (aval s y)) (map_option (aval s) p)" by (auto simp: computes_def)
    then show ?thesis using st h(1) t(1) extends_trans [OF sv w(3)] by (subst AP_pow.simps) auto
  qed
qed

subsection \<open>Conversions\<close>

lemma xval_mod: "n \<le> m \<Longrightarrow> xval M p m mod 256 ^ n = xval M p n"
  using xval_split [of M p n "m - n"] xval_less [of M p n] xval_nonneg [of M p n] by simp

lemma AP_toint_ok:
  assumes w: "wf_ap s x"
  shows "AP_toint (Some x) s = Inr (asign x * (amag s x mod 2 ^ 31), s)"
proof -
  define n where "n = nat (andigits x)"
  have n: "andigits x = int n" "xin (amem s) (adigits x) n" using wf_mag_xin [OF wf_apD(1) [OF w]] w by (auto simp: n_def wf_ap_def wf_mag_def)
  have "amag s x mod 256 ^ min n 4 = xval (amem s) (adigits x) (min n 4)" by (simp add: amag_def n(1) xval_mod)
  then have v: "xval (amem s) (adigits x) (min n 4) = amag s x mod 2 ^ 32"
    using xval_less [of "amem s" "adigits x" n] amag_nonneg [of s x] power_increasing [of n 4 "256 :: int"]
    by (cases "n \<le> 4") (simp_all add: min_def amag_def n(1))
  define u :: u32 where "u = of_int (amag s x mod 2 ^ 32) mod (of_int long_max + 1)"
  have "uint (of_int (amag s x mod 2 ^ 32) :: u32) = amag s x mod 2 ^ 32" by (rule u32_of_int_uint) simp_all
  then have "uint u = amag s x mod 2 ^ 32 mod 2 ^ 31" by (simp add: u_def uint_mod long_max_def)
  also have "\<dots> = amag s x mod 2 ^ 31" by (rule mod_mod_cancel) simp
  finally have "sint u = amag s x mod 2 ^ 31"
    by (simp add: sint_uint signed_take_bit_int_eq_self)
  then show ?thesis
    using XP_toint_eq [OF n(2)] v wf_apD(2) [OF w] by (auto simp: AP_toint_def n(1) ap_steps Let_def u_def)
qed

lemma xp_map_nth: "list_all (\<lambda>i. xp_map ! i = int i) [0..<10]"
  "list_all (\<lambda>i. xp_map ! i = int i - 7) [17..<43]" "list_all (\<lambda>i. xp_map ! i = int i - 39) [49..<75]"
  by code_simp+

lemma char_digit_cases:
  "\<lbrakk>48 \<le> (of_char c :: int); (of_char c :: int) \<le> 57\<rbrakk> \<Longrightarrow> char_digit c = of_char c - 48"
  "\<lbrakk>65 \<le> (of_char c :: int); (of_char c :: int) \<le> 90\<rbrakk> \<Longrightarrow> char_digit c = of_char c - 55"
  "\<lbrakk>97 \<le> (of_char c :: int); (of_char c :: int) \<le> 122\<rbrakk> \<Longrightarrow> char_digit c = of_char c - 87"
proof -
  define k where "k = nat (of_char c - 48)"
  have k: "k < 10 \<Longrightarrow> xp_map ! k = int k" "\<lbrakk>17 \<le> k; k < 43\<rbrakk> \<Longrightarrow> xp_map ! k = int k - 7" "\<lbrakk>49 \<le> k; k < 75\<rbrakk> \<Longrightarrow> xp_map ! k = int k - 39"
    using xp_map_nth unfolding list_all_iff set_upt atLeastLessThan_iff Ball_def by blast+
  have ik: "48 \<le> (of_char c :: int) \<Longrightarrow> of_char c = int k + 48" by (simp add: k_def)
  show "char_digit c = of_char c - 48" if "48 \<le> (of_char c :: int)" "(of_char c :: int) \<le> 57"
    using k(1) that ik by (simp add: char_digit_def k_def [symmetric])
  show "char_digit c = of_char c - 55" if "65 \<le> (of_char c :: int)" "(of_char c :: int) \<le> 90"
    using k(2) that ik by (simp add: char_digit_def k_def [symmetric])
  show "char_digit c = of_char c - 87" if "97 \<le> (of_char c :: int)" "(of_char c :: int) \<le> 122"
    using k(3) that ik by (simp add: char_digit_def k_def [symmetric])
qed

lemma ap_digit_eq: "\<lbrakk>2 \<le> base; base \<le> 36\<rbrakk> \<Longrightarrow> ap_digit base c = is_digit base c"
  using char_digit_cases [of c] by (auto simp: ap_digit_def is_digit_def c_isalnum_def Let_def)

lemma skip_zeros_ok:
  assumes "cs \<noteq> []" "p = [] \<or> hd p \<noteq> CHR ''0''"
  shows "\<exists>ds. skip_zeros (cs @ p) = ds @ p \<and> ds \<noteq> [] \<and> set ds \<subseteq> set cs \<and> horner base 0 ds = horner base 0 cs"
  using assms(1)
proof (induction cs)
  case (Cons c cs)
  show ?case
  proof (cases cs)
    case Nil
    have "skip_zeros (c # p) = c # p" using assms(2) by (cases p) auto
    then show ?thesis using Nil by (intro exI [of _ "[c]"]) simp
  next
    case (Cons d es)
    have z: "char_digit (CHR ''0'') = 0" by (simp add: char_digit_cases)
    obtain ds where ds: "skip_zeros (cs @ p) = ds @ p" "ds \<noteq> []" "set ds \<subseteq> set cs" "horner base 0 ds = horner base 0 cs"
      using Cons.IH Cons by blast
    show ?thesis
    proof (cases "c = CHR ''0'' \<and> d = CHR ''0''")
      case True
      then show ?thesis using ds Cons z by (intro exI [of _ ds]) auto
    next
      case False
      then show ?thesis using Cons by (intro exI [of _ "c # cs"]) auto
    qed
  qed
qed simp

lemma horner_bound:
  "\<lbrakk>2 \<le> base; \<forall>c\<in>set cs. is_digit base c; 0 \<le> v\<rbrakk> \<Longrightarrow> 0 \<le> horner base v cs \<and> horner base v cs < (v + 1) * base ^ length cs"
proof (induction cs arbitrary: v)
  case (Cons c cs)
  have c: "0 \<le> char_digit c" "char_digit c + 1 \<le> base" using Cons.prems by (auto simp: is_digit_def char_digit_nonneg)
  then have v: "0 \<le> v * base + char_digit c" using Cons.prems by simp
  have "horner base (v * base + char_digit c) cs < (v * base + char_digit c + 1) * base ^ length cs" "0 \<le> horner base (v * base + char_digit c) cs"
    using Cons.IH [OF _ _ v] Cons.prems by auto
  moreover have "(v * base + char_digit c + 1) * base ^ length cs \<le> (v + 1) * base * base ^ length cs"
    using c Cons.prems by (intro mult_right_mono) (simp_all add: algebra_simps)
  ultimately show ?case by (simp add: mult.assoc)
qed simp

lemma bits_up_ok: "1 \<le> k \<Longrightarrow> base \<le> 2 ^ bits_up k base \<and> 1 \<le> bits_up k base"
proof (induction k base rule: bits_up.induct)
  case (1 k base)
  then show ?case by (cases "2 ^ k < base") (simp_all add: bits_up.simps [of k base])
qed

lemma c_isspace_digit: "is_digit base c \<Longrightarrow> \<not> c_isspace c \<and> c \<noteq> CHR ''-'' \<and> c \<noteq> CHR ''+''"
  by (auto simp: is_digit_def c_isalnum_def c_isspace_def Let_def)

lemma assert_ap_True: "bind_ap (assert_ap True msg) f = f ()"
  by (simp add: fun_eq_iff bind_ap_def assert_ap_def assert_c_def)

lemma AP_fromstr_ok:
  assumes b: "2 \<le> base" "base \<le> 36" and w: "\<forall>c\<in>set w. c_isspace c" and sg: "sg \<in> {'''', ''+'', ''-''}"
    and cs: "cs \<noteq> []" "\<forall>c\<in>set cs. is_digit base c" and p: "p = [] \<or> \<not> is_digit base (hd p)"
  shows "computes (AP_fromstr (Some (w @ sg @ cs @ p)) base) s ((if sg = ''-'' then -1 else 1) * horner base 0 cs)"
proof -
  have "is_digit base (CHR ''0'')" using b by (auto simp: is_digit_def c_isalnum_def char_digit_cases)
  then have "p = [] \<or> hd p \<noteq> CHR ''0''" using p by auto
  then obtain ds where ds: "skip_zeros (cs @ p) = ds @ p" "ds \<noteq> []" "set ds \<subseteq> set cs" "horner base 0 ds = horner base 0 cs"
    using skip_zeros_ok [OF cs(1)] by blast
  have dd: "\<forall>c\<in>set ds. is_digit base c" using ds(3) cs(2) by blast
  obtain c cs' where c: "cs = c # cs'" "\<not> c_isspace c" "c \<noteq> CHR ''-''" "c \<noteq> CHR ''+''" using cs c_isspace_digit by (cases cs) auto
  have drop: "dropWhile c_isspace (w @ sg @ cs @ p) = sg @ cs @ p"
    using w sg c by (auto simp: dropWhile_append c_isspace_def)
  have tk: "takeWhile (ap_digit base) (ds @ p) = ds"
    using dd p by (cases p) (simp_all add: ap_digit_eq [OF b, abs_def] takeWhile_append2)
  define k where "k = bits_up 1 base"
  have k: "base \<le> 2 ^ k" "1 \<le> k" using bits_up_ok [of 1 base] by (simp_all add: k_def)
  have k1: "bits_up (Suc 0) base = k" by (simp add: k_def)
  define n where "n = (k * length ds + 7) div 8"
  have sz: "((int k * int (length ds) + 7) AND NOT 7) sdiv 8 = int n"
    using round_bits [of "int k * int (length ds)"] by (simp add: n_def zdiv_int)
  have "0 < k * length ds" using k ds(2) by simp
  then have n0: "0 < n" unfolding n_def by linarith
  have v0: "0 \<le> horner base 0 ds" using horner_bound [OF b(1) dd, of 0] by simp
  have "horner base 0 ds < base ^ length ds" using horner_bound [OF b(1) dd, of 0] by simp
  also have "base ^ length ds \<le> (2 ^ k) ^ length ds" using k b by (intro power_mono) simp_all
  also have "\<dots> \<le> 2 ^ (8 * n)" unfolding power_mult [symmetric] n_def by (intro power_increasing) (linarith, simp)
  also have "\<dots> = 256 ^ n" by (simp add: power_mult)
  finally have v: "horner base 0 ds < 256 ^ n" .
  have "computes (bind_ap (mk (int n)) (\<lambda>z. bind_ap
      (bind_ap (on_mem (XP_fromstr (asize z) (adigits z) (Some (ds @ p)) base)) (\<lambda>carry.
       bind_ap (assert_ap (carry = 0) ''carry == 0'') (\<lambda>_. normalize z (asize z))))
      (\<lambda>z. set_sign z (if sg = ''-'' then -1 else 1)))) s ((if sg = ''-'' then -1 else 1) * horner base 0 ds)"
  proof (rule mk_leaves)
    fix z :: ap_t and t :: ap_st
    assume z: "fresh s t (adigits z) (nat (int n))" "asize z = int n" "amem t (xblk (adigits z)) = replicate (nat (int n)) 0"
    let ?N = "xstore (amem t) (adigits z) n (horner base 0 ds)"
    have i: "xin (amem t) (adigits z) n" using fresh_xin [OF z(1)] by simp
    have "xval (amem t) (adigits z) n = 0" using z by (intro xval_zeros [where k = n]) (simp_all add: fresh_def)
    then have "XP_fromstr (int n) (adigits z) (Some (ds @ p)) base (amem t) = Inr (0, ?N)"
      using XP_fromstr_ok [OF b ds(2) dd p, of "[]" "amem t" "adigits z" n] i v by simp
    moreover have "leaves (normalize z (asize z)) s (t\<lparr>amem := ?N\<rparr>) (horner base 0 ds)"
      using fresh_store [OF z(1), of n "horner base 0 ds"] z(2) n0 i v v0 by (intro normalize_leaves [where n = n]) (simp_all add: xval_xstore)
    ultimately show "leaves (bind_ap (on_mem (XP_fromstr (asize z) (adigits z) (Some (ds @ p)) base)) (\<lambda>carry.
       bind_ap (assert_ap (carry = 0) ''carry == 0'') (\<lambda>_. normalize z (asize z)))) s t (horner base 0 ds)"
      using z(2) by (simp add: leaves_def ap_steps assert_c_def)
  qed (use n0 in auto)
  then show ?thesis
    using sg c drop b sz tk ds k1 by (auto simp: AP_fromstr_def Let_def computes_def bind_ap_assoc assert_ap_True)
qed

lemma bits_down_ok: "2 \<le> base \<Longrightarrow> 0 < k \<Longrightarrow> 2 ^ bits_down k base \<le> base \<and> 0 < bits_down k base"
proof (induction k base rule: bits_down.induct)
  case (1 k base)
  then show ?case by (cases k) auto
qed simp

lemma rev_digits_length: "\<lbrakk>2 \<le> base; 0 \<le> v; v < base ^ L; 0 < L\<rbrakk> \<Longrightarrow> length (rev_digits base v) \<le> L"
proof (induction L arbitrary: v)
  case (Suc L)
  show ?case
  proof (cases "base \<le> v")
    case True
    have "base * (v div base) + v mod base = v" "0 \<le> v mod base" using Suc.prems by simp_all
    then have "base * (v div base) < base * base ^ L" using Suc.prems(3) unfolding power_Suc by linarith
    then have "v div base < base ^ L" using Suc.prems by simp
    moreover from this have "0 < L" using True Suc.prems by (cases L) auto
    ultimately have "length (rev_digits base (v div base)) \<le> L" using Suc by (simp add: pos_imp_zdiv_nonneg_iff)
    then show ?thesis using True Suc.prems by (simp add: rev_digits.simps [of base v])
  next
    case False
    then show ?thesis by (simp add: rev_digits.simps [of base v])
  qed
qed simp

text \<open>The buffer of \<open>AP_tostr\<close> is long enough.\<close>

lemma tostr_room:
  assumes "2 \<le> base" "0 \<le> v" "v < 256 ^ n"
  shows "length (rev_digits base v) \<le> 8 * n div bits_down 5 base + 1"
proof -
  define k where "k = bits_down 5 base"
  have k: "2 ^ k \<le> base" "0 < k" using bits_down_ok [OF assms(1), of 5] by (simp_all add: k_def)
  define L where "L = 8 * n div k + 1"
  have "8 * n < k * L" using dividend_less_times_div [OF k(2), of "8 * n"] by (simp add: L_def)
  have "v < 2 ^ (8 * n)" using assms(3) by (simp add: power_mult)
  also have "\<dots> \<le> 2 ^ (k * L)" using \<open>8 * n < k * L\<close> by (intro power_increasing) simp_all
  also have "\<dots> = (2 ^ k) ^ L" by (simp add: power_mult)
  also have "\<dots> \<le> base ^ L" using k by (intro power_mono) simp_all
  finally have "v < base ^ L" .
  then show ?thesis using rev_digits_length [OF assms(1,2), of L] by (simp add: L_def k_def [symmetric])
qed

lemma AP_tostr_ok:
  assumes w: "wf_ap s x" and b: "2 \<le> base" "base \<le> 36"
  shows "\<exists>pad t. AP_tostr (Some x) base s =
    Some (Inr ((if asign x = -1 then ''-'' else []) @ rev (rev_digits base (amag s x)) @ CHR 0x00 # pad, t))"
proof -
  note x = wf_apD(1) [OF w]
  define n where "n = nat (andigits x)"
  have n: "andigits x = int n" "0 < n" using x by (auto simp: n_def wf_mag_def)
  define k where "k = bits_down 5 base"
  have k: "0 < k" using bits_down_ok [OF b(1), of 5] by (simp add: k_def)
  have sd: "8 * int n sdiv int k = int (8 * n div k)" using k by (simp add: signed_divide_int_def sgn_if zdiv_int)
  obtain q u where q: "alloc_digits False (int n) s = Inr (q, u)" "fresh s u q n" using alloc_digits_ok [of False n s] by blast
  have X: "xblk (adigits x) \<noteq> xblk q" "xin (amem u) (adigits x) n" "xval (amem u) (adigits x) n = amag s x"
    using wf_mag_blk [OF x q(2)] by (simp_all add: n)
  have Q: "xin (amem u) q n" using fresh_xin [OF q(2)] by simp
  let ?N = "xstore (amem u) q n (amag s x)"
  have c: "xp_memcpy q (adigits x) (int n) (amem u) = Inr ?N" using xp_memcpy_eq [OF Q X(2)] X by (simp add: fwd_ok_def)
  have lt: "amag s x < 256 ^ n" using xval_less [of "amem u" "adigits x" n] X(3) by simp
  have v: "xin ?N q n" "xval ?N q n = amag s x" using Q lt by (simp_all add: xval_xstore amag_nonneg)
  define str where "str = replicate (8 * n div k + 2) (CHR 0x00)"
  have str0: "replicate (length str) (CHR 0x00) = str" by (simp add: str_def)
  have room: "length (rev_digits base (amag s x)) < length str" "length str = 8 * n div k + 2"
    using tostr_room [OF b(1) amag_nonneg lt] by (simp_all add: k_def str_def)
  obtain K where K: "XP_tostr (Some str) (int (length str)) base (int n) q ?N =
      Some (Inr (rev (rev_digits base (amag s x)) @ CHR 0x00 # drop (Suc (length (rev_digits base (amag s x)))) str, K))"
    using XP_tostr_ok [OF b v(1) n(2), of str] room v(2) by auto
  have sp: "str_put (CHR 0x00 # str) 0 (CHR ''-'') = Inr (CHR ''-'' # str)"
    using str_put_mid [of "[]" "CHR 0x00" str "CHR ''-''"] by (simp add: str_def)
  have copy: "bind_ap (alloc_digits False (andigits x)) (\<lambda>q. bind_ap (do_mem (xp_memcpy q (adigits x) (andigits x))) (\<lambda>_. return_ap q)) s = Inr (q, u\<lparr>amem := ?N\<rparr>)"
    using q(1) c by (simp add: n(1) ap_steps)
  have chk: "bind_ap (the_ap (Some x) ''x'') (\<lambda>x. bind_ap (assert_ap (2 \<le> base \<and> base \<le> 36) ''base >= 2 && base <= 36'') (\<lambda>_. return_ap x)) s = Inr (x, s)"
    using b by (simp add: ap_steps assert_c_def)
  have sz: "8 * andigits x sdiv int k + 1 + 1 + (if asign x = -1 then 1 else 0) = int (length str + (if asign x = -1 then 1 else 0))"
    using sd room(2) by (simp add: n(1))
  have rep: "replicate (nat (int (length str + (if asign x = -1 then 1 else 0)))) (CHR 0x00) = (if asign x = -1 then [CHR 0x00] else []) @ str"
    unfolding nat_int using str0 by (cases "asign x = -1") simp_all
  show ?thesis
    unfolding AP_tostr_def chk bind_ores_simps prod.case Let_def k_def [symmetric] copy sz rep
    using sp K by (cases "asign x = -1") (simp_all add: n(1))
qed

subsection \<open>Logical operations\<close>

lemma and_split:
  assumes "0 \<le> a" "a < 2 ^ k" "0 \<le> c" "c < 2 ^ k"
  shows "(a + b * 2 ^ k) AND (c + d * 2 ^ k) = (a AND c) + (b AND d) * (2 ^ k :: int)"
proof -
  have e: "x + y * 2 ^ k = concat_bit k x y" if "0 \<le> x" "x < 2 ^ k" for x y :: int
    using that by (simp add: concat_bit_eq push_bit_eq_mult take_bit_int_eq_self)
  have "0 \<le> a AND c" "a AND c < 2 ^ k" using assms by (simp_all add: AND_upper1')
  then show ?thesis unfolding e [OF assms(1,2)] e [OF assms(3,4)] by (simp only: e) (rule bit_eqI, auto simp: bit_simps)
qed

lemma xval_and: "\<lbrakk>\<And>i. i < n \<Longrightarrow> xdig N z i = xdig M x i AND xdig M y i\<rbrakk> \<Longrightarrow> xval N z n = xval M x n AND xval M y n"
proof (induction n)
  case (Suc n)
  have p: "(256 :: int) ^ n = 2 ^ (8 * n)" by (simp add: power_mult)
  show ?case
    using Suc and_split [of "xval M x n" "8 * n" "xval M y n"] xval_less [of M x n] xval_less [of M y n]
    by (simp add: xval_Suc xval_nonneg uint_and p)
qed simp

lemma and_low:
  assumes "n \<le> m"
  shows "xval M x m AND xval M y n = xval M x n AND xval M y n"
proof -
  have p: "(256 :: int) ^ n = 2 ^ (8 * n)" by (simp add: power_mult)
  have "xval M x m = xval M x n + xval M (xp_plus x (int n)) (m - n) * 2 ^ (8 * n)"
    using xval_split [of M x n "m - n"] assms unfolding p by (simp only: le_add_diff_inverse mult.commute)
  then show ?thesis
    using and_split [of "xval M x n" "8 * n" "xval M y n" "xval M (xp_plus x (int n)) (m - n)" 0] xval_less [of M x n] xval_less [of M y n]
    by (simp add: xval_nonneg p)
qed

text \<open>The digit loop of the three operations, on a fresh array.\<close>

lemma digitwise_fresh:
  assumes x: "wf_mag s x" and y: "wf_mag s y" and le: "andigits y \<le> andigits x" and z: "fresh s t d m" "nat (andigits y) \<le> m"
  shows "\<exists>N. digitwise f (andigits y) d (adigits x) (adigits y) (amem t) = Inr N \<and> fresh s (t\<lparr>amem := N\<rparr>) d m \<and>
    (\<forall>i<m. xdig N d i = (if i < nat (andigits y) then f (xdig (amem s) (adigits x) i) (xdig (amem s) (adigits y) i) else xdig (amem t) d i))"
proof -
  define n where "n = nat (andigits y)"
  have n: "andigits y = int n" "n \<le> m" "n \<le> nat (andigits x)" using y le z by (auto simp: n_def wf_mag_def)
  have X: "xblk (adigits x) \<noteq> xblk d" "xin (amem t) (adigits x) n" using wf_mag_blk [OF x z(1)] n xin_mono by auto
  have Y: "xblk (adigits y) \<noteq> xblk d" "xin (amem t) (adigits y) n" using wf_mag_blk [OF y z(1)] n by auto
  have D: "xin (amem t) d m" using fresh_xin [OF z(1)] by simp
  let ?g = "\<lambda>i. f (xdig (amem t) (adigits x) i) (xdig (amem t) (adigits y) i)"
  let ?N = "xset (amem t) d {..<n} ?g"
  have e: "amem t (xblk (adigits x)) = amem s (xblk (adigits x))" "amem t (xblk (adigits y)) = amem s (xblk (adigits y))"
    using x y z(1) by (simp_all add: wf_mag_def fresh_def extends_def)
  have g: "?g i = f (xdig (amem s) (adigits x) i) (xdig (amem s) (adigits y) i)" for i
    using xdig_blk [of "amem t" "adigits x" "amem s", OF e(1)] xdig_blk [of "amem t" "adigits y" "amem s", OF e(2)] by simp
  have "digitwise f (int n) d (adigits x) (adigits y) (amem t) = Inr ?N"
    using X Y D xin_mono [OF D n(2)] by (intro digitwise_eq) (simp_all add: fwd_ok_def)
  moreover have "fresh s (t\<lparr>amem := ?N\<rparr>) d m" using z(1) by (intro fresh_upd) (simp_all add: xset_frame fresh_def)
  moreover have "xdig ?N d i = (if i < n then ?g i else xdig (amem t) d i)" if "i < m" for i
    using xdig_xset_same [OF xin_mono [OF D], of i] that by simp
  ultimately show ?thesis using g by (intro exI [of _ ?N]) (simp add: n(1))
qed

lemma computes_pos: "leaves m s t v \<Longrightarrow> \<exists>z u. bind_ap m (\<lambda>z. return_ap (z\<lparr>asign := 1\<rparr>)) t = Inr (z, u) \<and> wf_ap u z \<and> aval u z = v \<and> extends s u"
  by (auto simp: leaves_def bind_ap_def return_ap_def wf_ap_def aval_def)

lemma AP_and_ok:
  assumes "wf_ap s x" "wf_ap s y"
  shows "computes (AP_and (Some x) (Some y)) s (amag s x AND amag s y)"
proof -
  have main: "computes (AP_and (Some x) (Some y)) s (amag s x AND amag s y)"
    if xy: "wf_ap s x" "wf_ap s y" "andigits y \<le> andigits x" for x y
  proof -
    note x = wf_apD(1) [OF xy(1)] and y = wf_apD(1) [OF xy(2)]
    define n where "n = nat (andigits y)"
    have n: "andigits y = int n" "0 < n" "n \<le> nat (andigits x)" using y xy(3) by (auto simp: n_def wf_mag_def)
    obtain z t where z: "mk (int n) s = Inr (z, t)" "fresh s t (adigits z) n" "asize z = int n" using mk_ok [OF n(2)] by blast
    obtain N where N: "XP_and (int n) (adigits z) (adigits x) (adigits y) (amem t) = Inr N" "fresh s (t\<lparr>amem := N\<rparr>) (adigits z) n"
      "\<And>i. i < n \<Longrightarrow> xdig N (adigits z) i = xdig (amem s) (adigits x) i AND xdig (amem s) (adigits y) i"
      using digitwise_fresh [OF x y xy(3) z(2), of "\<lambda>a b. a AND b"] n(1) by (auto simp: XP_and_def)
    have "xval N (adigits z) n = amag s x AND amag s y"
      using xval_and [OF N(3)] and_low [OF n(3)] by (simp add: amag_def n(1))
    then have "leaves (normalize z (asize z)) s (t\<lparr>amem := N\<rparr>) (amag s x AND amag s y)"
      using normalize_leaves [OF N(2) z(3) n(2)] by simp
    from computes_pos [OF this] show ?thesis
      using xy(3) z(1,3) N(1) by (subst AP_and.simps) (auto simp: computes_def n(1) bind_ap_def [of "mk _"] bind_ap_def [of "do_mem _"] do_mem_def)
  qed
  show ?thesis
  proof (cases "andigits x < andigits y")
    case True
    then show ?thesis using main [OF assms(2,1)] by (subst AP_and.simps) (simp add: and.commute)
  next
    case False
    then show ?thesis using main [OF assms] by simp
  qed
qed

text \<open>After the first call of \<open>normalize\<close> the others change nothing.\<close>

lemma normalize_loop_ok:
  "normalize z (asize z) t = Inr (z\<lparr>andigits := k\<rparr>, t) \<Longrightarrow> normalize_loop (Suc j) z t = Inr (z\<lparr>andigits := k\<rparr>, t)"
proof (induction j)
  case (Suc j)
  have "normalize (z\<lparr>andigits := k\<rparr>) (asize z) t = Inr (z\<lparr>andigits := k\<rparr>, t)"
    using Suc.prems by (auto simp: normalize_def ap_steps bind_res_eq_Inr)
  moreover have "normalize_loop (Suc j) (z\<lparr>andigits := k\<rparr>) t = normalize_loop (Suc j) z t"
    using Suc.prems calculation by (simp add: bind_ap_def)
  ultimately show ?case using Suc by (simp add: bind_ap_def)
qed (simp add: bind_ap_def return_ap_def)

text \<open>The common body of \<open>AP_or\<close> and \<open>AP_xor\<close>: with two digits or more, what is left is less than the longer operand.\<close>

lemma or_body:
  assumes xy: "wf_ap s x" "wf_ap s y" "andigits y \<le> andigits x" "2 \<le> andigits x"
  shows "\<exists>z u. bind_ap (mk (andigits x)) (\<lambda>z.
       bind_ap (do_mem (digitwise f (andigits y) (adigits z) (adigits x) (adigits y))) (\<lambda>_.
       bind_ap (normalize_loop (nat (andigits x - andigits y)) z) (\<lambda>z. return_ap (z\<lparr>asign := 1\<rparr>)))) s = Inr (z, u) \<and>
     wf_ap u z \<and> aval u z < amag s x \<and> extends s u"
proof -
  note x = wf_apD(1) [OF xy(1)] and y = wf_apD(1) [OF xy(2)]
  define n m where "n = nat (andigits y)" and "m = nat (andigits x)"
  have nm: "andigits y = int n" "andigits x = int m" "0 < n" "n \<le> m" "2 \<le> m" "0 < m" using y xy by (auto simp: n_def m_def wf_mag_def)
  have big: "256 ^ (m - 1) \<le> amag s x" using x nm top_digit [of "amem s" "adigits x" m] by (auto simp: amag_def wf_mag_def)
  obtain z t where z: "mk (int m) s = Inr (z, t)" "fresh s t (adigits z) m" "amem t (xblk (adigits z)) = replicate m 0" "andigits z = 1" "asize z = int m"
    using mk_ok [OF nm(6)] by blast
  obtain N where N: "digitwise f (int n) (adigits z) (adigits x) (adigits y) (amem t) = Inr N" "fresh s (t\<lparr>amem := N\<rparr>) (adigits z) m"
    "\<And>i. \<lbrakk>i < m; n \<le> i\<rbrakk> \<Longrightarrow> xdig N (adigits z) i = xdig (amem t) (adigits z) i"
    using digitwise_fresh [OF x y xy(3) z(2), of f] nm by auto
  let ?t = "t\<lparr>amem := N\<rparr>"
  have "\<exists>k. normalize_loop (m - n) z ?t = Inr (z\<lparr>andigits := k\<rparr>, ?t) \<and> wf_mag ?t (z\<lparr>andigits := k\<rparr>) \<and> amag ?t (z\<lparr>andigits := k\<rparr>) < amag s x"
  proof (cases "m = n")
    case True
    have "z\<lparr>andigits := 1\<rparr> = z" using z(4) by simp
    moreover have "wf_mag ?t z" "amag ?t z < 256" using N(2) z(4,5) nm xval_less [of N "adigits z" 1] by (auto simp: wf_mag_def fresh_def amag_def)
    moreover have "(256 :: int) ^ 1 \<le> 256 ^ (m - 1)" using nm by (intro power_increasing) simp_all
    then have "256 \<le> amag s x" using big by simp
    ultimately show ?thesis using True by (intro exI [of _ 1]) (simp add: return_ap_def)
  next
    case False
    define j where "j = m - n - 1"
    have j: "m - n = Suc j" "m = n + Suc j" using False nm by (simp_all add: j_def)
    obtain k where k: "normalize z (int m) ?t = Inr (z\<lparr>andigits := k\<rparr>, ?t)" "wf_mag ?t (z\<lparr>andigits := k\<rparr>)" "amag ?t (z\<lparr>andigits := k\<rparr>) = xval N (adigits z) m"
      using normalize_fresh [OF N(2) z(5) nm(6)] by auto
    have "xdig N (xp_plus (adigits z) (int n)) i = 0" if "i < Suc j" for i
    proof -
      have "xdig (amem t) (adigits z) (n + i) = 0" using that j(2) z(2,3) by (simp add: xdig_def fresh_def nat_int_add del: replicate_Suc)
      then show ?thesis using N(3) [of "n + i"] that j(2) z(2) by (simp add: xdig_plus fresh_def)
    qed
    then have "xval N (xp_plus (adigits z) (int n)) (Suc j) = 0" by (simp add: xval_def)
    then have "xval N (adigits z) m = xval N (adigits z) n" unfolding j(2) xval_split by simp
    also have "\<dots> < 256 ^ n" by (rule xval_less)
    also have "\<dots> \<le> (256 :: int) ^ (m - 1)" using False nm by (intro power_increasing) simp_all
    finally show ?thesis using normalize_loop_ok [of z ?t k j] k z(5) big j(1) by auto
  qed
  then show ?thesis
    using z(1) N(1,2) nm by (auto simp: bind_ap_def do_mem_def return_ap_def wf_ap_def aval_def fresh_def nat_diff_distrib)
qed

lemma AP_or_low:
  assumes "wf_ap s x" "wf_ap s y" "2 \<le> max (andigits x) (andigits y)"
  shows "\<exists>z t. AP_or (Some x) (Some y) s = Inr (z, t) \<and> aval t z < max (amag s x) (amag s y)"
    "\<exists>z t. AP_xor (Some x) (Some y) s = Inr (z, t) \<and> aval t z < max (amag s x) (amag s y)"
proof -
  have *: "\<exists>z t. AP_or (Some x) (Some y) s = Inr (z, t) \<and> aval t z < max (amag s x) (amag s y)"
    "\<exists>z t. AP_xor (Some x) (Some y) s = Inr (z, t) \<and> aval t z < max (amag s x) (amag s y)"
    if "wf_ap s x" "wf_ap s y" "andigits y \<le> andigits x" "2 \<le> andigits x" for x y
    using or_body [OF that, of "\<lambda>a b. a OR b"] or_body [OF that, of "\<lambda>a b. a XOR b"] that(3)
    unfolding AP_or.simps [of "Some x"] AP_xor.simps [of "Some x"] by (auto simp: XP_or_def [abs_def] XP_xor_def [abs_def] less_max_iff_disj)
  consider "andigits x < andigits y" | "andigits y \<le> andigits x" by linarith
  then show "\<exists>z t. AP_or (Some x) (Some y) s = Inr (z, t) \<and> aval t z < max (amag s x) (amag s y)"
    "\<exists>z t. AP_xor (Some x) (Some y) s = Inr (z, t) \<and> aval t z < max (amag s x) (amag s y)"
    using * [OF assms(2,1)] * [OF assms(1,2)] assms(3) AP_or.simps [of "Some x" "Some y"] AP_xor.simps [of "Some x" "Some y"]
    by (cases, simp_all add: max.commute)
qed

section \<open>Properties\<close>

definition ap_demo :: ap_st where
  "ap_demo = \<lparr>anext = 6, amem = xmem_demo, ainit = False, azero = None, aone = None\<rparr>"

definition ap_x :: ap_t where
  "ap_x = \<lparr>asign = -1, andigits = 3, asize = 3, adigits = xp_at 5\<rparr>"

definition ap_y :: ap_t where
  "ap_y = \<lparr>asign = 1, andigits = 2, asize = 2, adigits = xp_at 2\<rparr>"

definition ap_e :: ap_t where
  "ap_e = ap_y\<lparr>andigits := 1\<rparr>"

lemma ap_demo_val: "amag ap_demo ap_x = 66055" "amag ap_demo ap_y = 259" "aval ap_demo ap_x = - 66055" "aval ap_demo ap_y = 259" "amag ap_demo ap_e = 3" "aval ap_demo ap_e = 3"
  "andigits ap_x = 3"
  by (simp_all add: aval_def amag_def ap_demo_def ap_x_def ap_y_def ap_e_def xp_demo_val) (code_simp, simp?)+

lemma ap_demo_wf: "wf_ap ap_demo ap_x" "wf_ap ap_demo ap_y" "wf_ap ap_demo ap_e"
  unfolding wf_ap_def ap_demo_val
  by (simp_all add: wf_mag_def ap_demo_def ap_x_def ap_y_def ap_e_def xp_at_def xmem_demo_def xdig_def)

text \<open>C22: addition, subtraction, multiplication, negation and comparison of numbers of any length are those of the
  integers: on well-formed operands none of them fails, the result is well formed, and no number that existed before changes.\<close>

theorem AP_arith_refines:
  assumes "wf_ap s x" "wf_ap s y"
  shows "computes (AP_add (Some x) (Some y)) s (aval s x + aval s y) \<and>
    computes (AP_sub (Some x) (Some y)) s (aval s x - aval s y) \<and>
    computes (AP_mul (Some x) (Some y)) s (aval s x * aval s y) \<and>
    computes (AP_neg (Some x)) s (- aval s x) \<and>
    (\<exists>c. AP_cmp (Some x) (Some y) s = Inr (c, s) \<and> sgn c = sgn (aval s x - aval s y))"
  using AP_add_ok [OF assms] AP_sub_ok [OF assms] AP_mul_ok [OF assms] AP_neg_ok [OF assms(1)] AP_cmp_ok [OF assms] by blast

theorem AP_arith_refines_witness:
  "computes (AP_add (Some ap_x) (Some ap_y)) ap_demo (- 65796) \<and> computes (AP_mul (Some ap_x) (Some ap_y)) ap_demo (- 17108245)"
  using AP_arith_refines [OF ap_demo_wf(1,2)] by (simp add: ap_demo_val)

text \<open>C23: division rounds towards zero and the remainder has the sign of the dividend, as for machine integers; a divisor of value 0 fails
  the assertion of the two operations.\<close>

theorem AP_div_mod_correct:
  assumes "wf_ap s x" "wf_ap s y"
  shows "if aval s y = 0
    then AP_div (Some x) (Some y) s = Inl (Errquit ''!iszero(y)'') \<and> AP_mod (Some x) (Some y) s = Inl (Errquit ''!iszero(y)'')
    else computes (AP_div (Some x) (Some y)) s (aval s x sdiv aval s y) \<and> computes (AP_mod (Some x) (Some y)) s (aval s x smod aval s y)"
  using AP_div_ok [OF assms] AP_div_zero [OF assms] by simp

theorem AP_div_mod_correct_witness:
  "computes (AP_div (Some ap_x) (Some ap_y)) ap_demo (- 255) \<and> computes (AP_mod (Some ap_x) (Some ap_y)) ap_demo (- 10)"
  using AP_div_mod_correct [OF ap_demo_wf(1,2)] by (simp add: ap_demo_val)



text \<open>C25: printing a number in a base from 2 to 36 ends within its buffer, and reading the string again gives a number of the same value.\<close>

theorem AP_tostr_fromstr:
  assumes "wf_ap s x" "2 \<le> base" "base \<le> 36"
  shows "\<exists>str t. AP_tostr (Some x) base s = Some (Inr (str, t)) \<and>
    computes (AP_fromstr (Some (takeWhile (\<lambda>c. c \<noteq> CHR 0x00) str)) base) t (aval s x)"
proof -
  let ?sg = "if asign x = -1 then ''-'' else []" and ?ds = "rev (rev_digits base (amag s x))"
  obtain pad t where t: "AP_tostr (Some x) base s = Some (Inr (?sg @ ?ds @ CHR 0x00 # pad, t))" using AP_tostr_ok [OF assms] by blast
  have ds: "\<forall>c\<in>set ?ds. is_digit base c" "horner base 0 ?ds = amag s x" "?ds \<noteq> []"
    using rev_digits_ok [OF assms(2,3) amag_nonneg, of s x] by (auto simp: rev_digits.simps [of base "amag s x"])
  have "c \<noteq> CHR 0x00" if "c \<in> set ?ds" for c using ds(1) that by (auto simp: is_digit_def c_isalnum_def)
  then have tk: "takeWhile (\<lambda>c. c \<noteq> CHR 0x00) (?sg @ ?ds @ CHR 0x00 # pad) = [] @ ?sg @ ?ds @ []" by (simp add: takeWhile_append)
  have "computes (AP_fromstr (Some ([] @ ?sg @ ?ds @ [])) base) t ((if ?sg = ''-'' then -1 else 1) * horner base 0 ?ds)"
    using assms ds by (intro AP_fromstr_ok) auto
  then have "computes (AP_fromstr (Some ([] @ ?sg @ ?ds @ [])) base) t (aval s x)"
    using ds(2) wf_apD(2) [OF assms(1)] by (auto simp: aval_def)
  then show ?thesis using t tk by metis
qed

theorem AP_tostr_fromstr_witness:
  "\<exists>str t. AP_tostr (Some ap_x) 16 ap_demo = Some (Inr (str, t)) \<and>
    computes (AP_fromstr (Some (takeWhile (\<lambda>c. c \<noteq> CHR 0x00) str)) 16) t (- 66055)"
  using AP_tostr_fromstr [OF ap_demo_wf(1), of 16] by (simp add: ap_demo_val)

text \<open>C39: as soon as one operand has two digits, \<open>AP_or\<close> is not the disjunction of the magnitudes: the digits of the longer
  operand above the shorter one are lost, and with operands of the same length all digits but the lowest.\<close>

theorem AP_or_wrong:
  assumes "wf_ap s x" "wf_ap s y" "2 \<le> max (andigits x) (andigits y)"
  shows "\<exists>z t. AP_or (Some x) (Some y) s = Inr (z, t) \<and> aval t z < amag s x OR amag s y"
proof -
  have "max (amag s x) (amag s y) \<le> amag s x OR amag s y"
    using or_greater_eq [of "amag s y" "amag s x"] or_greater_eq [of "amag s x" "amag s y"] amag_nonneg [of s x] amag_nonneg [of s y]
    by (simp add: or.commute)
  then show ?thesis using AP_or_low(1) [OF assms] by fastforce
qed

theorem AP_or_wrong_witness: "\<exists>z t. AP_or (Some ap_x) (Some ap_y) ap_demo = Inr (z, t) \<and> aval t z < 66311"
  using AP_or_wrong [OF ap_demo_wf(1,2)] by (simp add: ap_demo_val)

text \<open>A machine integer comes back from a number, except the least one, which comes back as 0.\<close>

theorem AP_toint_fromint:
  assumes "long_min \<le> n" "n \<le> long_max"
  shows "\<exists>z t. AP_fromint n s = Inr (z, t) \<and> AP_toint (Some z) t = Inr (if n = long_min then 0 else n, t)"
proof -
  obtain z t where z: "AP_fromint n s = Inr (z, t)" "wf_ap t z" "aval t z = n" using AP_new_ok(2) [OF assms, of s] by (auto simp: computes_def)
  have "amag t z = \<bar>n\<bar>" using z(3) wf_apD(2) [OF z(2)] amag_nonneg [of t z] by (auto simp: aval_def)
  then have "asign z * (amag t z mod 2 ^ 31) = (if n = long_min then 0 else n)"
    using z(3) wf_apD(2) [OF z(2)] assms by (auto simp: aval_def long_min_def long_max_def)
  then show ?thesis using z(1) AP_toint_ok [OF z(2)] by auto
qed

end
