(* ===== verification/Spec2Isabelle.thy ===== *)
theory Spec2Isabelle
  imports Prelude Fat_Pointers Heap_Alloc Region_Pages Futex_Lock Key_Table Rw_Lock Thread_Join Xregion Exn_Stack Region_Alloc Spawn Cyc_Core Cyc_Dict Cyc_List Cyc_Queue Cyc_Set Cyc_Xp Cyc_Ap
begin

section \<open>The run-time system and the library of Concurrent Cyclone\<close>

text \<open>
  Concurrent Cyclone is a safe dialect of C with regions, unique pointers and threads that share
  regions through locks.  The compiler (src/src) translates a program to C.  The C code calls the run-time system (lib/*.c with the
  macros of lib/cyc_include.h) and the library written in Cyclone (lib/*.cyc), whose translation to C is kept in bin/genfiles.
  Safety rests on the run-time system: the checks the translated code makes, the memory it is given, and the locks of
  the regions it shares.  This development models the run-time system and the part of the library the compiler itself is built on, proves
  what they promise, and exhibits where the code does not keep it.

  \<^bold>\<open>How the parts interact.\<close>  A thread holds a table of keys, one for each shared region it may use (Key_Table).  A key
  counts the references and the locks of the thread; the region itself has the shared counters and a latch (Rw_Lock, Futex_Lock).  Allocation goes from
  the dispatching allocators (Region_Alloc) to lexical regions (Region_Pages) or shared ones (Xregion), and from there to the collector's
  interface (Heap_Alloc).  Regions and exception handlers share one stack per thread (Exn_Stack).  Starting a thread moves keys from
  the parent to the child (Spawn); the main thread waits for all others at the end (Thread_Join).  Library code is C with
  checked pointers (Fat_Pointers) over the comparison functions and helpers of Cyc_Core.

  \<^bold>\<open>Conventions.\<close>  A pointer and an \<open>unsigned\<close> are 32-bit words, \<open>short\<close> counters 16-bit words read with \<open>sint\<close> where
  the code reads them as signed; where overflow of an \<open>int\<close> is undefined in C the model has an integer.  A result type
  \<open>'a res\<close> has the exceptions of Cyclone (\<open>Throw\<close>) and the ends of the process by an assertion or by \<open>errquit\<close> as values.  Loops over
  pointer structures, which end only if the structure is well formed, are \<open>partial_function (option)\<close>: a run that does not end is
  \<open>None\<close>, and the theorems about them show that the result is \<open>Some\<close>.  No definition uses fuel.  State is passed
  explicitly: a record per component, an explicit store where code updates cells in place (heap bytes, keys, list cells, digit arrays).

  \<^bold>\<open>The theories, the code they model and what they show.\<close>

  \<^item> Prelude: the result types and their binds, lemmas on 32-bit words, \<open>reachable\<close> for step relations, and the locale
    \<open>inv_system\<close> (initial states, steps, an invariant), interpreted by every protocol below.

  \<^item> Fat_Pointers: the check macros of lib/cyc_include.h in the checking configuration and all of lib/runtime_zeroterm.c.  Memory is a
    predicate that tells which elements are zero.  A subscript that passes its check is a whole element of the array when the element size divides
    \<open>2 ^ 32\<close>; for other sizes the product wraps around and the check passes in the middle of an element.  Pointer addition on zero-terminated arrays
    accepts exactly the offsets below the size that is computed.

  \<^item> Heap_Alloc: lib/nogc.c and the bounded wrappers of lib/runtime_memory.c.  The choice of addresses by the C library is a parameter \<open>alloc\<close>;
    \<open>libc_ok\<close> states what C promises of it, and a concrete allocator meets it.

  \<^item> Region_Pages: \<open>_new_region\<close>, \<open>_region_malloc\<close>, growth and \<open>_free_region\<close> of lib/runtime_memory.c, with the chain of pages in
    memory.  The invariant \<open>region_wf\<close> is kept; blocks are aligned, inside their page, zero and disjoint; freeing ends and frees exactly the pages.

  \<^item> Futex_Lock: the futex wrappers and the latch of lib/runtime_lowlevel.c, and the thread identifiers of lib/runtime_stack.c.  The latch is a
    step relation over all interleavings: mutual exclusion, no failing assertion, no lost wake-up.

  \<^item> Key_Table: the intrusive hash table of lib/runtime_memory.c with its cache, growing and shrinking, on a store of entries.  It refines a finite
    map: locale \<open>key_table\<close> states the contract its clients use, the interpretation \<open>ht\<close> discharges it.

  \<^item> Rw_Lock: \<open>__xregion_lockop\<close> of lib/runtime_memory.c for one region, a pass under the latch as a function and the interleavings of all threads
    as steps: writers exclude everyone, no assertion fails for requests of one kind; a request of both kinds counts one twice.

  \<^item> Xregion: creation, allocation, locking of trees, reference counts and release of shared regions of lib/runtime_memory.c, as one
    thread runs them on the state it shares; the effect of other threads while it waits is a parameter.

  \<^item> Exn_Stack: lib/runtime_exception.c and the frame stack of lib/runtime_stack.c: throwing frees exactly the regions above the nearest
    handler and resumes there.  \<open>setjmp\<close> and \<open>longjmp\<close> are the address at which a throw resumes.

  \<^item> Region_Alloc: the allocators that dispatch on the region, the inline one of lib/cyc_include.h, unique and counted pointers, dynamic regions.
    A counted block lives until its last reference is dropped.  The inline allocator agrees with the function except on shared regions, where it misreads
    the handle.

  \<^item> Spawn: \<open>merge_caps\<close>, \<open>__treecopy\<close>, \<open>_xspawn\<close> and the body of a thread, of lib/runtime_stack.c.  Merging gives one entry per key with the sums
    of the counts; the child's table and tree are built without touching other keys; a passed write lock is lost.  \<open>qsort\<close> and the \<open>pthread\<close> calls are
    parameters, with the documented behaviour of \<open>qsort\<close> as hypothesis.

  \<^item> Thread_Join: the counter of running threads and \<open>Cyc_Core_main_join\<close> of lib/runtime_cyc.c as a step relation: the main
    thread leaves only when all others have ended, and can sleep for ever.

  \<^item> Cyc_Core, Cyc_Dict, Cyc_List, Cyc_Queue, Cyc_Set: namespace Core, the red-black dictionaries, the linked lists, the queues and the sets
    (lib/*.cyc, bin/genfiles).  The locale \<open>total_cmp\<close> is the contract of a comparison function, met by three of Core.  Dictionary insertion keeps
    the red-black invariant and is map update; the iterator visits every binding once inside its stack.  In-place sorting, reversal and appending of
    lists work on a store of cells with an arbitrary allocator; the sort ends, orders and permutes.  Queues refine sequences; set insertion is insertion.

  \<^item> Cyc_Xp, Cyc_Ap: the numbers of fixed and of arbitrary length (lib/xp.cyc, lib/ap.cyc, bin/genfiles).  Digit arrays are blocks of a memory, so
    that arguments may overlap.  Every operation of Cyc_Xp is an equation on the numbers the arrays hold, with multiplication and long division in
    full; Cyc_Ap refines integer arithmetic, with \<open>sdiv\<close> and \<open>smod\<close> for division and remainder, and its powers, common divisors and
    conversions end.  Disjunction, one conversion and negation do not do what they mean to.

  \<^bold>\<open>Not modelled.\<close>  The compiler (src/src): parser, type checker, inference, flow analysis and translation work on one syntax tree of some
  hundred constructors and thousands of lines of unification; a model of a part of it has no meaning without the typing rules, which
  the sources do not state apart from the code.  Of the library: containers without users in the run-time system (arrays, hash tables,
  splay trees, ropes, buffers, bit vectors, graphs), strings, printing and scanning.  Input and output, the arguments of \<open>main\<close>, the wrappers of the C library.  The
  profiling configuration (\<open>CYC_REGION_PROFILE\<close>), which is off in the build.  Inline assembly and context switches.  The garbage collector, the other allocators, libsigsegv and
  atomic_ops, which are included third-party code: the model uses them through lib/nogc.c and the C library's contract.  The build tools and tests.
\<close>

end
